(* ===== verification/Prelude.thy ===== *)
theory Prelude
  imports Main "HOL-Library.Word"
begin

text \<open>
  Shared vocabulary of the development: the machine integer types of the C sources, the
  status codes of the NT executive that the modelled operations return, NUL-terminated
  strings (as \<open>string\<close>, the characters before the NUL) with the small string helpers that
  every kernel file carries its own copy of, and little-endian byte access.  The generic
  lemmas on lists, words and bit masks used by several components live here too, in the
  collections \<open>c_simps\<close> (evaluation of C expressions) and \<open>frame_simps\<close> (fields an
  operation does not touch).
\<close>

unbundle bit_operations_syntax

named_theorems c_simps
named_theorems frame_simps

type_synonym u8 = "8 word"
type_synonym u16 = "16 word"
type_synonym u32 = "32 word"
type_synonym u64 = "64 word"
type_synonym NTSTATUS = "32 word"

text \<open>The status codes of \<open>sdk/ddk/ntddk.h\<close> that the modelled code returns.\<close>

definition STATUS_SUCCESS :: NTSTATUS where "STATUS_SUCCESS = 0"
definition STATUS_TIMEOUT :: NTSTATUS where "STATUS_TIMEOUT = 0x00000102"
definition STATUS_UNSUCCESSFUL :: NTSTATUS where "STATUS_UNSUCCESSFUL = 0xC0000001"
definition STATUS_INVALID_PARAMETER :: NTSTATUS where "STATUS_INVALID_PARAMETER = 0xC000000D"
definition STATUS_INVALID_HANDLE :: NTSTATUS where "STATUS_INVALID_HANDLE = 0xC0000008"
definition STATUS_NO_MEMORY :: NTSTATUS where "STATUS_NO_MEMORY = 0xC0000017"
definition STATUS_BUFFER_TOO_SMALL :: NTSTATUS where "STATUS_BUFFER_TOO_SMALL = 0xC0000023"
definition STATUS_OBJECT_NAME_NOT_FOUND :: NTSTATUS where
  "STATUS_OBJECT_NAME_NOT_FOUND = 0xC0000034"
definition STATUS_NO_MORE_ENTRIES :: NTSTATUS where "STATUS_NO_MORE_ENTRIES = 0x8000001A"
definition STATUS_INSUFFICIENT_RESOURCES :: NTSTATUS where
  "STATUS_INSUFFICIENT_RESOURCES = 0xC000009A"

lemmas status_defs = STATUS_SUCCESS_def STATUS_TIMEOUT_def STATUS_UNSUCCESSFUL_def
  STATUS_INVALID_PARAMETER_def STATUS_INVALID_HANDLE_def STATUS_NO_MEMORY_def
  STATUS_BUFFER_TOO_SMALL_def STATUS_OBJECT_NAME_NOT_FOUND_def STATUS_NO_MORE_ENTRIES_def
  STATUS_INSUFFICIENT_RESOURCES_def

definition STATUS_NOT_IMPLEMENTED :: NTSTATUS where "STATUS_NOT_IMPLEMENTED = 0xC0000002"

section \<open>Masks and rounding\<close>

lemma and_not_mask_shift: "x AND NOT (mask n) = push_bit n (drop_bit n x)" for x :: "'a::len word"
  by (rule bit_word_eqI) (auto simp: bit_simps)
lemma unat_and_not_mask: "unat (x AND NOT (mask n)) = unat x div 2 ^ n * 2 ^ n" for x :: "'a::len word"
proof -
  have "unat x div 2 ^ n * 2 ^ n \<le> unat x" by simp
  then have "take_bit LENGTH('a) (unat x div 2 ^ n * 2 ^ n) = unat x div 2 ^ n * 2 ^ n"
    by (intro take_bit_nat_eq_self le_less_trans [OF _ unsigned_less])
  then show ?thesis
    unfolding and_not_mask_shift unsigned_push_bit_eq unsigned_drop_bit_eq
    by (simp add: push_bit_eq_mult drop_bit_eq_div take_bit_eq_mod)
qed

lemma unat_of_nat_small: "n < 2 ^ LENGTH('a) \<Longrightarrow> unat (of_nat n :: 'a::len word) = n"
  by (simp only: unsigned_of_nat take_bit_nat_eq_self of_nat_id)

lemma of_nat_unat_id: "of_nat (unat w) = (w :: 'a::len word)"
  by simp

section \<open>Strings\<close>

text \<open>
  A NUL-terminated C string is the list of its characters before the NUL.  Every kernel file has
  its own static copy of \<open>lower\<close>, \<open>ieq\<close> and of the loop that copies a name into a bounded field.
\<close>

definition lower :: "char \<Rightarrow> char" where
  "lower c = (if 65 \<le> (of_char c :: nat) \<and> (of_char c :: nat) \<le> 90 then char_of ((of_char c :: nat) + 32) else c)"

fun ieq :: "string \<Rightarrow> string \<Rightarrow> bool" where
  "ieq [] [] = True"
| "ieq [] (b # bs) = False"
| "ieq (a # as) [] = False"
| "ieq (a # as) (b # bs) = (lower a = lower b \<and> ieq as bs)"

fun starts_with_ci :: "string \<Rightarrow> string \<Rightarrow> bool" where
  "starts_with_ci s [] = True"
| "starts_with_ci [] (p # ps) = False"
| "starts_with_ci (c # s) (p # ps) = (lower c = lower p \<and> starts_with_ci s ps)"

text \<open>\<open>while (s[i] && i < n) { d[i] = s[i]; i++; } d[i] = 0;\<close>\<close>

definition copy_name :: "nat \<Rightarrow> string \<Rightarrow> string" where
  "copy_name n s = take n s"

lemma ieq_map: "ieq a b \<longleftrightarrow> map lower a = map lower b"
  by (induction a b rule: ieq.induct) auto

lemma ieq_refl [simp]: "ieq a a"
  by (simp add: ieq_map)

lemma ieq_sym: "ieq a b \<Longrightarrow> ieq b a"
  by (simp add: ieq_map)

lemma ieq_trans: "ieq a b \<Longrightarrow> ieq b c \<Longrightarrow> ieq a c"
  by (simp add: ieq_map)

lemma starts_with_ci_map:
  "starts_with_ci s p \<longleftrightarrow> length p \<le> length s \<and> map lower (take (length p) s) = map lower p"
  by (induction s p rule: starts_with_ci.induct) auto

lemma copy_name_length [simp]: "length (copy_name n s) \<le> n"
  by (simp add: copy_name_def)

lemma copy_name_short [simp]: "length s \<le> n \<Longrightarrow> copy_name n s = s"
  by (simp add: copy_name_def)

section \<open>Scanning an array\<close>

text \<open>
  The loop \<open>for (i = 0; i < n; i++) if (P(a[i])) return i; return -1;\<close> that the tables of the
  kernel use to find an entry or a free slot.
\<close>

fun find_idx :: "('a \<Rightarrow> bool) \<Rightarrow> 'a list \<Rightarrow> nat option" where
  "find_idx P [] = None"
| "find_idx P (x # xs) = (if P x then Some 0 else map_option Suc (find_idx P xs))"

lemma find_idx_SomeD:
  "find_idx P xs = Some i \<Longrightarrow> i < length xs \<and> P (xs ! i) \<and> (\<forall>j < i. \<not> P (xs ! j))"
proof (induction xs arbitrary: i)
  case (Cons x xs)
  show ?case
  proof (cases "P x")
    case False
    with Cons.prems obtain k where k: "find_idx P xs = Some k" "i = Suc k" by auto
    with Cons.IH [OF k(1)] False show ?thesis by (auto simp: less_Suc_eq_0_disj)
  qed (use Cons.prems in auto)
qed simp

lemma find_idx_None [simp]: "find_idx P xs = None \<longleftrightarrow> (\<forall>x \<in> set xs. \<not> P x)"
  by (induction xs) auto

lemma find_idx_SomeI:
  "i < length xs \<Longrightarrow> P (xs ! i) \<Longrightarrow> (\<And>j. j < i \<Longrightarrow> \<not> P (xs ! j)) \<Longrightarrow> find_idx P xs = Some i"
proof (induction xs arbitrary: i)
  case (Cons x xs)
  show ?case
  proof (cases i)
    case (Suc k)
    have "\<not> P x" using Cons.prems(3) [of 0] Suc by simp
    moreover have "\<not> P (xs ! j)" if "j < k" for j using Cons.prems(3) [of "Suc j"] that Suc by simp
    then have "find_idx P xs = Some k" using Cons.prems(1,2) Suc by (intro Cons.IH) simp_all
    ultimately show ?thesis using Suc by simp
  qed (use Cons.prems in simp)
qed simp

lemma find_idx_cong:
  "length xs = length ys \<Longrightarrow> (\<And>i. i < length xs \<Longrightarrow> P (xs ! i) = Q (ys ! i)) \<Longrightarrow> find_idx P xs = find_idx Q ys"
proof (induction xs ys rule: list_induct2)
  case (Cons x xs y ys)
  have "find_idx P xs = find_idx Q ys" using Cons.prems [of "Suc _"] by (intro Cons.IH) simp
  moreover have "P x = Q y" using Cons.prems [of 0] by simp
  ultimately show ?case by simp
qed simp

end
