(* ===== verification/Interfaces.thy ===== *)
theory Interfaces
  imports Prelude
begin

text \<open>
  The interfaces between the components, as locales: the operations a client calls are the
  \<open>fixes\<close>, the laws the provider promises are the \<open>assumes\<close>, and what follows from the laws
  alone is proved here once.  Each locale is interpreted in the theory of the component that
  provides it, on the definitions translated from the source.
\<close>

section \<open>Frame allocation\<close>

text \<open>
  Used by the paging code (page-table frames) and provided by the physical memory manager.
  \<open>avail\<close> is the set of addresses the allocator may still hand out, \<open>pool\<close> the addresses it
  manages; the address 0 is the failure value.
\<close>

fun alloc_many :: "('s \<Rightarrow> 's \<times> nat) \<Rightarrow> nat \<Rightarrow> 's \<Rightarrow> 's \<times> nat list" where
  "alloc_many alloc 0 s = (s, [])"
| "alloc_many alloc (Suc n) s =
     (case alloc s of (s1, a) \<Rightarrow> case alloc_many alloc n s1 of (s2, as) \<Rightarrow> (s2, a # as))"

locale frame_allocator =
  fixes inv :: "'s \<Rightarrow> bool"
    and avail :: "'s \<Rightarrow> nat set"
    and pool :: "'s \<Rightarrow> nat set"
    and alloc :: "'s \<Rightarrow> 's \<times> nat"
    and release :: "nat \<Rightarrow> 's \<Rightarrow> 's"
  assumes avail_pool: "inv s \<Longrightarrow> avail s \<subseteq> pool s"
    and pool_nonzero: "0 \<notin> pool s"
    and finite_avail: "inv s \<Longrightarrow> finite (avail s)"
    and alloc_fail: "inv s \<Longrightarrow> avail s = {} \<Longrightarrow> alloc s = (s, 0)"
    and alloc_ok: "inv s \<Longrightarrow> avail s \<noteq> {} \<Longrightarrow> alloc s = (s', a) \<Longrightarrow>
      a \<in> avail s \<and> avail s' = avail s - {a} \<and> pool s' = pool s"
    and alloc_inv: "inv s \<Longrightarrow> alloc s = (s', a) \<Longrightarrow> inv s'"
    and release_inv: "inv s \<Longrightarrow> a \<in> pool s \<Longrightarrow> inv (release a s)"
    and release_avail: "inv s \<Longrightarrow> a \<in> pool s \<Longrightarrow> avail (release a s) = insert a (avail s)"
    and release_pool: "pool (release a s) = pool s"
begin

lemma alloc_cases:
  assumes "inv s" "alloc s = (s', a)"
  shows "(avail s = {} \<and> s' = s \<and> a = 0) \<or>
    (a \<in> avail s \<and> a \<noteq> 0 \<and> avail s' = avail s - {a} \<and> pool s' = pool s)"
proof (cases "avail s = {}")
  case True
  with alloc_fail assms show ?thesis by simp
next
  case False
  note ok = alloc_ok [OF assms(1) False assms(2)]
  then have "a \<in> pool s" using avail_pool [OF assms(1)] by (metis subsetD)
  then have "a \<noteq> 0" using pool_nonzero [of s] by metis
  with ok show ?thesis by simp
qed

lemma alloc_pool: "inv s \<Longrightarrow> alloc s = (s', a) \<Longrightarrow> pool s' = pool s"
  using alloc_cases by metis

lemma alloc_avail:
  assumes "inv s" "alloc s = (s', a)"
  shows "avail s' = avail s - {a}"
  using alloc_cases [OF assms] by auto

lemma alloc_zero_iff:
  assumes "inv s" "alloc s = (s', a)"
  shows "a = 0 \<longleftrightarrow> avail s = {}"
  using alloc_cases [OF assms] by auto

lemma alloc_fresh:
  assumes "inv s" "alloc s = (s', a)" "a \<noteq> 0"
  shows "a \<in> avail s \<and> a \<in> pool s"
proof -
  have "a \<in> avail s" using alloc_cases [OF assms(1,2)] assms(3) by metis
  with avail_pool [OF assms(1)] show ?thesis by (metis subsetD)
qed

lemma alloc_release:
  assumes "inv s" "alloc s = (s', a)" "a \<noteq> 0"
  shows "avail (release a s') = avail s"
proof -
  note fresh = alloc_fresh [OF assms]
  have "a \<in> pool s'" using fresh alloc_pool [OF assms(1,2)] by simp
  then have "avail (release a s') = insert a (avail s')"
    by (rule release_avail [OF alloc_inv [OF assms(1,2)]])
  also have "\<dots> = avail s"
    using fresh unfolding alloc_avail [OF assms(1,2)] by (simp add: insert_absorb)
  finally show ?thesis .
qed

text \<open>Frames handed out one after the other, with no release between them, are distinct.\<close>

lemma alloc_many_distinct:
  assumes "inv s" "alloc_many alloc n s = (s', as)" "0 \<notin> set as"
  shows "distinct as \<and> set as \<subseteq> avail s \<and> avail s' = avail s - set as \<and> inv s'"
  using assms
proof (induction n arbitrary: s s' as)
  case 0
  then show ?case by simp
next
  case (Suc n)
  from Suc.prems(2) obtain s1 a bs where step: "alloc s = (s1, a)"
      and rest: "alloc_many alloc n s1 = (s', bs)" and as: "as = a # bs"
    by (auto split: prod.splits)
  have "inv s1" using alloc_inv [OF Suc.prems(1) step] .
  then have IH: "distinct bs" "set bs \<subseteq> avail s1" "avail s' = avail s1 - set bs" "inv s'"
    using Suc.IH rest as Suc.prems(3) by auto
  have "a \<in> avail s" "avail s1 = avail s - {a}"
    using alloc_fresh [OF Suc.prems(1) step] alloc_avail [OF Suc.prems(1) step] as Suc.prems(3) by auto
  with IH as show ?case by auto
qed

end

section \<open>Heap allocation\<close>

text \<open>
  Used by the pool, the object manager, the registry and the descriptor lists, and provided by
  the kernel heap.  \<open>live\<close> maps the address of every live allocation to its usable size;
  the address 0 is the failure value, and \<open>release\<close> is \<open>None\<close> for an address that is not live.
\<close>

locale heap_allocator =
  fixes inv :: "'h \<Rightarrow> bool"
    and live :: "'h \<Rightarrow> nat \<rightharpoonup> nat"
    and alloc :: "u64 \<Rightarrow> 'h \<Rightarrow> 'h \<times> nat"
    and release :: "nat \<Rightarrow> 'h \<Rightarrow> 'h option"
  assumes live_nonzero: "inv h \<Longrightarrow> live h 0 = None"
    and live_disjoint: "inv h \<Longrightarrow> live h p = Some a \<Longrightarrow> live h q = Some b \<Longrightarrow> p \<noteq> q \<Longrightarrow>
      p + a \<le> q \<or> q + b \<le> p"
    and alloc_inv: "inv h \<Longrightarrow> alloc n h = (h', p) \<Longrightarrow> inv h'"
    and alloc_fail: "inv h \<Longrightarrow> alloc n h = (h', 0) \<Longrightarrow> h' = h"
    and alloc_ok: "inv h \<Longrightarrow> unat n \<le> 2 ^ 64 - 16 \<Longrightarrow> alloc n h = (h', p) \<Longrightarrow> p \<noteq> 0 \<Longrightarrow>
      live h p = None \<and> (\<exists>sz \<ge> unat n. live h' = (live h)(p \<mapsto> sz))"
    and release_ok: "inv h \<Longrightarrow> live h p = Some sz \<Longrightarrow>
      \<exists>h'. release p h = Some h' \<and> inv h' \<and> live h' = (live h)(p := None)"
begin

text \<open>A fresh allocation overlaps no allocation that was live before.\<close>

lemma alloc_disjoint:
  assumes "inv h" "unat n \<le> 2 ^ 64 - 16" "alloc n h = (h', p)" "p \<noteq> 0" "live h q = Some b"
  shows "p + unat n \<le> q \<or> q + b \<le> p"
proof -
  from alloc_ok [OF assms(1-4)] obtain sz
    where fresh: "live h p = None" and sz: "unat n \<le> sz" "live h' = (live h)(p \<mapsto> sz)" by blast
  have "q \<noteq> p" using fresh assms(5) by auto
  moreover have "live h' p = Some sz" "live h' q = Some b"
    using sz(2) assms(5) calculation by simp_all
  ultimately show ?thesis
    using live_disjoint [OF alloc_inv [OF assms(1,3)], of p sz q b] sz(1) by linarith
qed

lemma alloc_release_live:
  assumes "inv h" "unat n \<le> 2 ^ 64 - 16" "alloc n h = (h', p)" "p \<noteq> 0"
  shows "\<exists>h''. release p h' = Some h'' \<and> inv h'' \<and> live h'' = live h"
proof -
  from alloc_ok [OF assms] obtain sz where "live h p = None" "live h' = (live h)(p \<mapsto> sz)" by blast
  then show ?thesis
    using release_ok [OF alloc_inv [OF assms(1,3)], of p sz] by (simp add: fun_upd_idem)
qed

end

section \<open>Handle tables\<close>

text \<open>
  Provided by the object manager: \<open>opn\<close> stores an object in a free slot and returns the handle of
  the slot, \<open>cls\<close> empties the slot of a handle.  \<open>slots\<close> is the table seen as a map, \<open>hnd\<close> gives the
  handle of a slot and \<open>none\<close> is the failure value.
\<close>

locale handle_table =
  fixes inv :: "'s \<Rightarrow> bool"
    and ok :: "'b \<Rightarrow> bool"
    and slots :: "'s \<Rightarrow> nat \<rightharpoonup> 'b"
    and hnd :: "nat \<Rightarrow> 'h"
    and none :: 'h
    and opn :: "'b \<Rightarrow> 's \<Rightarrow> ('s \<times> 'h) option"
    and cls :: "'h \<Rightarrow> 's \<Rightarrow> 's"
  assumes hnd_inj: "slots s i \<noteq> None \<Longrightarrow> slots s' j \<noteq> None \<Longrightarrow> hnd i = hnd j \<Longrightarrow> i = j"
    and hnd_none: "slots s i \<noteq> None \<Longrightarrow> hnd i \<noteq> none"
    and open_total: "inv s \<Longrightarrow> ok b \<Longrightarrow> \<exists>s' h. opn b s = Some (s', h)"
    and open_fail: "inv s \<Longrightarrow> ok b \<Longrightarrow> opn b s = Some (s', none) \<Longrightarrow> s' = s"
    and open_ok: "inv s \<Longrightarrow> ok b \<Longrightarrow> opn b s = Some (s', h) \<Longrightarrow> h \<noteq> none \<Longrightarrow>
      \<exists>i. h = hnd i \<and> slots s i = None \<and> slots s' = (slots s)(i \<mapsto> b)"
    and open_inv: "inv s \<Longrightarrow> ok b \<Longrightarrow> opn b s = Some (s', h) \<Longrightarrow> inv s'"
    and close_ok: "inv s \<Longrightarrow> slots s i = Some b \<Longrightarrow> slots (cls (hnd i) s) = (slots s)(i := None)"
    and close_inv: "inv s \<Longrightarrow> inv (cls h s)"
begin

text \<open>A fresh handle differs from every handle that is open.\<close>

lemma open_fresh:
  assumes "inv s" "ok b" "opn b s = Some (s', h)" "h \<noteq> none" "slots s j \<noteq> None"
  shows "h \<noteq> hnd j"
proof
  assume "h = hnd j"
  from open_ok [OF assms(1-4)] obtain i where i: "h = hnd i" "slots s i = None" "slots s' = (slots s)(i \<mapsto> b)"
    by blast
  have "slots s' i \<noteq> None" using i(3) by simp
  with hnd_inj [of s' i s j] assms(5) i(1) \<open>h = hnd j\<close> have "i = j" by simp
  with i(2) assms(5) show False by simp
qed

lemma open_close:
  assumes "inv s" "ok b" "opn b s = Some (s', h)" "h \<noteq> none"
  shows "slots (cls h s') = slots s \<and> inv (cls h s')"
proof -
  from open_ok [OF assms] obtain i where i: "h = hnd i" "slots s i = None" "slots s' = (slots s)(i \<mapsto> b)"
    by blast
  have inv: "inv s'" by (rule open_inv [OF assms(1-3)])
  have "slots (cls (hnd i) s') = (slots s')(i := None)" by (rule close_ok [OF inv, of i b]) (simp add: i(3))
  also have "\<dots> = slots s" using i(2,3) by (simp add: fun_upd_idem)
  finally show ?thesis using close_inv [OF inv] i(1) by simp
qed

end

section \<open>Bounded byte queues\<close>

text \<open>
  Provided by the named pipe and by every other ring buffer: \<open>absq\<close> is the content in order,
  \<open>enq\<close> appends what fits into the capacity \<open>cap\<close> and returns how much that is, \<open>deq\<close> takes from
  the front at most what is asked for.
\<close>

fun run_fifo :: "('a list \<Rightarrow> 'q \<Rightarrow> 'q \<times> nat) \<Rightarrow> (nat \<Rightarrow> 'q \<Rightarrow> 'q \<times> 'a list) \<Rightarrow>
    ('a list + nat) list \<Rightarrow> 'q \<Rightarrow> 'q \<times> 'a list \<times> 'a list" where
  "run_fifo enq deq [] q = (q, [], [])"
| "run_fifo enq deq (Inl xs # ops) q =
     (case enq xs q of (q1, n) \<Rightarrow>
        case run_fifo enq deq ops q1 of (q2, ins, outs) \<Rightarrow> (q2, take n xs @ ins, outs))"
| "run_fifo enq deq (Inr n # ops) q =
     (case deq n q of (q1, ys) \<Rightarrow>
        case run_fifo enq deq ops q1 of (q2, ins, outs) \<Rightarrow> (q2, ins, ys @ outs))"

locale bounded_fifo =
  fixes inv :: "'q \<Rightarrow> bool"
    and absq :: "'q \<Rightarrow> 'a list"
    and cap :: nat
    and enq :: "'a list \<Rightarrow> 'q \<Rightarrow> 'q \<times> nat"
    and deq :: "nat \<Rightarrow> 'q \<Rightarrow> 'q \<times> 'a list"
  assumes bounded: "inv q \<Longrightarrow> length (absq q) \<le> cap"
    and enq_abs: "inv q \<Longrightarrow> enq xs q = (q', n) \<Longrightarrow>
      n = min (length xs) (cap - length (absq q)) \<and> absq q' = absq q @ take n xs \<and> inv q'"
    and deq_abs: "inv q \<Longrightarrow> deq n q = (q', ys) \<Longrightarrow>
      ys = take n (absq q) \<and> absq q' = drop n (absq q) \<and> inv q'"
begin

text \<open>What goes in comes out, in order: on an empty queue a write that fits is read back whole.\<close>

lemma enq_deq:
  assumes "inv q" "absq q = []" "length xs \<le> cap" "enq xs q = (q1, n)" "deq n q1 = (q2, ys)"
  shows "n = length xs \<and> ys = xs \<and> absq q2 = [] \<and> inv q2"
  using enq_abs [OF assms(1,4)] deq_abs [OF _ assms(5)] assms(2,3) by auto

text \<open>Reading in two steps is reading once.\<close>

lemma deq_deq:
  assumes "inv q" "deq a q = (q1, ys)" "deq b q1 = (q2, zs)"
  shows "ys @ zs = take (a + b) (absq q) \<and> absq q2 = drop (a + b) (absq q) \<and> inv q2"
proof -
  have 1: "ys = take a (absq q)" "absq q1 = drop a (absq q)" "inv q1" using deq_abs [OF assms(1,2)] by simp_all
  have 2: "zs = take b (absq q1)" "absq q2 = drop b (absq q1)" "inv q2" using deq_abs [OF 1(3) assms(3)] by simp_all
  show ?thesis using 1 2 by (simp add: take_add add.commute)
qed

text \<open>The bytes are conserved: what was queued and what was accepted is what was read and what is left.\<close>

lemma run_fifo_conserves:
  assumes "inv q" "run_fifo enq deq ops q = (q', ins, outs)"
  shows "absq q @ ins = outs @ absq q' \<and> inv q'"
  using assms
proof (induction ops arbitrary: q q' ins outs)
  case Nil
  then show ?case by simp
next
  case (Cons p ops)
  show ?case
  proof (cases p)
    case (Inl xs)
    obtain q1 n where e: "enq xs q = (q1, n)" by fastforce
    obtain q2 i o' where r: "run_fifo enq deq ops q1 = (q2, i, o')" by (metis prod_cases3)
    note a = enq_abs [OF Cons.prems(1) e]
    have out: "q' = q2" "ins = take n xs @ i" "outs = o'" using Cons.prems(2) Inl e r by simp_all
    have "absq q1 @ i = o' @ absq q2 \<and> inv q2" using Cons.IH [OF _ r] a by simp
    with a out show ?thesis by simp
  next
    case (Inr n)
    obtain q1 ys where e: "deq n q = (q1, ys)" by fastforce
    obtain q2 i o' where r: "run_fifo enq deq ops q1 = (q2, i, o')" by (metis prod_cases3)
    note a = deq_abs [OF Cons.prems(1) e]
    have out: "q' = q2" "ins = i" "outs = ys @ o'" using Cons.prems(2) Inr e r by simp_all
    have "absq q1 @ i = o' @ absq q2 \<and> inv q2" using Cons.IH [OF _ r] a by simp
    moreover have "absq q = ys @ absq q1" using a by simp
    ultimately show ?thesis using out by simp
  qed
qed

end

section \<open>Keyed tables\<close>

text \<open>
  Provided by the client-id table: insertion under a key, lookup and removal.  An insertion may
  fail when the table is full; it then changes nothing.
\<close>

locale keyed_table =
  fixes inv :: "'s \<Rightarrow> bool"
    and key_ok :: "'k \<Rightarrow> bool"
    and get :: "'s \<Rightarrow> 'k \<Rightarrow> 'v option"
    and put :: "'k \<Rightarrow> 'v \<Rightarrow> 's \<Rightarrow> 's \<times> bool"
    and del :: "'k \<Rightarrow> 's \<Rightarrow> 's"
  assumes put_ok: "inv s \<Longrightarrow> key_ok k \<Longrightarrow> put k v s = (s', True) \<Longrightarrow> get s' = (get s)(k \<mapsto> v)"
    and put_fail: "put k v s = (s', False) \<Longrightarrow> s' = s"
    and put_inv: "inv s \<Longrightarrow> key_ok k \<Longrightarrow> put k v s = (s', b) \<Longrightarrow> inv s'"
    and del_ok: "inv s \<Longrightarrow> key_ok k \<Longrightarrow> get (del k s) = (get s)(k := None)"
    and del_inv: "inv s \<Longrightarrow> inv (del k s)"
begin

lemma put_get: "inv s \<Longrightarrow> key_ok k \<Longrightarrow> put k v s = (s', True) \<Longrightarrow> get s' k = Some v"
  by (simp add: put_ok)

lemma put_get_other: "inv s \<Longrightarrow> key_ok k \<Longrightarrow> put k v s = (s', b) \<Longrightarrow> k' \<noteq> k \<Longrightarrow> get s' k' = get s k'"
  by (cases b) (auto simp: put_ok dest: put_fail)

lemma put_del: "inv s \<Longrightarrow> key_ok k \<Longrightarrow> get s k = None \<Longrightarrow> put k v s = (s', True) \<Longrightarrow>
    get (del k s') = get s"
  by (simp add: del_ok put_inv put_ok fun_upd_idem)

lemma put_put:
  assumes "inv s" "key_ok k" "put k v s = (s1, True)" "put k w s1 = (s2, True)"
  shows "get s2 = (get s)(k \<mapsto> w)"
  using put_ok [OF assms(1-3)] put_ok [OF put_inv [OF assms(1-3)] assms(2,4)] by simp

end

end
