(* ===== verification/Pmm.thy ===== *)
theory Pmm
  imports Interfaces
begin

text \<open>
  The physical frame allocator, \<open>src/ntos/mm/pmm.c\<close>: a bitmap with one bit per 4 KiB frame
  (1 = used), a counter of free frames and the top frame of the detected memory.  The
  bitmap is the byte array of the source (index to byte), every access goes through the
  bit operations of the source.  \<open>pmm_alloc_contiguous\<close> returns \<open>None\<close> where the C code
  would read the array past its end.  The lemmas give the bit-level view
  (\<open>is_used_set_used\<close>, \<open>is_used_set_free\<close>), the counting invariant \<open>pmm_inv\<close> and the
  interface locale \<open>frame_allocator\<close> that the paging and virtual-memory code relies on.
\<close>

definition FRAME :: nat where "FRAME = 4096"
definition PMM_BASE :: nat where "PMM_BASE = 0x4000000"
definition MAX_PHYS :: nat where "MAX_PHYS = 0x40000000"
definition MAX_FRAMES :: nat where "MAX_FRAMES = MAX_PHYS div FRAME"

lemmas pmm_consts = FRAME_def PMM_BASE_def MAX_PHYS_def MAX_FRAMES_def

record pmm_state =
  bitmap :: "nat \<Rightarrow> u8"
  s_free :: u64
  s_top_frame :: nat

definition set_used :: "nat \<Rightarrow> pmm_state \<Rightarrow> pmm_state" where
  "set_used f s = s\<lparr>bitmap := (bitmap s)(f div 8 := bitmap s (f div 8) OR push_bit (f mod 8) 1)\<rparr>"

definition set_free :: "nat \<Rightarrow> pmm_state \<Rightarrow> pmm_state" where
  "set_free f s = s\<lparr>bitmap := (bitmap s)(f div 8 := bitmap s (f div 8) AND NOT (push_bit (f mod 8) 1))\<rparr>"

definition is_used :: "pmm_state \<Rightarrow> nat \<Rightarrow> bool" where
  "is_used s f \<longleftrightarrow> bitmap s (f div 8) AND push_bit (f mod 8) 1 \<noteq> 0"

text \<open>The loop of \<open>pmm_init\<close> that frees the usable range, one frame per round.\<close>

function pmm_init_loop :: "nat \<Rightarrow> nat \<Rightarrow> pmm_state \<Rightarrow> pmm_state" where
  "pmm_init_loop a mem_top s =
     (if a + FRAME \<le> mem_top
      then pmm_init_loop (a + FRAME) mem_top
             ((set_free (a div FRAME) s)\<lparr>s_free := s_free s + 1\<rparr>)
      else s)"
  by pat_completeness auto
termination
  by (relation "measure (\<lambda>(a, top, s). top - a)") (auto simp: FRAME_def)

declare pmm_init_loop.simps [simp del]

definition pmm_init :: "nat \<Rightarrow> pmm_state \<Rightarrow> pmm_state" where
  "pmm_init mem_top0 s =
     (let mem_top = (if mem_top0 > MAX_PHYS then MAX_PHYS else mem_top0);
          s1 = s\<lparr>s_top_frame := mem_top div FRAME,
                 bitmap := (\<lambda>i. if i < MAX_FRAMES div 8 then 0xFF else bitmap s i),
                 s_free := 0\<rparr>
      in pmm_init_loop PMM_BASE mem_top s1)"

text \<open>The search of \<open>pmm_alloc_frame\<close>: the first unused frame from \<open>f\<close> on.\<close>

function pmm_scan :: "pmm_state \<Rightarrow> nat \<Rightarrow> nat option" where
  "pmm_scan s f =
     (if f < s_top_frame s then (if \<not> is_used s f then Some f else pmm_scan s (Suc f)) else None)"
  by pat_completeness auto
termination
  by (relation "measure (\<lambda>(s, f). s_top_frame s - f)") auto

declare pmm_scan.simps [simp del]

definition pmm_alloc_frame :: "pmm_state \<Rightarrow> pmm_state \<times> nat" where
  "pmm_alloc_frame s =
     (case pmm_scan s (PMM_BASE div FRAME) of
        Some f \<Rightarrow> ((set_used f s)\<lparr>s_free := s_free s - 1\<rparr>, f * FRAME)
      | None \<Rightarrow> (s, 0))"

text \<open>
  The inner loop of \<open>pmm_alloc_contiguous\<close>: the number of unused frames from \<open>f\<close> on, at
  most \<open>n\<close>.  \<open>None\<close> is a read of the bitmap past \<open>MAX_FRAMES\<close>.
\<close>

function pmm_window :: "pmm_state \<Rightarrow> nat \<Rightarrow> nat \<Rightarrow> nat \<Rightarrow> nat option" where
  "pmm_window s f n k =
     (if k < n then
        if f + k \<ge> MAX_FRAMES then None
        else if is_used s (f + k) then Some k
        else pmm_window s f n (Suc k)
      else Some k)"
  by pat_completeness auto
termination
  by (relation "measure (\<lambda>(s, f, n, k). n - k)") auto

declare pmm_window.simps [simp del]

fun mark_used :: "nat \<Rightarrow> nat \<Rightarrow> pmm_state \<Rightarrow> pmm_state" where
  "mark_used f 0 s = s"
| "mark_used f (Suc n) s = set_used (f + n) (mark_used f n s)"

text \<open>
  The outer loop.  The guard \<open>f + num_pages <= end_f\<close> is 64-bit arithmetic and wraps.
\<close>

function pmm_find_window :: "pmm_state \<Rightarrow> nat \<Rightarrow> nat \<Rightarrow> nat option option" where
  "pmm_find_window s n f =
     (if (f + n) mod 2 ^ 64 \<le> s_top_frame s \<and> f \<le> MAX_FRAMES then
        (case pmm_window s f n 0 of
           None \<Rightarrow> None
         | Some k \<Rightarrow> if k = n then Some (Some f) else pmm_find_window s n (f + k + 1))
      else Some None)"
  by pat_completeness auto
termination
  by (relation "measure (\<lambda>(s, n, f). Suc MAX_FRAMES - f)") auto

declare pmm_find_window.simps [simp del]

definition pmm_alloc_contiguous :: "nat \<Rightarrow> pmm_state \<Rightarrow> (pmm_state \<times> nat) option" where
  "pmm_alloc_contiguous n s =
     (if n = 0 then Some (s, 0)
      else case pmm_find_window s n (PMM_BASE div FRAME) of
             None \<Rightarrow> None
           | Some None \<Rightarrow> Some (s, 0)
           | Some (Some f) \<Rightarrow> Some ((mark_used f n s)\<lparr>s_free := s_free s - of_nat n\<rparr>, f * FRAME))"

definition pmm_free_frame :: "nat \<Rightarrow> pmm_state \<Rightarrow> pmm_state" where
  "pmm_free_frame addr s =
     (let f = addr div FRAME in
      if f < MAX_FRAMES \<and> is_used s f then (set_free f s)\<lparr>s_free := s_free s + 1\<rparr> else s)"

definition pmm_free_frames :: "pmm_state \<Rightarrow> u64" where "pmm_free_frames s = s_free s"
definition pmm_total_frames :: "pmm_state \<Rightarrow> nat" where "pmm_total_frames s = s_top_frame s"

section \<open>The bitmap as a set of used frames\<close>

lemma is_used_bit: "is_used s f \<longleftrightarrow> bit (bitmap s (f div 8)) (f mod 8)"
  by (simp add: is_used_def push_bit_eq_mult and_exp_eq_0_iff_not_bit)

lemma div8_mod8_eq: "(f :: nat) div 8 = g div 8 \<Longrightarrow> f mod 8 = g mod 8 \<longleftrightarrow> f = g"
  by (metis mod_mult_div_eq)

lemma is_used_set_used [simp]: "is_used (set_used f s) g \<longleftrightarrow> g = f \<or> is_used s g"
  by (auto simp: is_used_bit set_used_def bit_or_iff bit_exp_iff possible_bit_def dest: div8_mod8_eq)

lemma is_used_set_free [simp]: "is_used (set_free f s) g \<longleftrightarrow> g \<noteq> f \<and> is_used s g"
  by (auto simp: is_used_bit set_free_def bit_and_iff bit_not_iff bit_exp_iff
      possible_bit_def dest: div8_mod8_eq)

lemma set_used_fields [simp, frame_simps]:
  "s_free (set_used f s) = s_free s" "s_top_frame (set_used f s) = s_top_frame s"
  "s_free (set_free f s) = s_free s" "s_top_frame (set_free f s) = s_top_frame s"
  by (simp_all add: set_used_def set_free_def)

lemma is_used_update [simp]:
  "is_used (s\<lparr>s_free := n\<rparr>) g = is_used s g" "is_used (s\<lparr>s_top_frame := t\<rparr>) g = is_used s g"
  by (simp_all add: is_used_def)

lemma is_used_mark_used [simp]: "is_used (mark_used f n s) g \<longleftrightarrow> (f \<le> g \<and> g < f + n) \<or> is_used s g"
  by (induction n) auto

lemma mark_used_fields [simp, frame_simps]:
  "s_free (mark_used f n s) = s_free s" "s_top_frame (mark_used f n s) = s_top_frame s"
  by (induction n) auto


section \<open>Scanning loops\<close>

lemma pmm_scan_Some:
  "pmm_scan s f = Some g \<longleftrightarrow>
     f \<le> g \<and> g < s_top_frame s \<and> \<not> is_used s g \<and> (\<forall>h. f \<le> h \<and> h < g \<longrightarrow> is_used s h)"
proof (induction s f rule: pmm_scan.induct)
  case (1 s f)
  consider "f \<ge> s_top_frame s" | "f < s_top_frame s" "\<not> is_used s f" | "f < s_top_frame s" "is_used s f"
    by linarith
  then show ?case
  proof cases
    case 1
    then show ?thesis by (auto simp: pmm_scan.simps [of s f])
  next
    case 2
    then show ?thesis by (auto simp: pmm_scan.simps [of s f] order.order_iff_strict)
  next
    case 3
    then have "pmm_scan s f = Some g \<longleftrightarrow> pmm_scan s (Suc f) = Some g"
      by (simp add: pmm_scan.simps [of s f])
    also have "\<dots> \<longleftrightarrow> Suc f \<le> g \<and> g < s_top_frame s \<and> \<not> is_used s g \<and>
        (\<forall>h. Suc f \<le> h \<and> h < g \<longrightarrow> is_used s h)"
      using 3 "1.IH" by simp
    also have "\<dots> \<longleftrightarrow> f \<le> g \<and> g < s_top_frame s \<and> \<not> is_used s g \<and>
        (\<forall>h. f \<le> h \<and> h < g \<longrightarrow> is_used s h)"
      using 3 by (metis Suc_le_eq le_neq_implies_less Suc_leD)
    finally show ?thesis .
  qed
qed

lemma pmm_scan_None:
  "pmm_scan s f = None \<longleftrightarrow> (\<forall>g. f \<le> g \<and> g < s_top_frame s \<longrightarrow> is_used s g)"
proof (induction s f rule: pmm_scan.induct)
  case (1 s f)
  show ?case
  proof (cases "f < s_top_frame s \<and> is_used s f")
    case True
    then have "pmm_scan s f = None \<longleftrightarrow> pmm_scan s (Suc f) = None"
      by (simp add: pmm_scan.simps [of s f])
    also have "\<dots> \<longleftrightarrow> (\<forall>g. Suc f \<le> g \<and> g < s_top_frame s \<longrightarrow> is_used s g)"
      using True "1.IH" by simp
    also have "\<dots> \<longleftrightarrow> (\<forall>g. f \<le> g \<and> g < s_top_frame s \<longrightarrow> is_used s g)"
      using True by (metis Suc_leD Suc_le_eq le_neq_implies_less)
    finally show ?thesis .
  next
    case False
    then show ?thesis by (auto simp: pmm_scan.simps [of s f])
  qed
qed

lemma pmm_window_bounded:
  assumes "k \<le> n" "f + n \<le> MAX_FRAMES"
  shows "\<exists>j. pmm_window s f n k = Some j \<and> k \<le> j \<and> j \<le> n \<and> (j < n \<longrightarrow> is_used s (f + j)) \<and>
    (\<forall>i. k \<le> i \<and> i < j \<longrightarrow> \<not> is_used s (f + i))"
  using assms
proof (induction s f n k rule: pmm_window.induct)
  case (1 s f n k)
  show ?case
  proof (cases "k < n \<and> \<not> is_used s (f + k)")
    case True
    then obtain j where j: "pmm_window s f n (Suc k) = Some j" "Suc k \<le> j" "j \<le> n"
        "j < n \<longrightarrow> is_used s (f + j)" "\<forall>i. Suc k \<le> i \<and> i < j \<longrightarrow> \<not> is_used s (f + i)"
      using 1 by force
    from True j(1) "1.prems" have "pmm_window s f n k = Some j"
      by (subst pmm_window.simps) simp
    moreover have "\<forall>i. k \<le> i \<and> i < j \<longrightarrow> \<not> is_used s (f + i)"
      using True j(5) by (metis le_neq_implies_less Suc_leI)
    ultimately show ?thesis using j by auto
  next
    case False
    then show ?thesis using "1.prems" by (subst pmm_window.simps) auto
  qed
qed

definition window_free :: "pmm_state \<Rightarrow> nat \<Rightarrow> nat \<Rightarrow> bool" where
  "window_free s f n \<longleftrightarrow> f + n \<le> s_top_frame s \<and> (\<forall>g. f \<le> g \<and> g < f + n \<longrightarrow> \<not> is_used s g)"

lemma window_free_skip:
  assumes "is_used s (f + k)" "k < n" "window_free s g n" "f \<le> g"
  shows "f + k + 1 \<le> g"
proof (rule ccontr)
  assume "\<not> f + k + 1 \<le> g"
  with assms(2,4) have "g \<le> f + k" "f + k < g + n" by auto
  with assms(1,3) show False by (auto simp: window_free_def)
qed

lemma pmm_find_window_spec:
  assumes "0 < n" "n < 2 ^ 62" "f \<le> MAX_FRAMES" "s_top_frame s \<le> MAX_FRAMES"
  shows "(case pmm_find_window s n f of
            None \<Rightarrow> False
          | Some None \<Rightarrow> \<forall>g. f \<le> g \<longrightarrow> \<not> window_free s g n
          | Some (Some g) \<Rightarrow> f \<le> g \<and> window_free s g n \<and> (\<forall>h. f \<le> h \<and> h < g \<longrightarrow> \<not> window_free s h n))"
  using assms
proof (induction s n f rule: pmm_find_window.induct)
  case (1 s n f)
  have wrap: "(f + n) mod 18446744073709551616 = f + n"
    using "1.prems" by (simp add: pmm_consts)
  show ?case
  proof (cases "f + n \<le> s_top_frame s")
    case False
    then have "pmm_find_window s n f = Some None"
      by (subst pmm_find_window.simps) (simp add: wrap)
    moreover have "\<not> window_free s g n" if "f \<le> g" for g
      using False that by (auto simp: window_free_def)
    ultimately show ?thesis by simp
  next
    case True
    then obtain k where k: "pmm_window s f n 0 = Some k" "k \<le> n" "k < n \<longrightarrow> is_used s (f + k)"
        "\<forall>i. i < k \<longrightarrow> \<not> is_used s (f + i)"
      using pmm_window_bounded [of 0 n f s] "1.prems" by force
    show ?thesis
    proof (cases "k = n")
      case True
      with k \<open>f + n \<le> s_top_frame s\<close> "1.prems" have "pmm_find_window s n f = Some (Some f)"
        by (subst pmm_find_window.simps) (simp add: wrap)
      moreover have "window_free s f n"
        using \<open>f + n \<le> s_top_frame s\<close> k(4) True
        by (auto simp: window_free_def) (metis add_less_cancel_left le_add_diff_inverse)
      ultimately show ?thesis by auto
    next
      case False
      with k have used: "is_used s (f + k)" "k < n" by auto
      from \<open>f + n \<le> s_top_frame s\<close> used "1.prems" have small: "f + k + 1 \<le> MAX_FRAMES" by simp
      from False k(1) \<open>f + n \<le> s_top_frame s\<close> "1.prems"
      have eq: "pmm_find_window s n f = pmm_find_window s n (f + k + 1)"
        by (subst pmm_find_window.simps) (simp add: wrap)
      have IH: "case pmm_find_window s n (f + k + 1) of None \<Rightarrow> False
          | Some None \<Rightarrow> \<forall>g. f + k + 1 \<le> g \<longrightarrow> \<not> window_free s g n
          | Some (Some g) \<Rightarrow> f + k + 1 \<le> g \<and> window_free s g n \<and>
              (\<forall>h. f + k + 1 \<le> h \<and> h < g \<longrightarrow> \<not> window_free s h n)"
        using "1.IH" k(1) False \<open>f + n \<le> s_top_frame s\<close> "1.prems" small wrap by simp
      have skip: "f + k + 1 \<le> g" if "f \<le> g" "window_free s g n" for g
        using window_free_skip [OF used that(2,1)] .
      show ?thesis
      proof (cases "pmm_find_window s n (f + k + 1)")
        case None
        with IH show ?thesis by simp
      next
        case (Some r)
        show ?thesis
        proof (cases r)
          case None
          with IH Some have "\<forall>g. f + k + 1 \<le> g \<longrightarrow> \<not> window_free s g n" by simp
          with skip have "\<forall>g. f \<le> g \<longrightarrow> \<not> window_free s g n" by blast
          with Some None show ?thesis unfolding eq by simp
        next
          case (Some g)
          with IH \<open>pmm_find_window s n (f + k + 1) = Some r\<close>
          have g: "f + k + 1 \<le> g" "window_free s g n"
              "\<forall>h. f + k + 1 \<le> h \<and> h < g \<longrightarrow> \<not> window_free s h n" by simp_all
          with skip have "\<forall>h. f \<le> h \<and> h < g \<longrightarrow> \<not> window_free s h n" by blast
          with g \<open>pmm_find_window s n (f + k + 1) = Some r\<close> Some
          show ?thesis unfolding eq by simp
        qed
      qed
    qed
  qed
qed


section \<open>The counting invariant\<close>

text \<open>
  \<open>pmm_inv\<close>: the counter is the number of clear bits, the top frame lies in the bitmap, and
  only frames of the managed range \<open>[PMM_BASE, top)\<close> are clear.
\<close>

definition pmm_managed :: "pmm_state \<Rightarrow> nat set" where
  "pmm_managed s = {PMM_BASE div FRAME ..< s_top_frame s}"

definition pmm_clear :: "pmm_state \<Rightarrow> nat set" where
  "pmm_clear s = {f. f < MAX_FRAMES \<and> \<not> is_used s f}"

definition pmm_inv :: "pmm_state \<Rightarrow> bool" where
  "pmm_inv s \<longleftrightarrow> s_top_frame s \<le> MAX_FRAMES \<and> pmm_clear s \<subseteq> pmm_managed s \<and>
     s_free s = of_nat (card (pmm_clear s))"

lemma finite_pmm_clear [simp]: "finite (pmm_clear s)"
  by (simp add: pmm_clear_def)

lemma pmm_clear_set_used: "pmm_clear (set_used f s) = pmm_clear s - {f}"
  by (auto simp: pmm_clear_def)

lemma pmm_clear_mark_used: "pmm_clear (mark_used f n s) = pmm_clear s - {f..<f + n}"
  by (auto simp: pmm_clear_def)

lemma pmm_clear_set_free: "f < MAX_FRAMES \<Longrightarrow> pmm_clear (set_free f s) = insert f (pmm_clear s)"
  by (auto simp: pmm_clear_def)

lemma pmm_clear_update [simp]:
  "pmm_clear (s\<lparr>s_free := n\<rparr>) = pmm_clear s" "pmm_managed (s\<lparr>s_free := n\<rparr>) = pmm_managed s"
  by (simp_all add: pmm_clear_def pmm_managed_def)

lemma pmm_managed_fields [simp]:
  "pmm_managed (set_used f s) = pmm_managed s" "pmm_managed (set_free f s) = pmm_managed s"
  "pmm_managed (mark_used f n s) = pmm_managed s"
  by (simp_all add: pmm_managed_def)

lemma of_nat_card_Diff:
  assumes "finite A" "B \<subseteq> A"
  shows "(of_nat (card (A - B)) :: u64) = of_nat (card A) - of_nat (card B)"
proof -
  have "card A = card (A - B) + card B"
    using assms by (metis card_Diff_subset card_mono finite_subset le_add_diff_inverse2)
  then show ?thesis by simp
qed

lemma pmm_init_loop_spec:
  assumes "FRAME dvd a"
  shows "(is_used (pmm_init_loop a m s) f \<longleftrightarrow>
            is_used s f \<and> \<not> (a div FRAME \<le> f \<and> f < m div FRAME)) \<and>
         s_free (pmm_init_loop a m s) = s_free s + of_nat (m div FRAME - a div FRAME) \<and>
         s_top_frame (pmm_init_loop a m s) = s_top_frame s"
  using assms
proof (induction a m s rule: pmm_init_loop.induct)
  case (1 a m s)
  obtain q where q: "a = FRAME * q" using "1.prems" by (auto simp: dvd_def)
  have div: "a div FRAME = q" "(a + FRAME) div FRAME = Suc q"
    using q by (simp_all add: FRAME_def)
  show ?case
  proof (cases "a + FRAME \<le> m")
    case True
    then have less: "q < m div FRAME"
      using q unfolding FRAME_def by linarith
    have "FRAME dvd a + FRAME" using q by simp
    note IH = "1.IH" [OF True this]
    have "m div FRAME - q = Suc (m div FRAME - Suc q)" using less by simp
    then have count: "(of_nat (m div FRAME - q) :: u64) = 1 + of_nat (m div FRAME - Suc q)"
      by (simp only: of_nat_Suc)
    have range: "q \<le> f \<and> f < m div FRAME \<longleftrightarrow> f = q \<or> Suc q \<le> f \<and> f < m div FRAME"
      using less by auto
    show ?thesis
      unfolding pmm_init_loop.simps [of a m s] using True IH
      by (simp add: div count range) blast
  next
    case False
    then have "m div FRAME \<le> q"
      using q unfolding FRAME_def by linarith
    then show ?thesis
      unfolding pmm_init_loop.simps [of a m s] using False by (auto simp: div)
  qed
qed


lemma PMM_BASE_dvd: "FRAME dvd PMM_BASE" "PMM_BASE div FRAME = 16384" "MAX_FRAMES = 262144"
  by (simp_all add: pmm_consts)

lemma pmm_init_used:
  assumes "f < MAX_FRAMES"
  shows "is_used (pmm_init m s) f \<longleftrightarrow> f \<notin> pmm_managed (pmm_init m s)"
proof -
  have "(0xFF :: u8) = - 1" by simp
  moreover have "f mod 8 < 8" by simp
  ultimately have byte: "bit (0xFF :: u8) (f mod 8)" by (simp only: bit_minus_1_iff possible_bit_word) simp
  define mem where "mem = (if m > MAX_PHYS then MAX_PHYS else m)"
  define s1 where "s1 = s\<lparr>s_top_frame := mem div FRAME,
    bitmap := (\<lambda>i. if i < MAX_FRAMES div 8 then 0xFF else bitmap s i), s_free := 0\<rparr>"
  have "f div 8 < MAX_FRAMES div 8" using assms by (simp add: pmm_consts)
  then have "is_used s1 f" using byte by (simp add: s1_def is_used_bit)
  moreover have "pmm_init m s = pmm_init_loop PMM_BASE mem s1"
    by (simp add: pmm_init_def mem_def s1_def Let_def)
  moreover have "s_top_frame s1 = mem div FRAME" by (simp add: s1_def)
  ultimately show ?thesis
    using pmm_init_loop_spec [OF PMM_BASE_dvd(1), of mem s1 f] by (simp add: pmm_managed_def)
qed


lemma pmm_init_fields:
  "s_top_frame (pmm_init m s) = min m MAX_PHYS div FRAME"
  "s_free (pmm_init m s) = of_nat (min m MAX_PHYS div FRAME - PMM_BASE div FRAME)"
  by (simp_all add: pmm_init_def Let_def pmm_init_loop_spec PMM_BASE_dvd(1) min_def)

section \<open>Properties of the frame allocator\<close>

lemma pmm_init_clear: "pmm_clear (pmm_init m s) = pmm_managed (pmm_init m s)"
proof -
  have "min m MAX_PHYS div FRAME \<le> MAX_FRAMES" by (simp add: pmm_consts div_le_mono)
  then show ?thesis
    using pmm_init_used [of _ m s] unfolding pmm_clear_def
    by (auto simp: pmm_managed_def pmm_init_fields)
qed

lemma pmm_init_inv: "pmm_inv (pmm_init m s)"
proof -
  have "min m MAX_PHYS div FRAME \<le> MAX_FRAMES" by (simp add: pmm_consts div_le_mono)
  moreover have "card (pmm_managed (pmm_init m s)) = min m MAX_PHYS div FRAME - PMM_BASE div FRAME"
    by (simp add: pmm_managed_def pmm_init_fields)
  ultimately show ?thesis by (simp add: pmm_inv_def pmm_init_clear pmm_init_fields)
qed

text \<open>C1: After \<open>pmm_init(mem_top)\<close> the allocator is consistent (the free counter is the number
  of clear bits) and the free frames are exactly the frames of the managed range, from
  64 MiB to the detected top of memory, which is capped at 1 GiB.\<close>
theorem pmm_init_correct:
  "pmm_inv (pmm_init m s) \<and> pmm_clear (pmm_init m s) = pmm_managed (pmm_init m s) \<and>
   pmm_total_frames (pmm_init m s) = min m MAX_PHYS div FRAME"
  by (simp add: pmm_init_inv pmm_init_clear pmm_total_frames_def pmm_init_fields)

lemma pmm_alloc_frame_cases:
  "(pmm_alloc_frame s = (s, 0) \<and> (\<forall>f \<in> pmm_managed s. is_used s f)) \<or>
   (\<exists>f \<in> pmm_managed s. \<not> is_used s f \<and> (\<forall>g \<in> pmm_managed s. g < f \<longrightarrow> is_used s g) \<and>
      pmm_alloc_frame s = ((set_used f s)\<lparr>s_free := s_free s - 1\<rparr>, f * FRAME))"
proof (cases "pmm_scan s (PMM_BASE div FRAME)")
  case None
  moreover from None have "\<forall>f \<in> pmm_managed s. is_used s f"
    by (simp add: pmm_scan_None pmm_managed_def)
  ultimately show ?thesis by (simp add: pmm_alloc_frame_def)
next
  case (Some f)
  then have "pmm_alloc_frame s = ((set_used f s)\<lparr>s_free := s_free s - 1\<rparr>, f * FRAME)"
    by (simp add: pmm_alloc_frame_def)
  moreover from Some have "f \<in> pmm_managed s \<and> \<not> is_used s f \<and>
      (\<forall>g \<in> pmm_managed s. g < f \<longrightarrow> is_used s g)"
    by (simp add: pmm_scan_Some pmm_managed_def)
  ultimately show ?thesis by blast
qed

lemma pmm_inv_take:
  assumes "pmm_inv s" "W \<subseteq> pmm_clear s" "pmm_clear s' = pmm_clear s - W"
    "s_free s' = s_free s - of_nat (card W)" "s_top_frame s' = s_top_frame s"
  shows "pmm_inv s'"
  using assms of_nat_card_Diff [of "pmm_clear s" W]
  by (auto simp: pmm_inv_def pmm_managed_def)

lemma pmm_clear_managed_iff:
  "pmm_inv s \<Longrightarrow> f \<in> pmm_clear s \<longleftrightarrow> f \<in> pmm_managed s \<and> \<not> is_used s f"
  by (auto simp: pmm_inv_def pmm_clear_def pmm_managed_def)

lemma pmm_alloc_frame_inv:
  assumes "pmm_inv s" "pmm_alloc_frame s = (s', a)"
  shows "pmm_inv s'"
proof (cases "s' = s")
  case True
  with assms show ?thesis by simp
next
  case False
  with pmm_alloc_frame_cases [of s] assms(2) obtain f where f: "f \<in> pmm_managed s" "\<not> is_used s f"
    and s': "s' = (set_used f s)\<lparr>s_free := s_free s - 1\<rparr>" by auto
  show ?thesis
  proof (rule pmm_inv_take [OF assms(1), of "{f}"])
    show "{f} \<subseteq> pmm_clear s" using f assms(1) by (simp add: pmm_clear_managed_iff)
  qed (simp_all add: s' pmm_clear_set_used)
qed

lemma pmm_free_managed:
  assumes "pmm_inv s" "f \<in> pmm_managed s"
  shows "pmm_inv (pmm_free_frame (f * FRAME) s) \<and>
    pmm_clear (pmm_free_frame (f * FRAME) s) = insert f (pmm_clear s)"
proof (cases "is_used s f")
  case True
  have small: "f < MAX_FRAMES" using assms by (auto simp: pmm_inv_def pmm_managed_def)
  have "f \<notin> pmm_clear s" using True by (simp add: pmm_clear_def)
  then show ?thesis
    using assms True small
    by (auto simp: pmm_free_frame_def FRAME_def pmm_inv_def pmm_clear_set_free)
next
  case False
  with assms show ?thesis
    by (auto simp: pmm_free_frame_def FRAME_def pmm_clear_managed_iff insert_absorb)
qed

definition pmm_addr :: "nat set \<Rightarrow> nat set" where "pmm_addr F = (\<lambda>f. f * FRAME) ` F"

lemma pmm_addr_mem [simp]: "f * FRAME \<in> pmm_addr F \<longleftrightarrow> f \<in> F"
  by (auto simp: pmm_addr_def FRAME_def)

lemma pmm_addr_remove: "pmm_addr (F - {f}) = pmm_addr F - {f * FRAME}"
  by (auto simp: pmm_addr_def FRAME_def)

lemma pmm_free_frame_managed_set [simp]: "pmm_managed (pmm_free_frame a s) = pmm_managed s"
  by (simp add: pmm_free_frame_def Let_def)

interpretation pmm: frame_allocator pmm_inv "\<lambda>s. pmm_addr (pmm_clear s)"
  "\<lambda>s. pmm_addr (pmm_managed s)" pmm_alloc_frame pmm_free_frame
proof (unfold_locales, goal_cases)
  case (1 s)
  then show ?case by (auto simp: pmm_inv_def pmm_addr_def)
next
  case (2 s)
  show ?case by (auto simp: pmm_addr_def pmm_managed_def pmm_consts)
next
  case (3 s)
  show ?case by (simp add: pmm_addr_def)
next
  case (4 s)
  then show ?case
    using pmm_alloc_frame_cases [of s] pmm_clear_managed_iff [of s] by (auto simp: pmm_addr_def)
next
  case (5 s s' a)
  then obtain g where "g \<in> pmm_clear s" by (auto simp: pmm_addr_def)
  with 5(1) have "g \<in> pmm_managed s" "\<not> is_used s g" by (auto simp: pmm_clear_managed_iff)
  with pmm_alloc_frame_cases [of s] obtain f where "f \<in> pmm_managed s" "\<not> is_used s f"
      "pmm_alloc_frame s = ((set_used f s)\<lparr>s_free := s_free s - 1\<rparr>, f * FRAME)" by blast
  with 5 show ?case by (auto simp: pmm_clear_managed_iff pmm_clear_set_used pmm_addr_remove)
next
  case (6 s s' a)
  then show ?case by (rule pmm_alloc_frame_inv)
next
  case (7 s a)
  then show ?case using pmm_free_managed by (auto simp: pmm_addr_def)
next
  case (8 s a)
  then show ?case using pmm_free_managed by (auto simp: pmm_addr_def)
next
  case (9 a s)
  show ?case by simp
qed


lemma pmm_alloc_contiguous_cases:
  assumes "pmm_inv s" "0 < n" "n < 2 ^ 62"
  shows "(pmm_alloc_contiguous n s = Some (s, 0) \<and>
            (\<forall>g \<ge> PMM_BASE div FRAME. \<not> window_free s g n)) \<or>
         (\<exists>f \<ge> PMM_BASE div FRAME. window_free s f n \<and>
            (\<forall>g. PMM_BASE div FRAME \<le> g \<and> g < f \<longrightarrow> \<not> window_free s g n) \<and>
            pmm_alloc_contiguous n s =
              Some ((mark_used f n s)\<lparr>s_free := s_free s - of_nat n\<rparr>, f * FRAME))"
proof -
  have "s_top_frame s \<le> MAX_FRAMES" using assms(1) by (simp add: pmm_inv_def)
  moreover have "PMM_BASE div FRAME \<le> MAX_FRAMES" by (simp add: PMM_BASE_dvd)
  ultimately show ?thesis
    using pmm_find_window_spec [of n "PMM_BASE div FRAME" s] assms(2,3)
    by (auto simp: pmm_alloc_contiguous_def split: option.splits)
qed

lemma window_free_clear:
  assumes "pmm_inv s" "window_free s f n"
  shows "{f..<f + n} \<subseteq> pmm_clear s"
  using assms by (auto simp: window_free_def pmm_clear_def pmm_inv_def)

lemma pmm_alloc_contiguous_spec:
  assumes "pmm_inv s" "0 < n" "n < 2 ^ 62"
  shows "(pmm_alloc_contiguous n s = Some (s, 0) \<and>
            (\<forall>g \<ge> PMM_BASE div FRAME. \<not> window_free s g n)) \<or>
         (\<exists>f s'. pmm_alloc_contiguous n s = Some (s', f * FRAME) \<and> PMM_BASE \<le> f * FRAME \<and>
            window_free s f n \<and> (\<forall>g. PMM_BASE div FRAME \<le> g \<and> g < f \<longrightarrow> \<not> window_free s g n) \<and>
            pmm_clear s' = pmm_clear s - {f..<f + n} \<and> pmm_inv s' \<and> s_top_frame s' = s_top_frame s)"
  using pmm_alloc_contiguous_cases [OF assms]
proof
  assume "\<exists>f\<ge>PMM_BASE div FRAME. window_free s f n \<and>
      (\<forall>g. PMM_BASE div FRAME \<le> g \<and> g < f \<longrightarrow> \<not> window_free s g n) \<and>
      pmm_alloc_contiguous n s = Some ((mark_used f n s)\<lparr>s_free := s_free s - of_nat n\<rparr>, f * FRAME)"
  then obtain f where f: "PMM_BASE div FRAME \<le> f" "window_free s f n"
      "\<forall>g. PMM_BASE div FRAME \<le> g \<and> g < f \<longrightarrow> \<not> window_free s g n"
      "pmm_alloc_contiguous n s = Some ((mark_used f n s)\<lparr>s_free := s_free s - of_nat n\<rparr>, f * FRAME)"
    by blast
  let ?s' = "(mark_used f n s)\<lparr>s_free := s_free s - of_nat n\<rparr>"
  have "pmm_inv ?s'"
    by (rule pmm_inv_take [OF assms(1) window_free_clear [OF assms(1) f(2)]])
      (simp_all add: pmm_clear_mark_used)
  moreover have "pmm_clear ?s' = pmm_clear s - {f..<f + n}" by (simp add: pmm_clear_mark_used)
  moreover have "s_top_frame ?s' = s_top_frame s" by simp
  moreover have "PMM_BASE \<le> f * FRAME" using f(1) by (simp add: pmm_consts)
  ultimately show ?thesis using f by blast
qed simp

lemma pmm_init_window:
  assumes "n \<le> 245760"
  shows "window_free (pmm_init MAX_PHYS s) 16384 n"
proof -
  let ?s = "pmm_init MAX_PHYS s"
  have m: "s_top_frame ?s = 262144" by (simp add: pmm_init_fields pmm_consts)
  have "\<not> is_used ?s g" if "16384 \<le> g" "g < 16384 + n" for g
    using that assms pmm_init_used [of g MAX_PHYS s] m by (simp add: pmm_managed_def PMM_BASE_dvd)
  then show ?thesis using assms by (simp add: window_free_def m)
qed

definition pmm_zero :: pmm_state where
  "pmm_zero = \<lparr>bitmap = (\<lambda>_. 0), s_free = 0, s_top_frame = 0\<rparr>"

text \<open>C2: \<open>pmm_alloc_contiguous\<close> never reads the bitmap out of bounds for a request of fewer
  than 2^62 pages.  It returns 0 and leaves the state alone exactly when no window of \<open>n\<close> free
  frames exists; otherwise it returns the lowest such window, the frames of the window are
  the only ones taken from the free set, and the allocator stays consistent.\<close>
theorem pmm_alloc_contiguous_correct:
  assumes "pmm_inv s" "0 < n" "n < 2 ^ 62"
  shows "(pmm_alloc_contiguous n s = Some (s, 0) \<and>
            (\<forall>g \<ge> PMM_BASE div FRAME. \<not> window_free s g n)) \<or>
         (\<exists>f s'. pmm_alloc_contiguous n s = Some (s', f * FRAME) \<and> PMM_BASE \<le> f * FRAME \<and>
            window_free s f n \<and> (\<forall>g. PMM_BASE div FRAME \<le> g \<and> g < f \<longrightarrow> \<not> window_free s g n) \<and>
            pmm_clear s' = pmm_clear s - {f..<f + n} \<and> pmm_inv s')"
  using pmm_alloc_contiguous_spec [OF assms] by metis

theorem pmm_alloc_contiguous_correct_witness:
  "\<exists>f s'. pmm_alloc_contiguous 3 (pmm_init MAX_PHYS pmm_zero) = Some (s', f * FRAME) \<and>
     pmm_clear s' = pmm_clear (pmm_init MAX_PHYS pmm_zero) - {f..<f + 3} \<and> pmm_inv s'"
proof -
  have "window_free (pmm_init MAX_PHYS pmm_zero) 16384 3" by (rule pmm_init_window) simp
  moreover have "PMM_BASE div FRAME \<le> 16384" by (simp add: PMM_BASE_dvd)
  ultimately have "\<not> (\<forall>g \<ge> PMM_BASE div FRAME. \<not> window_free (pmm_init MAX_PHYS pmm_zero) g 3)" by metis
  moreover have "(0::nat) < 3" "(3::nat) < 2 ^ 62" by simp_all
  note pmm_alloc_contiguous_correct [OF pmm_init_inv this]
  ultimately show ?thesis by metis
qed

text \<open>C3: A sequence of single-frame allocations from a consistent state hands out pairwise
  distinct frames, all of which were free before, and the free set loses exactly those.\<close>
theorem pmm_frames_distinct:
  assumes "pmm_inv s" "alloc_many pmm_alloc_frame n s = (s', as)" "0 \<notin> set as"
  shows "distinct as \<and> set as \<subseteq> pmm_addr (pmm_clear s) \<and>
    pmm_addr (pmm_clear s') = pmm_addr (pmm_clear s) - set as \<and> pmm_inv s'"
  by (rule pmm.alloc_many_distinct [OF assms])

theorem pmm_frames_distinct_witness:
  "\<exists>s' a b. alloc_many pmm_alloc_frame 2 (pmm_init MAX_PHYS pmm_zero) = (s', [a, b]) \<and> a \<noteq> b"
proof -
  let ?s = "pmm_init MAX_PHYS pmm_zero"
  let ?s1 = "(set_used 16384 ?s)\<lparr>s_free := s_free ?s - 1\<rparr>"
  let ?s2 = "(set_used 16385 ?s1)\<lparr>s_free := s_free ?s1 - 1\<rparr>"
  have top: "s_top_frame ?s = 262144" by (simp add: pmm_init_fields pmm_consts)
  have free: "is_used ?s f \<longleftrightarrow> f < 16384" if "f < 262144" for f
    using that pmm_init_used [of f MAX_PHYS pmm_zero] top by (auto simp: pmm_managed_def PMM_BASE_dvd)
  have "pmm_scan ?s 16384 = Some 16384" by (simp add: pmm_scan_Some top free)
  then have 1: "pmm_alloc_frame ?s = (?s1, 16384 * FRAME)"
    by (simp add: pmm_alloc_frame_def PMM_BASE_dvd)
  have "pmm_scan ?s1 16384 = Some 16385" by (auto simp: pmm_scan_Some top free)
  then have 2: "pmm_alloc_frame ?s1 = (?s2, 16385 * FRAME)"
    by (simp add: pmm_alloc_frame_def PMM_BASE_dvd)
  have run: "alloc_many pmm_alloc_frame 2 ?s = (?s2, [16384 * FRAME, 16385 * FRAME])"
    by (simp add: numeral_2_eq_2 1 2)
  show ?thesis
    using pmm_frames_distinct [OF pmm_init_inv run] run by (auto simp: FRAME_def)
qed

text \<open>Releasing a frame twice is harmless: the second release changes nothing, for every
  address and every state.\<close>
theorem pmm_double_free_idempotent:
  "pmm_free_frame a (pmm_free_frame a s) = pmm_free_frame a s"
  by (simp add: pmm_free_frame_def Let_def)

text \<open>A frame outside the managed range can be released: the counter of free frames then
  promises a frame that \<open>pmm_alloc_frame\<close> never returns.\<close>
theorem pmm_free_unmanaged_counts:
  "pmm_free_frames (pmm_free_frame 0 (pmm_init PMM_BASE s)) = 1 \<and>
   pmm_alloc_frame (pmm_free_frame 0 (pmm_init PMM_BASE s)) = (pmm_free_frame 0 (pmm_init PMM_BASE s), 0)"
proof -
  let ?s = "pmm_init PMM_BASE s"
  have top: "s_top_frame ?s = 16384" "s_free ?s = 0"
    by (simp_all add: pmm_init_fields pmm_consts)
  have "is_used ?s 0"
    using pmm_init_used [of 0 PMM_BASE s] by (simp add: pmm_managed_def PMM_BASE_dvd)
  then have free: "pmm_free_frame 0 ?s = (set_free 0 ?s)\<lparr>s_free := 1\<rparr>"
    using top by (simp add: pmm_free_frame_def pmm_consts)
  moreover have "pmm_scan ((set_free 0 ?s)\<lparr>s_free := 1\<rparr>) 16384 = None"
    using top by (subst pmm_scan.simps) simp
  ultimately show ?thesis
    by (simp add: pmm_alloc_frame_def pmm_free_frames_def PMM_BASE_dvd)
qed

end
