(* ===== verification/Heap.thy ===== *)
theory Heap
  imports Interfaces
begin

text \<open>
  The kernel heap, \<open>src/ntos/mm/heap.c\<close>: a first-fit allocator with splitting and coalescing
  over a fixed region of 16 MiB.  The linked list of block headers is the list of blocks in
  link order, each with the address of its header; \<open>sizeof(block_t)\<close> is 24 on the 64-bit
  target.  The request is a 64-bit \<open>size_t\<close> and its rounding wraps around; block sizes are
  naturals, which the invariant bounds by the size of the region, so that no other size
  computation of the C code can overflow.  \<open>kfree\<close> of an address that is not the payload of
  a block writes to memory outside the model and is \<open>None\<close>.
\<close>

definition HEAP_BASE :: nat where "HEAP_BASE = 0x2000000"
definition HEAP_SIZE :: nat where "HEAP_SIZE = 0x1000000"
definition block_hdr :: nat where "block_hdr = 24"

lemmas heap_consts = HEAP_BASE_def HEAP_SIZE_def block_hdr_def

record block_t =
  baddr :: nat
  bsize :: nat
  bfree :: bool

type_synonym heap = "block_t list"

definition heap_init :: heap where
  "heap_init = [\<lparr>baddr = HEAP_BASE, bsize = HEAP_SIZE - block_hdr, bfree = True\<rparr>]"

definition align16 :: "u64 \<Rightarrow> u64" where
  "align16 n = (n + 15) AND NOT 15"

fun kmalloc_loop :: "nat \<Rightarrow> heap \<Rightarrow> (heap \<times> nat) option" where
  "kmalloc_loop n [] = None"
| "kmalloc_loop n (b # bs) =
     (if bfree b \<and> bsize b \<ge> n then
        (if bsize b \<ge> n + block_hdr + 16 then
           Some (b\<lparr>bsize := n, bfree := False\<rparr> #
                 \<lparr>baddr = baddr b + block_hdr + n, bsize = bsize b - n - block_hdr, bfree = True\<rparr> # bs,
                 baddr b + block_hdr)
         else Some (b\<lparr>bfree := False\<rparr> # bs, baddr b + block_hdr))
      else map_option (\<lambda>(bs', p). (b # bs', p)) (kmalloc_loop n bs))"

definition kmalloc :: "u64 \<Rightarrow> heap \<Rightarrow> heap \<times> nat" where
  "kmalloc n h = (case kmalloc_loop (unat (align16 n)) h of Some r \<Rightarrow> r | None \<Rightarrow> (h, 0))"

text \<open>\<open>b->free = 1\<close> for the header in front of the payload \<open>p\<close>.\<close>

fun kfree_mark :: "nat \<Rightarrow> heap \<Rightarrow> heap option" where
  "kfree_mark p [] = None"
| "kfree_mark p (b # bs) =
     (if p = baddr b + block_hdr then Some (b\<lparr>bfree := True\<rparr> # bs)
      else map_option (\<lambda>bs'. b # bs') (kfree_mark p bs))"

text \<open>The nested loops that join adjacent free blocks.\<close>

fun coalesce :: "heap \<Rightarrow> heap" where
  "coalesce [] = []"
| "coalesce [b] = [b]"
| "coalesce (b # c # bs) =
     (if bfree b \<and> bfree c then coalesce (b\<lparr>bsize := bsize b + (block_hdr + bsize c)\<rparr> # bs)
      else b # coalesce (c # bs))"

definition kfree :: "nat \<Rightarrow> heap \<Rightarrow> heap option" where
  "kfree p h = (if p = 0 then Some h else map_option coalesce (kfree_mark p h))"

section \<open>The invariant\<close>

text \<open>The blocks tile the region without gaps.\<close>

fun tiles :: "nat \<Rightarrow> heap \<Rightarrow> nat \<Rightarrow> bool" where
  "tiles a [] e \<longleftrightarrow> a = e"
| "tiles a (b # bs) e \<longleftrightarrow> baddr b = a \<and> 8 dvd bsize b \<and> tiles (a + block_hdr + bsize b) bs e"

fun no_adj_free :: "heap \<Rightarrow> bool" where
  "no_adj_free (b # c # bs) \<longleftrightarrow> \<not> (bfree b \<and> bfree c) \<and> no_adj_free (c # bs)"
| "no_adj_free _ \<longleftrightarrow> True"

definition heap_inv :: "heap \<Rightarrow> bool" where
  "heap_inv h \<longleftrightarrow> tiles HEAP_BASE h (HEAP_BASE + HEAP_SIZE) \<and> no_adj_free h"

definition heap_live :: "heap \<Rightarrow> nat \<rightharpoonup> nat" where
  "heap_live h = map_of (map (\<lambda>b. (baddr b + block_hdr, bsize b)) (filter (\<lambda>b. \<not> bfree b) h))"

lemma heap_init_inv: "heap_inv heap_init"
  by (simp add: heap_inv_def heap_init_def heap_consts)

lemma tiles_le: "tiles a h e \<Longrightarrow> a \<le> e"
  by (induction h arbitrary: a) force+

lemma tiles_addr_ge: "tiles a h e \<Longrightarrow> b \<in> set h \<Longrightarrow> a \<le> baddr b \<and> baddr b + block_hdr + bsize b \<le> e"
proof (induction h arbitrary: a)
  case (Cons c h)
  have "a + block_hdr + bsize c \<le> e"
    using Cons.prems(1) by (auto dest: tiles_le)
  with Cons.IH [of "a + block_hdr + bsize c"] Cons.prems show ?case by auto
qed simp

lemma tiles_disjoint:
  "tiles a h e \<Longrightarrow> b \<in> set h \<Longrightarrow> c \<in> set h \<Longrightarrow> baddr b \<noteq> baddr c \<Longrightarrow>
     baddr b + block_hdr + bsize b \<le> baddr c \<or> baddr c + block_hdr + bsize c \<le> baddr b"
proof (induction h arbitrary: a)
  case (Cons d h)
  then show ?case
    using tiles_addr_ge [of "a + block_hdr + bsize d" h e b]
      tiles_addr_ge [of "a + block_hdr + bsize d" h e c]
    by auto
qed simp

lemma tiles_distinct: "tiles a h e \<Longrightarrow> distinct (map baddr h)"
proof (induction h arbitrary: a)
  case (Cons d h)
  then show ?case
    using tiles_addr_ge [of "a + block_hdr + bsize d" h e] by (fastforce simp: block_hdr_def)
qed simp

lemma heap_live_Nil [simp]: "heap_live [] = Map.empty"
  by (simp add: heap_live_def)

lemma heap_live_Cons [simp]:
  "heap_live (b # h) = (if bfree b then heap_live h else (heap_live h)(baddr b + block_hdr \<mapsto> bsize b))"
  by (simp add: heap_live_def)

lemma heap_live_Some:
  "heap_live h p = Some n \<Longrightarrow> \<exists>b \<in> set h. \<not> bfree b \<and> p = baddr b + block_hdr \<and> n = bsize b"
  by (induction h) (auto split: if_splits)

lemma heap_live_None:
  "(\<And>b. b \<in> set h \<Longrightarrow> p \<noteq> baddr b + block_hdr) \<Longrightarrow> heap_live h p = None"
  by (induction h) auto

section \<open>Coalescing\<close>

lemma coalesce_hd: "h \<noteq> [] \<Longrightarrow> coalesce h \<noteq> [] \<and> bfree (hd (coalesce h)) = bfree (hd h)"
  by (induction h rule: coalesce.induct) auto

lemma coalesce_no_adj_free: "no_adj_free (coalesce h)"
proof (induction h rule: coalesce.induct)
  case (3 b c bs)
  show ?case
  proof (cases "bfree b \<and> bfree c")
    case True
    then show ?thesis using 3 by simp
  next
    case False
    obtain d ds where d: "coalesce (c # bs) = d # ds"
      using coalesce_hd [of "c # bs"] by (cases "coalesce (c # bs)") auto
    then have "bfree d = bfree c" using coalesce_hd [of "c # bs"] by simp
    then show ?thesis using False 3(2) d by auto
  qed
qed auto

lemma coalesce_tiles: "tiles a h e \<Longrightarrow> tiles a (coalesce h) e"
  by (induction h arbitrary: a rule: coalesce.induct) (auto simp: block_hdr_def add.assoc)

lemma coalesce_live: "heap_live (coalesce h) = heap_live h"
  by (induction h rule: coalesce.induct) auto

lemma coalesce_id: "no_adj_free h \<Longrightarrow> coalesce h = h"
  by (induction h rule: no_adj_free.induct) auto


section \<open>Allocation and release\<close>

lemma kmalloc_loop_baddr:
  "kmalloc_loop n h = Some (h', p) \<Longrightarrow> \<exists>b \<in> set h. bfree b \<and> n \<le> bsize b \<and> p = baddr b + block_hdr"
  by (induction h arbitrary: h') (auto split: if_splits)

lemma kmalloc_loop_tiles:
  "tiles a h e \<Longrightarrow> 8 dvd n \<Longrightarrow> kmalloc_loop n h = Some (h', p) \<Longrightarrow> tiles a h' e"
proof (induction h arbitrary: a h')
  case (Cons b h)
  have "8 dvd bsize b - n - block_hdr" if "n + block_hdr + 16 \<le> bsize b"
    using Cons.prems(1,2) by (auto simp: block_hdr_def intro!: dvd_diff_nat)
  moreover have "a + block_hdr + n + block_hdr + (bsize b - n - block_hdr) = a + block_hdr + bsize b"
    if "n + block_hdr + 16 \<le> bsize b" using that by simp
  ultimately show ?case
    using Cons by (cases "n + block_hdr + 16 \<le> bsize b") (auto simp: add.assoc split: if_splits)
qed simp

lemma kmalloc_loop_live:
  assumes "tiles a h e" "kmalloc_loop n h = Some (h', p)"
  shows "heap_live h p = None \<and> (\<exists>sz \<ge> n. heap_live h' = (heap_live h)(p \<mapsto> sz))"
  using assms
proof (induction h arbitrary: a h')
  case (Cons b h)
  have above: "baddr b + block_hdr + bsize b \<le> baddr c" if "c \<in> set h" for c
    using tiles_addr_ge [of "a + block_hdr + bsize b" h e c] Cons.prems(1) that by auto
  show ?case
  proof (cases "bfree b \<and> n \<le> bsize b")
    case True
    then have p: "p = baddr b + block_hdr" using Cons.prems(2) by (auto split: if_splits)
    have "heap_live h p = None"
      by (rule heap_live_None) (use above p in \<open>force simp: block_hdr_def\<close>)
    moreover have "\<exists>sz \<ge> n. heap_live h' = (heap_live h)(p \<mapsto> sz)"
    proof (cases "n + block_hdr + 16 \<le> bsize b")
      case split: True
      then show ?thesis using Cons.prems(2) True p by (intro exI [of _ n]) auto
    next
      case False
      then show ?thesis using Cons.prems(2) True p by (intro exI [of _ "bsize b"]) auto
    qed
    moreover have "heap_live (b # h) = heap_live h" using True by simp
    ultimately show ?thesis by (simp only: simp_thms)
  next
    case False
    then obtain h1 where h1: "kmalloc_loop n h = Some (h1, p)" "h' = b # h1"
      using Cons.prems(2) by (auto split: if_splits)
    from kmalloc_loop_baddr [OF h1(1)] above have "p \<noteq> baddr b + block_hdr"
      by (force simp: block_hdr_def)
    moreover obtain sz where "heap_live h p = None" "n \<le> sz" "heap_live h1 = (heap_live h)(p \<mapsto> sz)"
    proof -
      have "heap_live h p = None \<and> (\<exists>sz \<ge> n. heap_live h1 = (heap_live h)(p \<mapsto> sz))"
        by (rule Cons.IH [OF _ h1(1)]) (use Cons.prems(1) in auto)
      then show thesis using that by blast
    qed
    moreover from calculation h1(2)
    have "heap_live (b # h) p = None" "heap_live h' = (heap_live (b # h))(p \<mapsto> sz)"
      by (simp_all add: fun_upd_twist)
    ultimately show ?thesis by blast
  qed
qed simp

lemma kmalloc_loop_hd:
  "kmalloc_loop n (b # h) = Some (h', p) \<Longrightarrow> \<exists>c cs. h' = c # cs \<and> (bfree c \<longrightarrow> bfree b)"
  by (auto split: if_splits)

lemma no_adj_free_Cons: "no_adj_free (b # h) \<longleftrightarrow> no_adj_free h \<and> (h = [] \<or> \<not> bfree b \<or> \<not> bfree (hd h))"
  by (cases h) auto

lemma kmalloc_loop_no_adj:
  "no_adj_free h \<Longrightarrow> kmalloc_loop n h = Some (h', p) \<Longrightarrow> no_adj_free h'"
proof (induction h arbitrary: h')
  case (Cons b h)
  show ?case
  proof (cases "bfree b \<and> n \<le> bsize b")
    case True
    then show ?thesis using Cons.prems by (auto simp: no_adj_free_Cons split: if_splits)
  next
    case False
    then obtain h1 where h1: "kmalloc_loop n h = Some (h1, p)" "h' = b # h1"
      using Cons.prems(2) by (auto split: if_splits)
    then obtain d ds where "h = d # ds" by (cases h) auto
    with kmalloc_loop_hd [of n d ds h1 p] h1 Cons show ?thesis by (auto simp: no_adj_free_Cons)
  qed
qed simp

lemma kmalloc_loop_None:
  "kmalloc_loop n h = None \<longleftrightarrow> (\<forall>b \<in> set h. bfree b \<longrightarrow> bsize b < n)"
  by (induction h) auto

lemma kfree_mark_Some:
  "(\<exists>b \<in> set h. p = baddr b + block_hdr) \<longleftrightarrow> kfree_mark p h \<noteq> None"
  by (induction h) auto

lemma kfree_mark_tiles: "tiles a h e \<Longrightarrow> kfree_mark p h = Some h' \<Longrightarrow> tiles a h' e"
  by (induction h arbitrary: a h') (auto split: if_splits)

lemma kfree_mark_live:
  "tiles a h e \<Longrightarrow> kfree_mark p h = Some h' \<Longrightarrow> heap_live h' = (heap_live h)(p := None)"
proof (induction h arbitrary: a h')
  case (Cons b h)
  have above: "baddr b + block_hdr + bsize b \<le> baddr c" if "c \<in> set h" for c
    using tiles_addr_ge [of "a + block_hdr + bsize b" h e c] Cons.prems(1) that by auto
  show ?case
  proof (cases "p = baddr b + block_hdr")
    case True
    have "heap_live h p = None"
      by (rule heap_live_None) (use above True in \<open>force simp: block_hdr_def\<close>)
    then show ?thesis using Cons.prems True by (auto simp: fun_upd_idem)
  next
    case False
    then show ?thesis using Cons.prems Cons.IH by (auto simp: fun_upd_twist)
  qed
qed simp

text \<open>Marking free what was just allocated and coalescing restores the list.\<close>

lemma kmalloc_loop_kfree:
  assumes "tiles a h e" "no_adj_free h" "kmalloc_loop n h = Some (h', p)"
  shows "map_option coalesce (kfree_mark p h') = Some h"
  using assms
proof (induction h arbitrary: a h')
  case (Cons b h)
  have id: "coalesce (b # h) = b # h" by (rule coalesce_id [OF Cons.prems(2)])
  show ?case
  proof (cases "bfree b \<and> n \<le> bsize b")
    case True
    show ?thesis
    proof (cases "n + block_hdr + 16 \<le> bsize b")
      case split: True
      have "b\<lparr>bsize := n + (block_hdr + (bsize b - n - block_hdr)), bfree := True\<rparr> = b"
        using split True by simp
      then show ?thesis using Cons.prems(2,3) True split id by (cases h) auto
    next
      case False
      have "b\<lparr>bfree := True\<rparr> = b" using True by simp
      then have "kfree_mark p h' = Some (b # h)"
        using Cons.prems(3) True False by (auto simp del: block_t.update_convs)
      then show ?thesis using id by simp
    qed
  next
    case False
    then obtain h1 where h1: "kmalloc_loop n h = Some (h1, p)" "h' = b # h1"
      using Cons.prems(3) by (auto split: if_splits)
    have "baddr b + block_hdr + bsize b \<le> baddr c" if "c \<in> set h" for c
      using tiles_addr_ge [of "a + block_hdr + bsize b" h e c] Cons.prems(1) that by auto
    with kmalloc_loop_baddr [OF h1(1)] have p: "p \<noteq> baddr b + block_hdr"
      by (force simp: block_hdr_def)
    have "no_adj_free h" using Cons.prems(2) by (simp add: no_adj_free_Cons)
    with Cons.IH [OF _ _ h1(1)] Cons.prems(1) obtain h2
      where h2: "kfree_mark p h1 = Some h2" "coalesce h2 = h" by auto
    have "coalesce (b # h2) = b # h"
    proof (cases "h2")
      case Nil
      with h2 show ?thesis by simp
    next
      case (Cons d ds)
      then have "bfree d = bfree (hd h)" using coalesce_hd [of h2] h2 by simp
      moreover have "h \<noteq> []" using coalesce_hd [of h2] h2 Cons by auto
      ultimately have "\<not> (bfree b \<and> bfree d)" using \<open>no_adj_free (b # h)\<close> by (auto simp: no_adj_free_Cons)
      then show ?thesis using h2 Cons by auto
    qed
    then show ?thesis using h1 p h2 by simp
  qed
qed simp


lemma align16_unat: "unat n \<le> 2 ^ 64 - 16 \<Longrightarrow> unat (align16 n) = (unat n + 15) div 16 * 16"
proof -
  assume small: "unat n \<le> 2 ^ 64 - 16"
  have "align16 n = (n + 15) AND NOT (mask 4)"
    by (simp add: align16_def mask_eq_exp_minus_1)
  also have "\<dots> = push_bit 4 (drop_bit 4 (n + 15))"
    by (rule bit_word_eqI) (auto simp: bit_simps)
  finally have "align16 n = push_bit 4 (drop_bit 4 (n + 15))" .
  moreover have "unat (n + 15) = unat n + 15"
    using small by (simp add: unat_word_ariths)
  ultimately show ?thesis
    by (simp add: push_bit_eq_mult drop_bit_eq_div unat_word_ariths unat_div)
qed


section \<open>The heap provides the allocator interface\<close>

lemma align16_dvd: "8 dvd unat (align16 n)"
proof -
  have "align16 n = push_bit 4 (drop_bit 4 (n + 15))"
  proof -
    have "align16 n = (n + 15) AND NOT (mask 4)"
      by (simp add: align16_def mask_eq_exp_minus_1)
    also have "\<dots> = push_bit 4 (drop_bit 4 (n + 15))"
      by (rule bit_word_eqI) (auto simp: bit_simps)
    finally show ?thesis .
  qed
  then have "unat (align16 n) = (unat (drop_bit 4 (n + 15)) * 16) mod 2 ^ 64"
    by (simp add: push_bit_eq_mult unat_word_ariths)
  moreover have "(8 :: nat) dvd (m * 16) mod 2 ^ 64" for m
    by (rule dvd_mod) simp_all
  ultimately show ?thesis by (simp only:)
qed

lemma kmalloc_inv: "heap_inv h \<Longrightarrow> kmalloc n h = (h', p) \<Longrightarrow> heap_inv h'"
  using kmalloc_loop_tiles [OF _ align16_dvd] kmalloc_loop_no_adj
  by (auto simp: heap_inv_def kmalloc_def split: option.splits)

lemma heap_nonzero: "heap_inv h \<Longrightarrow> b \<in> set h \<Longrightarrow> baddr b + block_hdr \<noteq> 0"
  by (simp add: block_hdr_def)

lemma kmalloc_cases:
  "(kmalloc n h = (h, 0) \<and> (\<forall>b \<in> set h. bfree b \<longrightarrow> bsize b < unat (align16 n))) \<or>
   (\<exists>h' p. kmalloc_loop (unat (align16 n)) h = Some (h', p) \<and> kmalloc n h = (h', p) \<and> p \<noteq> 0)"
proof (cases "kmalloc_loop (unat (align16 n)) h")
  case None
  moreover from None have "\<forall>b \<in> set h. bfree b \<longrightarrow> bsize b < unat (align16 n)"
    by (simp only: kmalloc_loop_None)
  ultimately show ?thesis by (simp add: kmalloc_def)
next
  case (Some r)
  obtain h' p where "r = (h', p)" by (cases r)
  with Some kmalloc_loop_baddr show ?thesis by (force simp: kmalloc_def block_hdr_def)
qed

lemma align16_ge: "unat n \<le> 2 ^ 64 - 16 \<Longrightarrow> unat n \<le> unat (align16 n)"
  by (simp add: align16_unat)

lemma kfree_live_ok:
  assumes "heap_inv h" "heap_live h p = Some sz"
  shows "\<exists>h'. kfree p h = Some h' \<and> heap_inv h' \<and> heap_live h' = (heap_live h)(p := None)"
proof -
  from heap_live_Some [OF assms(2)] obtain b where b: "b \<in> set h" "p = baddr b + block_hdr" by blast
  then obtain h1 where h1: "kfree_mark p h = Some h1"
    using kfree_mark_Some [of h p] by auto
  have "p \<noteq> 0" using b by (simp add: block_hdr_def)
  with h1 have "kfree p h = Some (coalesce h1)" by (simp add: kfree_def)
  moreover have "heap_inv (coalesce h1)"
    using assms(1) h1 by (auto simp: heap_inv_def coalesce_no_adj_free intro: coalesce_tiles kfree_mark_tiles)
  moreover have "heap_live (coalesce h1) = (heap_live h)(p := None)"
    using assms(1) h1 unfolding coalesce_live by (auto simp: heap_inv_def intro: kfree_mark_live)
  ultimately show ?thesis by blast
qed

interpretation kheap: heap_allocator heap_inv heap_live kmalloc kfree
proof (unfold_locales, goal_cases)
  case (1 h)
  show ?case by (rule heap_live_None) (simp add: block_hdr_def)
next
  case (2 h p a q b)
  from heap_live_Some [OF 2(2)] heap_live_Some [OF 2(3)] obtain c d
    where cd: "c \<in> set h" "p = baddr c + block_hdr" "a = bsize c"
      "d \<in> set h" "q = baddr d + block_hdr" "b = bsize d" by blast
  then have "baddr c \<noteq> baddr d" using 2(4) by auto
  then show ?case
    using tiles_disjoint [of HEAP_BASE h _ c d] 2(1) cd by (fastforce simp: heap_inv_def)
next
  case (3 h n h' p)
  then show ?case by (rule kmalloc_inv)
next
  case (4 h n h')
  then show ?case using kmalloc_cases [of n h] by auto
next
  case (5 h n h' p)
  then have "kmalloc_loop (unat (align16 n)) h = Some (h', p)" using kmalloc_cases [of n h] by auto
  then obtain sz where "heap_live h p = None" "unat (align16 n) \<le> sz" "heap_live h' = (heap_live h)(p \<mapsto> sz)"
    using kmalloc_loop_live [of HEAP_BASE h] 5(1) unfolding heap_inv_def by blast
  moreover have "unat n \<le> sz" using align16_ge [OF 5(2)] calculation(2) by (rule le_trans)
  ultimately show ?case by blast
next
  case (6 h p sz)
  then show ?case by (rule kfree_live_ok)
qed


section \<open>Properties of the heap\<close>

text \<open>C10: \<open>kmalloc\<close> keeps the heap well formed (blocks tile the region, no two free blocks are
  adjacent).  It fails, changing nothing, only when no free block is large enough for the
  rounded request; otherwise the address is fresh, the usable size is at least the request, and
  the new block is disjoint from every live one.\<close>
theorem kmalloc_correct:
  assumes "heap_inv h" "unat n \<le> 2 ^ 64 - 16" "kmalloc n h = (h', p)"
  shows "heap_inv h' \<and>
    (p = 0 \<and> h' = h \<and> (\<forall>b \<in> set h. bfree b \<longrightarrow> bsize b < unat (align16 n)) \<or>
     p \<noteq> 0 \<and> heap_live h p = None \<and> (\<exists>sz \<ge> unat n. heap_live h' = (heap_live h)(p \<mapsto> sz)) \<and>
     (\<forall>q b. heap_live h q = Some b \<longrightarrow> p + unat n \<le> q \<or> q + b \<le> p))"
proof (cases "p = 0")
  case True
  then show ?thesis
    using kmalloc_cases [of n h] kmalloc_inv [OF assms(1,3)] assms(3) by auto
next
  case False
  then show ?thesis
    using kheap.alloc_ok [OF assms False] kheap.alloc_disjoint [OF assms False]
      kmalloc_inv [OF assms(1,3)] by blast
qed

theorem kmalloc_correct_witness:
  "heap_inv heap_init \<and> snd (kmalloc 100 heap_init) = HEAP_BASE + 24 \<and>
   heap_inv (fst (kmalloc 100 heap_init))"
proof -
  have "(100 :: u64) + 15 = 115" by simp
  then have run: "kmalloc 100 heap_init =
      ([\<lparr>baddr = 0x2000000, bsize = 112, bfree = False\<rparr>,
        \<lparr>baddr = 0x2000000 + 24 + 112, bsize = 0x1000000 - 24 - 112 - 24, bfree = True\<rparr>], 0x2000000 + 24)"
    by (simp add: kmalloc_def heap_init_def heap_consts align16_unat)
  have "heap_inv (fst (kmalloc 100 heap_init))"
    using kmalloc_correct [OF heap_init_inv _ run] run by simp
  then show ?thesis using heap_init_inv run by (simp add: HEAP_BASE_def)
qed

text \<open>C11: \<open>kfree\<close> of a live allocation succeeds, keeps the heap well formed and fully coalesced, and
  removes exactly that allocation from the live ones.\<close>
theorem kfree_correct:
  assumes "heap_inv h" "heap_live h p = Some sz"
  shows "\<exists>h'. kfree p h = Some h' \<and> heap_inv h' \<and> heap_live h' = (heap_live h)(p := None)"
  by (rule kheap.release_ok [OF assms])

theorem kfree_correct_witness:
  "\<exists>h'. kfree (HEAP_BASE + 24) [\<lparr>baddr = HEAP_BASE, bsize = HEAP_SIZE - block_hdr, bfree = False\<rparr>]
     = Some h' \<and> heap_inv h' \<and> heap_live h' = Map.empty"
proof -
  let ?h = "[\<lparr>baddr = HEAP_BASE, bsize = HEAP_SIZE - block_hdr, bfree = False\<rparr>]"
  have "heap_inv ?h" by (simp add: heap_inv_def heap_consts)
  moreover have "heap_live ?h (HEAP_BASE + 24) = Some (HEAP_SIZE - 24)" by (simp add: heap_consts)
  moreover have "(heap_live ?h)(HEAP_BASE + 24 := None) = Map.empty"
    by (rule ext) (simp add: heap_consts)
  ultimately show ?thesis using kfree_correct [of ?h "HEAP_BASE + 24"] by metis
qed

lemma kmalloc_kfree_lib:
  assumes "heap_inv h" "kmalloc n h = (h', p)" "p \<noteq> 0"
  shows "kfree p h' = Some h"
proof -
  have "kmalloc_loop (unat (align16 n)) h = Some (h', p)"
    using kmalloc_cases [of n h] assms(2,3) by auto
  with kmalloc_loop_kfree [of HEAP_BASE h] assms(1,3) show ?thesis
    by (auto simp: heap_inv_def kfree_def)
qed

text \<open>C12: Freeing a block right after it was allocated restores the heap exactly: the split is undone
  by the coalescing pass, for every well-formed heap and every request.\<close>
theorem kmalloc_kfree_roundtrip:
  assumes "heap_inv h" "kmalloc n h = (h', p)" "p \<noteq> 0"
  shows "kfree p h' = Some h"
  using assms by (rule kmalloc_kfree_lib)

theorem kmalloc_kfree_roundtrip_witness:
  "kfree (snd (kmalloc 64 heap_init)) (fst (kmalloc 64 heap_init)) = Some heap_init"
proof -
  have nz: "snd (kmalloc 64 heap_init) \<noteq> 0"
    by (simp add: kmalloc_def heap_init_def heap_consts align16_unat)
  show ?thesis by (rule kmalloc_kfree_roundtrip [OF heap_init_inv _ nz]) simp
qed

text \<open>The rounding of the request overflows for the sixteen largest sizes: a request of
  2^64 - 1 bytes succeeds and returns a block of zero usable bytes.\<close>
theorem kmalloc_size_overflow:
  "kmalloc (- 1) heap_init =
     ([\<lparr>baddr = HEAP_BASE, bsize = 0, bfree = False\<rparr>,
       \<lparr>baddr = HEAP_BASE + 24, bsize = HEAP_SIZE - 48, bfree = True\<rparr>], HEAP_BASE + 24)"
proof -
  have "align16 (- 1) = 0" by (simp add: align16_def)
  then show ?thesis by (simp add: kmalloc_def heap_init_def heap_consts)
qed

text \<open>The payload addresses are only 8-byte aligned: the first block handed out by a fresh heap is
  at an address that is 8 modulo 16.\<close>
theorem kmalloc_not_16_aligned:
  "snd (kmalloc 64 heap_init) mod 16 = 8"
  by (simp add: kmalloc_def heap_init_def heap_consts align16_unat)

end
