(* ===== verification/Pool.thy ===== *)
theory Pool
  imports Heap
begin

text \<open>
  The executive pool, \<open>src/ntos/ex/pool.c\<close>: a 16-byte header (tag, size, magic, pool type) in
  front of every kernel heap block and the allocation statistics.  \<open>hdr_at\<close> is the memory seen
  as headers: what the 16 bytes at an address decode to, whether or not the pool wrote them.
  The counters are 64-bit and the subtractions saturate as in the source.  The lemmas of the
  interface \<open>heap_allocator\<close> give the facts on addresses; the refinement \<open>pool_rel\<close> relates
  the counters to the set of live pool blocks.
\<close>

definition POOL_MAGIC :: u16 where "POOL_MAGIC = 0x4C50"
definition sizeof_POOL_HDR :: nat where "sizeof_POOL_HDR = 16"

record POOL_HDR =
  Tag :: u32
  Size :: u64
  Magic :: u16
  PoolType :: u8
  Reserved :: u8

record pool_state =
  pheap :: heap
  hdr_at :: "nat \<Rightarrow> POOL_HDR"
  pmem :: "nat \<Rightarrow> u8"
  s_allocs :: u64
  s_frees :: u64
  s_bytes :: u64
  s_bytes_paged :: u64
  s_bytes_nonpag :: u64

definition ExAllocatePoolWithTag_k :: "u32 \<Rightarrow> u64 \<Rightarrow> u32 \<Rightarrow> pool_state \<Rightarrow> pool_state \<times> nat" where
  "ExAllocatePoolWithTag_k PoolTy NumberOfBytes Tg s =
     (if NumberOfBytes = 0 then (s, 0)
      else case kmalloc (NumberOfBytes + 16) (pheap s) of (h, raw) \<Rightarrow>
        if raw = 0 then (s, 0)
        else
          (let ty = (ucast PoolTy :: u8);
               hd = \<lparr>Tag = Tg, Size = NumberOfBytes, Magic = POOL_MAGIC, PoolType = ty, Reserved = 0\<rparr>;
               s1 = s\<lparr>pheap := h, hdr_at := (hdr_at s)(raw := hd),
                      s_allocs := s_allocs s + 1, s_bytes := s_bytes s + NumberOfBytes\<rparr>
           in (if ty = 1 then s1\<lparr>s_bytes_paged := s_bytes_paged s1 + NumberOfBytes\<rparr>
               else s1\<lparr>s_bytes_nonpag := s_bytes_nonpag s1 + NumberOfBytes\<rparr>,
               raw + sizeof_POOL_HDR)))"

definition ExAllocatePool_k :: "u32 \<Rightarrow> u64 \<Rightarrow> pool_state \<Rightarrow> pool_state \<times> nat" where
  "ExAllocatePool_k PoolTy NumberOfBytes s =
     ExAllocatePoolWithTag_k PoolTy NumberOfBytes 0x20656E6E s"

definition ExAllocatePoolUninitialized_k ::
    "u32 \<Rightarrow> u64 \<Rightarrow> u32 \<Rightarrow> pool_state \<Rightarrow> pool_state \<times> nat" where
  "ExAllocatePoolUninitialized_k PoolTy NumberOfBytes Tg s =
     ExAllocatePoolWithTag_k PoolTy NumberOfBytes Tg s"

definition ExAllocatePool2_k :: "u64 \<Rightarrow> u64 \<Rightarrow> u32 \<Rightarrow> pool_state \<Rightarrow> pool_state \<times> nat" where
  "ExAllocatePool2_k Flags NumberOfBytes Tg s =
     (case ExAllocatePoolWithTag_k 0 NumberOfBytes Tg s of (s1, p) \<Rightarrow>
        if p \<noteq> 0 \<and> Flags AND 1 \<noteq> 0
        then (s1\<lparr>pmem := (\<lambda>a. if p \<le> a \<and> a < p + unat NumberOfBytes then 0 else pmem s1 a)\<rparr>, p)
        else (s1, p))"

definition ExAllocatePool3_k ::
    "u64 \<Rightarrow> u64 \<Rightarrow> u32 \<Rightarrow> nat \<Rightarrow> pool_state \<Rightarrow> pool_state \<times> nat" where
  "ExAllocatePool3_k Flags NumberOfBytes Tg Params s = ExAllocatePool2_k Flags NumberOfBytes Tg s"

text \<open>\<open>if (c >= n) c -= n; else c = 0;\<close>\<close>

definition sat_sub :: "u64 \<Rightarrow> u64 \<Rightarrow> u64" where
  "sat_sub c n = (if c \<ge> n then c - n else 0)"

definition ExFreePoolWithTag_k :: "nat \<Rightarrow> u32 \<Rightarrow> pool_state \<Rightarrow> pool_state option" where
  "ExFreePoolWithTag_k P Tg s =
     (if P = 0 then Some s
      else let raw = P - sizeof_POOL_HDR; hd = hdr_at s raw in
        if Magic hd \<noteq> POOL_MAGIC then Some s
        else
          (let s1 = s\<lparr>s_frees := s_frees s + 1, s_bytes := sat_sub (s_bytes s) (Size hd)\<rparr>;
               s2 = (if PoolType hd = 1
                     then s1\<lparr>s_bytes_paged := sat_sub (s_bytes_paged s1) (Size hd)\<rparr>
                     else s1\<lparr>s_bytes_nonpag := sat_sub (s_bytes_nonpag s1) (Size hd)\<rparr>);
               s3 = s2\<lparr>hdr_at := (hdr_at s2)(raw := hd\<lparr>Magic := 0\<rparr>)\<rparr>
           in map_option (\<lambda>h. s3\<lparr>pheap := h\<rparr>) (kfree raw (pheap s3))))"

definition ExFreePool_k :: "nat \<Rightarrow> pool_state \<Rightarrow> pool_state option" where
  "ExFreePool_k P s = ExFreePoolWithTag_k P 0 s"

definition pool_bytes_outstanding :: "pool_state \<Rightarrow> u64" where "pool_bytes_outstanding s = s_bytes s"
definition pool_bytes_paged :: "pool_state \<Rightarrow> u64" where "pool_bytes_paged s = s_bytes_paged s"
definition pool_bytes_nonpaged :: "pool_state \<Rightarrow> u64" where "pool_bytes_nonpaged s = s_bytes_nonpag s"
definition pool_total_allocs :: "pool_state \<Rightarrow> u64" where "pool_total_allocs s = s_allocs s"
definition pool_total_frees :: "pool_state \<Rightarrow> u64" where "pool_total_frees s = s_frees s"

section \<open>Refinement of the set of live pool blocks\<close>

text \<open>
  \<open>L\<close> is the abstract pool: the live blocks, from the raw address to the requested size and
  the pool type.  \<open>pool_rel s L\<close> says that the headers in memory describe \<open>L\<close>, that each block
  of \<open>L\<close> is a live heap block with room for header and data, and that the counters are the sums
  over \<open>L\<close>.
\<close>

definition pool_sum :: "(u8 \<Rightarrow> bool) \<Rightarrow> (nat \<rightharpoonup> nat \<times> u8) \<Rightarrow> nat" where
  "pool_sum P L = (\<Sum>p \<in> dom L. if P (snd (the (L p))) then fst (the (L p)) else 0)"

definition pool_rel :: "pool_state \<Rightarrow> (nat \<rightharpoonup> nat \<times> u8) \<Rightarrow> bool" where
  "pool_rel s L \<longleftrightarrow> heap_inv (pheap s) \<and> finite (dom L) \<and>
     (\<forall>p n ty. L p = Some (n, ty) \<longrightarrow>
        Magic (hdr_at s p) = POOL_MAGIC \<and> Size (hdr_at s p) = of_nat n \<and> n < 2 ^ 64 \<and>
        PoolType (hdr_at s p) = ty \<and>
        (\<exists>sz. heap_live (pheap s) p = Some sz \<and> n + sizeof_POOL_HDR \<le> sz)) \<and>
     unat (s_bytes s) = pool_sum (\<lambda>_. True) L \<and>
     unat (s_bytes_paged s) = pool_sum (\<lambda>ty. ty = 1) L \<and>
     unat (s_bytes_nonpag s) = pool_sum (\<lambda>ty. ty \<noteq> 1) L"

lemma pool_sum_upd:
  assumes "finite (dom L)" "L p = None"
  shows "pool_sum P (L(p \<mapsto> (n, ty))) = pool_sum P L + (if P ty then n else 0)"
proof -
  have "p \<notin> dom L" using assms(2) by auto
  then have "pool_sum P L = (\<Sum>q \<in> dom L. if P (snd (the ((L(p \<mapsto> (n, ty))) q)))
      then fst (the ((L(p \<mapsto> (n, ty))) q)) else 0)"
    unfolding pool_sum_def by (intro sum.cong) auto
  then show ?thesis using assms \<open>p \<notin> dom L\<close> unfolding pool_sum_def by simp
qed

lemma pool_sum_del:
  assumes "finite (dom L)" "L p = Some (n, ty)"
  shows "pool_sum P L = pool_sum P (L(p := None)) + (if P ty then n else 0)"
proof -
  have "L = (L(p := None))(p \<mapsto> (n, ty))" using assms(2) by auto
  then have "pool_sum P L = pool_sum P ((L(p := None))(p \<mapsto> (n, ty)))" by (rule arg_cong)
  also have "\<dots> = pool_sum P (L(p := None)) + (if P ty then n else 0)"
    by (rule pool_sum_upd) (use assms in auto)
  finally show ?thesis .
qed

lemma sat_sub_unat: "unat c = a + unat n \<Longrightarrow> unat (sat_sub c n) = a"
  by (auto simp: sat_sub_def word_le_nat_alt unat_sub)

lemma unat_add_le: "unat a + unat b < 2 ^ 64 \<Longrightarrow> unat (a + b :: u64) = unat a + unat b"
  by (simp add: unat_word_ariths)

definition pool_zero :: "nat \<Rightarrow> POOL_HDR" where
  "pool_zero a = \<lparr>Tag = 0, Size = 0, Magic = 0, PoolType = 0, Reserved = 0\<rparr>"

text \<open>Allocation refines the abstract pool: for a request whose size plus header does not
  overflow, either nothing changes and 0 is returned, or a fresh live block of at least the
  requested size is recorded under its tag and pool type and the byte counters grow by exactly
  the request.\<close>
theorem ExAllocatePoolWithTag_refines:
  assumes "pool_rel s L" "0 < unat n" "unat n \<le> 2 ^ 64 - 32"
    and "unat (s_bytes s) + unat n < 2 ^ 64"
    and "ExAllocatePoolWithTag_k ty n tg s = (s', p)"
  shows "(p = 0 \<and> s' = s) \<or>
    (16 < p \<and> L (p - 16) = None \<and> pool_rel s' (L(p - 16 \<mapsto> (unat n, ucast ty))) \<and>
     s_allocs s' = s_allocs s + 1)"
proof (cases "p = 0")
  case True
  then show ?thesis
    using assms(5) by (auto simp: ExAllocatePoolWithTag_k_def Let_def sizeof_POOL_HDR_def split: if_splits prod.splits)
next
  case False
  obtain h raw where km: "kmalloc (n + 16) (pheap s) = (h, raw)" by fastforce
  have req: "unat (n + 16) = unat n + 16" using assms(3) by (simp add: unat_word_ariths)
  then have small: "unat (n + 16) \<le> 2 ^ 64 - 16" using assms(3) by simp
  have inv: "heap_inv (pheap s)" using assms(1) by (simp add: pool_rel_def)
  have raw: "raw \<noteq> 0" "p = raw + 16"
    using False assms(2,5) km
    by (auto simp: ExAllocatePoolWithTag_k_def Let_def sizeof_POOL_HDR_def split: if_splits)
  from kheap.alloc_ok [OF inv small km raw(1)] obtain sz where live: "heap_live (pheap s) raw = None"
      "unat n + 16 \<le> sz" "heap_live h = (heap_live (pheap s))(raw \<mapsto> sz)"
    unfolding req by blast
  have hinv: "heap_inv h" by (rule kheap.alloc_inv [OF inv km])
  have fresh: "L raw = None"
    using assms(1) live(1) unfolding pool_rel_def by (metis not_None_eq option.distinct(1) surj_pair)
  have fin: "finite (dom L)" using assms(1) by (simp add: pool_rel_def)
  have sums: "pool_sum P (L(raw \<mapsto> (unat n, ucast ty))) = pool_sum P L + (if P (ucast ty) then unat n else 0)" for P
    by (rule pool_sum_upd [OF fin fresh])
  have part: "pool_sum P L \<le> pool_sum (\<lambda>_. True) L" for P
    unfolding pool_sum_def by (rule sum_mono) simp
  have bounds: "unat (s_bytes_paged s) + unat n < 2 ^ 64" "unat (s_bytes_nonpag s) + unat n < 2 ^ 64"
    using assms(1,4) part [of "\<lambda>ty. ty = 1"] part [of "\<lambda>ty. ty \<noteq> 1"] by (auto simp: pool_rel_def)
  have "n \<noteq> 0" using assms(2) by auto
  then have s': "s' = (let s1 = s\<lparr>pheap := h,
        hdr_at := (hdr_at s)(raw := \<lparr>Tag = tg, Size = n, Magic = POOL_MAGIC, PoolType = ucast ty, Reserved = 0\<rparr>),
        s_allocs := s_allocs s + 1, s_bytes := s_bytes s + n\<rparr> in
      if (ucast ty :: u8) = 1 then s1\<lparr>s_bytes_paged := s_bytes_paged s1 + n\<rparr>
      else s1\<lparr>s_bytes_nonpag := s_bytes_nonpag s1 + n\<rparr>)"
    using assms(5) km raw(1) by (simp add: ExAllocatePoolWithTag_k_def Let_def)
  have "pool_rel s' (L(raw \<mapsto> (unat n, ucast ty)))"
    using assms(1,4) bounds live hinv unfolding pool_rel_def s'
    by (auto simp: Let_def sums unat_add_le sizeof_POOL_HDR_def)
  then show ?thesis using raw fresh s' by (auto simp: Let_def)
qed


definition pool_init :: "(nat \<Rightarrow> POOL_HDR) \<Rightarrow> pool_state" where
  "pool_init m = \<lparr>pheap = heap_init, hdr_at = m, pmem = (\<lambda>_. 0), s_allocs = 0, s_frees = 0, s_bytes = 0,
     s_bytes_paged = 0, s_bytes_nonpag = 0\<rparr>"

lemma pool_init_rel: "pool_rel (pool_init m) Map.empty"
  by (simp add: pool_rel_def pool_init_def heap_init_inv pool_sum_def)

theorem ExAllocatePoolWithTag_refines_witness:
  "\<exists>s' p. ExAllocatePoolWithTag_k 1 100 7 (pool_init pool_zero) = (s', p) \<and> p \<noteq> 0 \<and>
     pool_rel s' [p - 16 \<mapsto> (100, 1)] \<and> s_allocs s' = 1"
proof -
  obtain s' p where run: "ExAllocatePoolWithTag_k 1 100 7 (pool_init pool_zero) = (s', p)" by fastforce
  then have "p \<noteq> 0"
    by (auto simp: ExAllocatePoolWithTag_k_def pool_init_def kmalloc_def heap_init_def heap_consts
        align16_unat Let_def sizeof_POOL_HDR_def)
  moreover have "unat (s_bytes (pool_init pool_zero)) + unat (100 :: u64) < 2 ^ 64" by (simp add: pool_init_def)
  ultimately show ?thesis
    using ExAllocatePoolWithTag_refines [OF pool_init_rel _ _ _ run] run by (auto simp: pool_init_def)
qed

lemma ExFreePoolWithTag_eq:
  assumes "Magic (hdr_at s raw) = POOL_MAGIC" "kfree raw (pheap s) = Some h"
  shows "ExFreePoolWithTag_k (raw + 16) tg s = Some
    (s\<lparr>pheap := h, hdr_at := (hdr_at s)(raw := (hdr_at s raw)\<lparr>Magic := 0\<rparr>), s_frees := s_frees s + 1,
       s_bytes := sat_sub (s_bytes s) (Size (hdr_at s raw)),
       s_bytes_paged := (if PoolType (hdr_at s raw) = 1
         then sat_sub (s_bytes_paged s) (Size (hdr_at s raw)) else s_bytes_paged s),
       s_bytes_nonpag := (if PoolType (hdr_at s raw) = 1
         then s_bytes_nonpag s else sat_sub (s_bytes_nonpag s) (Size (hdr_at s raw)))\<rparr>)"
  using assms by (simp add: ExFreePoolWithTag_k_def Let_def sizeof_POOL_HDR_def)

text \<open>Release refines the abstract pool: freeing the address of a live pool block succeeds,
  removes exactly that block, and takes its size off the total and off the counter of the pool
  type it was allocated from.\<close>
theorem ExFreePoolWithTag_refines:
  assumes "pool_rel s L" "L raw = Some (n, ty)"
  shows "\<exists>s'. ExFreePoolWithTag_k (raw + 16) tg s = Some s' \<and> pool_rel s' (L(raw := None)) \<and>
    s_frees s' = s_frees s + 1"
proof -
  from assms obtain sz where hdr: "Magic (hdr_at s raw) = POOL_MAGIC" "Size (hdr_at s raw) = of_nat n"
      "n < 2 ^ 64" "PoolType (hdr_at s raw) = ty" and live: "heap_live (pheap s) raw = Some sz"
    unfolding pool_rel_def by blast
  have "heap_inv (pheap s)" "finite (dom L)" using assms(1) by (simp_all add: pool_rel_def)
  from kheap.release_ok [OF this(1) live] obtain h where h: "kfree raw (pheap s) = Some h"
      "heap_inv h" "heap_live h = (heap_live (pheap s))(raw := None)" by blast
  note eq = ExFreePoolWithTag_eq [OF hdr(1) h(1), of tg]
  have sums: "pool_sum P L = pool_sum P (L(raw := None)) + (if P ty then n else 0)" for P
    by (rule pool_sum_del [OF \<open>finite (dom L)\<close> assms(2)])
  have size: "unat (Size (hdr_at s raw)) = n" using hdr(2,3) by (simp add: unat_of_nat)
  have bytes: "unat (sat_sub (s_bytes s) (Size (hdr_at s raw))) = pool_sum (\<lambda>_. True) (L(raw := None))"
    using assms(1) sums [of "\<lambda>_. True"] by (intro sat_sub_unat) (simp add: pool_rel_def size)
  have paged: "unat (sat_sub (s_bytes_paged s) (Size (hdr_at s raw))) = pool_sum (\<lambda>ty. ty = 1) (L(raw := None))"
    if "ty = 1" using assms(1) sums [of "\<lambda>ty. ty = 1"] that by (intro sat_sub_unat) (simp add: pool_rel_def size)
  have nonpag: "unat (sat_sub (s_bytes_nonpag s) (Size (hdr_at s raw))) = pool_sum (\<lambda>ty. ty \<noteq> 1) (L(raw := None))"
    if "ty \<noteq> 1" using assms(1) sums [of "\<lambda>ty. ty \<noteq> 1"] that by (intro sat_sub_unat) (simp add: pool_rel_def size)
  have keep: "pool_sum P (L(raw := None)) = pool_sum P L" if "\<not> P ty" for P
    using sums [of P] that by simp
  show ?thesis
    unfolding eq using assms(1) h bytes paged nonpag keep hdr(4)
    by (auto simp: pool_rel_def)
qed

theorem ExFreePoolWithTag_refines_witness:
  "\<exists>s s'. pool_rel s [HEAP_BASE + 24 \<mapsto> (8, 0)] \<and> ExFreePoolWithTag_k (HEAP_BASE + 24 + 16) 0 s = Some s' \<and>
     pool_rel s' Map.empty"
proof -
  let ?s = "(pool_init (\<lambda>_. \<lparr>Tag = 0, Size = 8, Magic = POOL_MAGIC, PoolType = 0, Reserved = 0\<rparr>))
    \<lparr>pheap := [\<lparr>baddr = HEAP_BASE, bsize = HEAP_SIZE - block_hdr, bfree = False\<rparr>],
     s_bytes := 8, s_bytes_nonpag := 8\<rparr>"
  let ?L = "[HEAP_BASE + 24 \<mapsto> (8, 0 :: u8)]"
  have hinv: "heap_inv [\<lparr>baddr = HEAP_BASE, bsize = HEAP_SIZE - block_hdr, bfree = False\<rparr>]"
    by (simp add: heap_inv_def heap_consts)
  have live: "heap_live [\<lparr>baddr = HEAP_BASE, bsize = HEAP_SIZE - block_hdr, bfree = False\<rparr>]
      = [HEAP_BASE + 24 \<mapsto> HEAP_SIZE - block_hdr]"
    by (simp add: heap_live_def block_hdr_def)
  have sum: "pool_sum P ?L = (if P 0 then 8 else 0)" for P
    by (simp add: pool_sum_def)
  have "(8 :: nat) + sizeof_POOL_HDR \<le> HEAP_SIZE - block_hdr"
    by (simp add: sizeof_POOL_HDR_def heap_consts)
  with hinv live sum have rel: "pool_rel ?s ?L"
    by (simp add: pool_rel_def pool_init_def)
  have at: "?L (HEAP_BASE + 24) = Some (8, 0)" by (rule fun_upd_same)
  have empty: "?L(HEAP_BASE + 24 := None) = Map.empty" by (rule ext) simp
  from ExFreePoolWithTag_refines [OF rel at, of 0, unfolded empty]
  obtain s' where "ExFreePoolWithTag_k (HEAP_BASE + 24 + 16) 0 ?s = Some s'" "pool_rel s' Map.empty" by blast
  with rel have "pool_rel ?s ?L \<and> ExFreePoolWithTag_k (HEAP_BASE + 24 + 16) 0 ?s = Some s' \<and> pool_rel s' Map.empty"
    by (intro conjI)
  then show ?thesis by (intro exI)
qed

text \<open>The two per-type counters always add up to the total.\<close>

lemma pool_rel_split:
  assumes "pool_rel s L"
  shows "unat (pool_bytes_outstanding s) = unat (pool_bytes_paged s) + unat (pool_bytes_nonpaged s)"
proof -
  have "pool_sum (\<lambda>_. True) L = pool_sum (\<lambda>ty. ty = 1) L + pool_sum (\<lambda>ty. ty \<noteq> 1) L"
    unfolding pool_sum_def sum.distrib [symmetric] by (rule sum.cong) auto
  with assms show ?thesis
    by (simp add: pool_rel_def pool_bytes_outstanding_def pool_bytes_paged_def pool_bytes_nonpaged_def)
qed

text \<open>A second \<open>ExFreePoolWithTag\<close> of the same address, with any tag, is ignored: the first one
  destroys the magic of the header (and an address without the magic is never freed).\<close>
theorem pool_double_free_ignored:
  assumes "ExFreePoolWithTag_k P tg s = Some s'"
  shows "ExFreePoolWithTag_k P tg' s' = Some s'"
  using assms
  by (auto simp: ExFreePoolWithTag_k_def Let_def POOL_MAGIC_def split: if_splits)

theorem pool_double_free_ignored_witness:
  "ExFreePoolWithTag_k 4096 5 (pool_init (\<lambda>_. \<lparr>Tag = 0, Size = 8, Magic = 0, PoolType = 0, Reserved = 0\<rparr>)) =
   Some (pool_init (\<lambda>_. \<lparr>Tag = 0, Size = 8, Magic = 0, PoolType = 0, Reserved = 0\<rparr>))"
proof -
  have "ExFreePoolWithTag_k 4096 9 (pool_init (\<lambda>_. \<lparr>Tag = 0, Size = 8, Magic = 0, PoolType = 0, Reserved = 0\<rparr>)) =
   Some (pool_init (\<lambda>_. \<lparr>Tag = 0, Size = 8, Magic = 0, PoolType = 0, Reserved = 0\<rparr>))"
    by (simp add: ExFreePoolWithTag_k_def pool_init_def POOL_MAGIC_def)
  from pool_double_free_ignored [OF this] show ?thesis .
qed

text \<open>The header size is added to the request without an overflow check: a request of 2^64 - 16
  bytes is granted from a heap block of zero usable bytes, so that the pool header itself is
  written over the header of the following heap block.\<close>
theorem pool_size_overflow:
  "snd (ExAllocatePoolWithTag_k 0 (- 16) tg (pool_init m)) = HEAP_BASE + 24 + 16 \<and>
   heap_live (pheap (fst (ExAllocatePoolWithTag_k 0 (- 16) tg (pool_init m)))) (HEAP_BASE + 24) = Some 0"
proof -
  have "align16 0 = 0" by (simp add: align16_def)
  then have "kmalloc 0 heap_init =
     ([\<lparr>baddr = HEAP_BASE, bsize = 0, bfree = False\<rparr>,
       \<lparr>baddr = HEAP_BASE + 24, bsize = HEAP_SIZE - 48, bfree = True\<rparr>], HEAP_BASE + 24)"
    by (simp add: kmalloc_def heap_init_def heap_consts)
  then show ?thesis
    by (simp add: ExAllocatePoolWithTag_k_def pool_init_def Let_def sizeof_POOL_HDR_def heap_consts)
qed

end
