(* ===== verification/VirtMem.thy ===== *)
theory VirtMem
  imports Pmm
begin

text \<open>
  The virtual memory calls of \<open>src/ntos/mm/virtmem.c\<close> on top of the frame allocator: allocation
  of whole pages by \<open>pmm_alloc_contiguous\<close>, zeroing, release frame by frame, and the statistics.
  The kernel maps the first GiB by identity, so that the address returned is the physical one.
  The two in-out pointer arguments are options (\<open>None\<close> is the null pointer) and are returned
  with their new values.  An operation is \<open>None\<close> only where the frame allocator is.
\<close>

definition PAGE_SIZE :: u64 where "PAGE_SIZE = 0x1000"
definition PAGE_MASK :: u64 where "PAGE_MASK = NOT (PAGE_SIZE - 1)"
definition MEM_DECOMMIT :: u32 where "MEM_DECOMMIT = 0x4000"
definition MEM_RELEASE :: u32 where "MEM_RELEASE = 0x8000"
definition PAGE_READWRITE :: u32 where "PAGE_READWRITE = 4"

definition round_up_pages :: "u64 \<Rightarrow> u64" where
  "round_up_pages bytes = (bytes + PAGE_SIZE - 1) AND PAGE_MASK"

record vm_state =
  vm_pmm :: pmm_state
  vm_mem :: "nat \<Rightarrow> u8"
  s_vm_allocs :: u64
  s_vm_frees :: u64
  s_vm_bytes :: u64

definition MmAllocateVirtualMemory_k ::
    "u64 option \<Rightarrow> u64 option \<Rightarrow> vm_state \<Rightarrow> (vm_state \<times> u64 option \<times> u64 option \<times> NTSTATUS) option" where
  "MmAllocateVirtualMemory_k BaseAddress RegionSize s =
     (case (BaseAddress, RegionSize) of
        (Some b, Some req) \<Rightarrow>
          if req = 0 then Some (s, BaseAddress, RegionSize, STATUS_INVALID_PARAMETER)
          else
            (let aligned = round_up_pages req; pages = unat (aligned div PAGE_SIZE) in
             case pmm_alloc_contiguous pages (vm_pmm s) of
               None \<Rightarrow> None
             | Some (m, phys) \<Rightarrow>
                 if phys = 0 then Some (s\<lparr>vm_pmm := m\<rparr>, BaseAddress, RegionSize, STATUS_INSUFFICIENT_RESOURCES)
                 else Some (s\<lparr>vm_pmm := m,
                              vm_mem := (\<lambda>a. if phys \<le> a \<and> a < phys + unat aligned then 0 else vm_mem s a),
                              s_vm_allocs := s_vm_allocs s + 1, s_vm_bytes := s_vm_bytes s + aligned\<rparr>,
                            Some (of_nat phys), Some aligned, STATUS_SUCCESS))
      | _ \<Rightarrow> Some (s, BaseAddress, RegionSize, STATUS_INVALID_PARAMETER))"

text \<open>The release loop.  \<open>a\<close> and \<open>e\<close> are multiples of the page size below 2^64, so that \<open>a\<close> cannot
  step over \<open>e\<close> and the 64-bit increment cannot wrap.\<close>

function vm_free_loop :: "nat \<Rightarrow> nat \<Rightarrow> pmm_state \<Rightarrow> pmm_state" where
  "vm_free_loop a e m = (if a < e then vm_free_loop (a + FRAME) e (pmm_free_frame a m) else m)"
  by pat_completeness auto
termination
  by (relation "measure (\<lambda>(a, e, m). e - a)") (auto simp: FRAME_def)

declare vm_free_loop.simps [simp del]

definition MmFreeVirtualMemory_k ::
    "u64 option \<Rightarrow> u64 option \<Rightarrow> u32 \<Rightarrow> vm_state \<Rightarrow> vm_state \<times> NTSTATUS" where
  "MmFreeVirtualMemory_k BaseAddress RegionSize FreeType s =
     (case (BaseAddress, RegionSize) of
        (Some b, Some size0) \<Rightarrow>
          if b = 0 then (s, STATUS_INVALID_PARAMETER)
          else
            (let sz = (if size0 = 0 then PAGE_SIZE else size0); aligned = round_up_pages sz in
             if FreeType AND MEM_DECOMMIT \<noteq> 0 then (s, STATUS_SUCCESS)
             else
               (let base = b AND PAGE_MASK; e = base + aligned in
                (s\<lparr>vm_pmm := vm_free_loop (unat base) (unat e) (vm_pmm s),
                   s_vm_frees := s_vm_frees s + 1,
                   s_vm_bytes := (if s_vm_bytes s \<ge> aligned then s_vm_bytes s - aligned else 0)\<rparr>,
                 STATUS_SUCCESS)))
      | _ \<Rightarrow> (s, STATUS_INVALID_PARAMETER))"

definition MmProtectVirtualMemory_k ::
    "u64 option \<Rightarrow> u64 option \<Rightarrow> u32 \<Rightarrow> u32 option \<Rightarrow> u64 option \<times> u32 option \<times> NTSTATUS" where
  "MmProtectVirtualMemory_k BaseAddress RegionSize NewProtect OldProtect =
     (case (BaseAddress, RegionSize) of
        (Some b, Some sz) \<Rightarrow>
          if b = 0 then (RegionSize, OldProtect, STATUS_INVALID_PARAMETER)
          else (Some (round_up_pages sz), map_option (\<lambda>_. PAGE_READWRITE) OldProtect, STATUS_SUCCESS)
      | _ \<Rightarrow> (RegionSize, OldProtect, STATUS_INVALID_PARAMETER))"

definition mm_vm_total_allocs :: "vm_state \<Rightarrow> u64" where "mm_vm_total_allocs s = s_vm_allocs s"
definition mm_vm_total_frees :: "vm_state \<Rightarrow> u64" where "mm_vm_total_frees s = s_vm_frees s"
definition mm_vm_bytes_outstanding :: "vm_state \<Rightarrow> u64" where "mm_vm_bytes_outstanding s = s_vm_bytes s"

section \<open>Rounding\<close>

lemma unat_and_page_mask: "unat (x AND PAGE_MASK) = unat x div 4096 * 4096"
proof -
  have "PAGE_MASK = NOT (mask 12)" by (simp add: PAGE_MASK_def PAGE_SIZE_def mask_eq_exp_minus_1)
  then show ?thesis using unat_and_not_mask [of x 12] by simp
qed

lemma round_up_pages_unat:
  assumes "unat n \<le> 2 ^ 64 - 4096"
  shows "unat (round_up_pages n) = (unat n + 4095) div 4096 * 4096"
proof -
  have "unat (n + PAGE_SIZE - 1) = unat n + 4095"
    using assms by (simp add: PAGE_SIZE_def unat_word_ariths)
  then show ?thesis by (simp add: round_up_pages_def unat_and_page_mask)
qed

lemma round_up_pages_pages:
  assumes "unat n \<le> 2 ^ 64 - 4096"
  shows "unat (round_up_pages n div PAGE_SIZE) = (unat n + 4095) div 4096"
  by (simp add: unat_div round_up_pages_unat [OF assms] PAGE_SIZE_def)

lemma vm_free_loop_spec:
  assumes "pmm_inv m" "{f..<f + n} \<subseteq> pmm_managed m"
  shows "pmm_inv (vm_free_loop (f * FRAME) ((f + n) * FRAME) m) \<and>
    pmm_clear (vm_free_loop (f * FRAME) ((f + n) * FRAME) m) = pmm_clear m \<union> {f..<f + n} \<and>
    s_top_frame (vm_free_loop (f * FRAME) ((f + n) * FRAME) m) = s_top_frame m"
  using assms
proof (induction n arbitrary: f m)
  case 0
  then show ?case by (simp add: vm_free_loop.simps)
next
  case (Suc n)
  let ?m = "pmm_free_frame (f * FRAME) m"
  have f: "f \<in> pmm_managed m" using Suc.prems(2) by auto
  note free = pmm_free_managed [OF Suc.prems(1) f]
  have step: "vm_free_loop (f * FRAME) ((f + Suc n) * FRAME) m =
      vm_free_loop (Suc f * FRAME) ((Suc f + n) * FRAME) ?m"
    by (subst vm_free_loop.simps) (simp add: FRAME_def algebra_simps)
  have "s_top_frame ?m = s_top_frame m" by (simp add: pmm_free_frame_def Let_def)
  moreover have "{Suc f..<Suc f + n} \<subseteq> pmm_managed ?m" using Suc.prems(2) by auto
  ultimately show ?case using Suc.IH [of ?m "Suc f"] free unfolding step by auto
qed

section \<open>Allocation and release\<close>

lemma pages_small: "(unat (n :: u64) + 4095) div 4096 < 2 ^ 62"
proof -
  have "unat n < 2 ^ 64" using unsigned_less [of n] by simp
  then show ?thesis by simp
qed

lemma vm_alloc_cases:
  assumes "pmm_inv (vm_pmm s)" "req \<noteq> 0" "unat req \<le> 2 ^ 64 - 4096" "n = (unat req + 4095) div 4096"
  shows "(MmAllocateVirtualMemory_k (Some b) (Some req) s =
            Some (s, Some b, Some req, STATUS_INSUFFICIENT_RESOURCES) \<and>
          (\<forall>g \<ge> PMM_BASE div FRAME. \<not> window_free (vm_pmm s) g n)) \<or>
    (\<exists>f s'. MmAllocateVirtualMemory_k (Some b) (Some req) s =
        Some (s', Some (of_nat (f * FRAME)), Some (of_nat (n * FRAME)), STATUS_SUCCESS) \<and>
      PMM_BASE \<le> f * FRAME \<and> window_free (vm_pmm s) f n \<and> pmm_inv (vm_pmm s') \<and>
      pmm_clear (vm_pmm s') = pmm_clear (vm_pmm s) - {f..<f + n} \<and>
      s_top_frame (vm_pmm s') = s_top_frame (vm_pmm s) \<and>
      vm_mem s' = (\<lambda>a. if f * FRAME \<le> a \<and> a < (f + n) * FRAME then 0 else vm_mem s a) \<and>
      s_vm_bytes s' = s_vm_bytes s + of_nat (n * FRAME) \<and> s_vm_allocs s' = s_vm_allocs s + 1)"
proof -
  have "unat req \<noteq> 0" using assms(2) by (simp add: unsigned_eq_0_iff)
  then have n: "0 < n" "n < 2 ^ 62" using assms(4) pages_small [of req] by linarith+
  have pages: "unat (round_up_pages req div PAGE_SIZE) = n"
    unfolding assms(4) by (rule round_up_pages_pages [OF assms(3)])
  have bytes: "unat (round_up_pages req) = n * FRAME"
    unfolding assms(4) FRAME_def by (rule round_up_pages_unat [OF assms(3)])
  then have size: "round_up_pages req = of_nat (n * FRAME)" by (metis of_nat_unat_id)
  from pmm_alloc_contiguous_spec [OF assms(1) n] show ?thesis
  proof
    assume "pmm_alloc_contiguous n (vm_pmm s) = Some (vm_pmm s, 0) \<and>
      (\<forall>g \<ge> PMM_BASE div FRAME. \<not> window_free (vm_pmm s) g n)"
    then show ?thesis
      by (intro disjI1) (simp add: MmAllocateVirtualMemory_k_def Let_def pages assms(2))
  next
    assume "\<exists>f m. pmm_alloc_contiguous n (vm_pmm s) = Some (m, f * FRAME) \<and> PMM_BASE \<le> f * FRAME \<and>
      window_free (vm_pmm s) f n \<and>
      (\<forall>g. PMM_BASE div FRAME \<le> g \<and> g < f \<longrightarrow> \<not> window_free (vm_pmm s) g n) \<and>
      pmm_clear m = pmm_clear (vm_pmm s) - {f..<f + n} \<and> pmm_inv m \<and> s_top_frame m = s_top_frame (vm_pmm s)"
    then obtain f m where f: "pmm_alloc_contiguous n (vm_pmm s) = Some (m, f * FRAME)"
        "PMM_BASE \<le> f * FRAME" "window_free (vm_pmm s) f n"
        "pmm_clear m = pmm_clear (vm_pmm s) - {f..<f + n}" "pmm_inv m"
        "s_top_frame m = s_top_frame (vm_pmm s)" by blast
    define s' where "s' = s\<lparr>vm_pmm := m,
      vm_mem := (\<lambda>a. if f * FRAME \<le> a \<and> a < f * FRAME + unat (round_up_pages req) then 0 else vm_mem s a),
      s_vm_allocs := s_vm_allocs s + 1, s_vm_bytes := s_vm_bytes s + round_up_pages req\<rparr>"
    have "f * FRAME \<noteq> 0" using f(2) unfolding PMM_BASE_def by linarith
    then have "MmAllocateVirtualMemory_k (Some b) (Some req) s =
        Some (s', Some (of_nat (f * FRAME)), Some (of_nat (n * FRAME)), STATUS_SUCCESS)"
      using f(1) unfolding size [symmetric]
      by (simp add: MmAllocateVirtualMemory_k_def Let_def pages assms(2) s'_def)
    moreover have "vm_mem s' = (\<lambda>a. if f * FRAME \<le> a \<and> a < (f + n) * FRAME then 0 else vm_mem s a)"
      unfolding s'_def bytes by (simp add: add_mult_distrib)
    moreover have "vm_pmm s' = m" "s_vm_bytes s' = s_vm_bytes s + of_nat (n * FRAME)"
        "s_vm_allocs s' = s_vm_allocs s + 1" by (simp_all add: s'_def size)
    ultimately show ?thesis using f(2-6) by (intro disjI2 exI [of _ f] exI [of _ s']) simp
  qed
qed

text \<open>C33: \<open>MmAllocateVirtualMemory\<close> of a non-empty size that does not overflow the rounding either
  reports \<open>STATUS_INSUFFICIENT_RESOURCES\<close> with nothing changed, exactly when no window of that many
  free frames exists, or returns a page-aligned region of the rounded size inside the managed range,
  made of frames that were free before, with its bytes zeroed and no other byte changed.\<close>
theorem MmAllocateVirtualMemory_correct:
  assumes "pmm_inv (vm_pmm s)" "req \<noteq> 0" "unat req \<le> 2 ^ 64 - 4096" "n = (unat req + 4095) div 4096"
  shows "(MmAllocateVirtualMemory_k (Some b) (Some req) s =
            Some (s, Some b, Some req, STATUS_INSUFFICIENT_RESOURCES) \<and>
          (\<forall>g \<ge> PMM_BASE div FRAME. \<not> window_free (vm_pmm s) g n)) \<or>
    (\<exists>f s'. MmAllocateVirtualMemory_k (Some b) (Some req) s =
        Some (s', Some (of_nat (f * FRAME)), Some (of_nat (n * FRAME)), STATUS_SUCCESS) \<and>
      PMM_BASE \<le> f * FRAME \<and> window_free (vm_pmm s) f n \<and> pmm_inv (vm_pmm s') \<and>
      pmm_clear (vm_pmm s') = pmm_clear (vm_pmm s) - {f..<f + n} \<and>
      s_top_frame (vm_pmm s') = s_top_frame (vm_pmm s) \<and>
      vm_mem s' = (\<lambda>a. if f * FRAME \<le> a \<and> a < (f + n) * FRAME then 0 else vm_mem s a) \<and>
      s_vm_bytes s' = s_vm_bytes s + of_nat (n * FRAME) \<and> s_vm_allocs s' = s_vm_allocs s + 1)"
  by (rule vm_alloc_cases [OF assms])

definition vm_init :: "nat \<Rightarrow> pmm_state \<Rightarrow> vm_state" where
  "vm_init mt m = \<lparr>vm_pmm = pmm_init mt m, vm_mem = (\<lambda>_. 1), s_vm_allocs = 0, s_vm_frees = 0, s_vm_bytes = 0\<rparr>"

theorem MmAllocateVirtualMemory_correct_witness:
  "\<exists>f s'. MmAllocateVirtualMemory_k (Some 0) (Some 5000) (vm_init MAX_PHYS pmm_zero) =
     Some (s', Some (of_nat (f * FRAME)), Some 0x2000, STATUS_SUCCESS) \<and>
     vm_mem s' = (\<lambda>a. if f * FRAME \<le> a \<and> a < (f + 2) * FRAME then 0 else 1)"
proof -
  let ?s = "vm_init MAX_PHYS pmm_zero"
  have inv: "pmm_inv (vm_pmm ?s)" by (simp add: vm_init_def pmm_init_inv)
  have two: "(2 :: nat) = (unat (5000 :: u64) + 4095) div 4096" by simp
  have "window_free (vm_pmm ?s) 16384 2" by (simp add: vm_init_def pmm_init_window)
  moreover have "PMM_BASE div FRAME \<le> 16384" by (simp add: PMM_BASE_dvd)
  ultimately have "\<not> (\<forall>g \<ge> PMM_BASE div FRAME. \<not> window_free (vm_pmm ?s) g 2)" by metis
  moreover have "(5000 :: u64) \<noteq> 0" "unat (5000 :: u64) \<le> 2 ^ 64 - 4096" by simp_all
  note cases = MmAllocateVirtualMemory_correct [OF inv this two, of 0]
  ultimately obtain f s' where "MmAllocateVirtualMemory_k (Some 0) (Some 5000) ?s =
      Some (s', Some (of_nat (f * FRAME)), Some (of_nat (2 * FRAME)), STATUS_SUCCESS)"
    and "vm_mem s' = (\<lambda>a. if f * FRAME \<le> a \<and> a < (f + 2) * FRAME then 0 else vm_mem ?s a)"
    by (elim disjE) blast+
  moreover have "vm_mem ?s a = 1" for a by (simp add: vm_init_def)
  moreover have "(of_nat (2 * FRAME) :: u64) = 0x2000" by (simp add: FRAME_def)
  ultimately show ?thesis by (simp only: if_cancel) blast
qed

lemma vm_free_eq:
  assumes "b AND PAGE_MASK = of_nat (f * FRAME)" "round_up_pages sz = of_nat (n * FRAME)"
    and "b \<noteq> 0" "sz \<noteq> 0" "(f + n) * FRAME < 2 ^ 64"
  shows "MmFreeVirtualMemory_k (Some b) (Some sz) MEM_RELEASE s =
    (s\<lparr>vm_pmm := vm_free_loop (f * FRAME) ((f + n) * FRAME) (vm_pmm s), s_vm_frees := s_vm_frees s + 1,
       s_vm_bytes := (if s_vm_bytes s \<ge> of_nat (n * FRAME) then s_vm_bytes s - of_nat (n * FRAME) else 0)\<rparr>,
     STATUS_SUCCESS)"
proof -
  have "unat (of_nat (f * FRAME) + of_nat (n * FRAME) :: u64) = (f + n) * FRAME"
    using assms(5) by (simp add: unat_of_nat add_mult_distrib flip: of_nat_add of_nat_mult)
  moreover have "unat (of_nat (f * FRAME) :: u64) = f * FRAME"
    using assms(5) by (simp add: unat_of_nat add_mult_distrib flip: of_nat_mult)
  moreover have "MEM_RELEASE AND MEM_DECOMMIT = 0" by (simp add: MEM_RELEASE_def MEM_DECOMMIT_def)
  ultimately show ?thesis
    using assms by (simp add: MmFreeVirtualMemory_k_def Let_def)
qed

lemma vm_page_addr:
  assumes "f + n \<le> MAX_FRAMES"
  shows "(of_nat (f * FRAME) :: u64) AND PAGE_MASK = of_nat (f * FRAME)"
    and "0 < f \<Longrightarrow> (of_nat (f * FRAME) :: u64) \<noteq> 0"
    and "round_up_pages (of_nat (n * FRAME)) = of_nat (n * FRAME)"
    and "0 < n \<Longrightarrow> (of_nat (n * FRAME) :: u64) \<noteq> 0"
    and "(f + n) * FRAME < 2 ^ 64"
proof -
  have uf: "unat (of_nat (f * FRAME) :: u64) = f * FRAME" and un: "unat (of_nat (n * FRAME) :: u64) = n * FRAME"
    using assms by (simp_all add: unat_of_nat_small pmm_consts del: of_nat_mult)
  show "(of_nat (f * FRAME) :: u64) AND PAGE_MASK = of_nat (f * FRAME)"
    by (rule iffD2 [OF word_unat_eq_iff]) (simp only: unat_and_page_mask uf, simp add: FRAME_def)
  show "0 < f \<Longrightarrow> (of_nat (f * FRAME) :: u64) \<noteq> 0" using uf by (auto simp: FRAME_def)
  show "0 < n \<Longrightarrow> (of_nat (n * FRAME) :: u64) \<noteq> 0" using un by (auto simp: FRAME_def)
  have "unat (of_nat (n * FRAME) :: u64) \<le> 2 ^ 64 - 4096" using assms un by (simp add: pmm_consts)
  then have "unat (round_up_pages (of_nat (n * FRAME))) = n * FRAME"
    using round_up_pages_unat [of "of_nat (n * FRAME)"] unfolding un by (simp add: FRAME_def)
  then show "round_up_pages (of_nat (n * FRAME)) = of_nat (n * FRAME)"
    by (intro iffD2 [OF word_unat_eq_iff]) (simp only: un)
  show "(f + n) * FRAME < 2 ^ 64" using assms by (simp add: pmm_consts)
qed

lemma vm_release_spec:
  assumes "pmm_inv (vm_pmm s)" "{f..<f + n} \<subseteq> pmm_managed (vm_pmm s)" "0 < n" "0 < f" "f + n \<le> MAX_FRAMES"
  shows "\<exists>s'. MmFreeVirtualMemory_k (Some (of_nat (f * FRAME))) (Some (of_nat (n * FRAME))) MEM_RELEASE s =
      (s', STATUS_SUCCESS) \<and> pmm_inv (vm_pmm s') \<and>
    pmm_clear (vm_pmm s') = pmm_clear (vm_pmm s) \<union> {f..<f + n} \<and> vm_mem s' = vm_mem s \<and>
    s_vm_bytes s' = (if s_vm_bytes s \<ge> of_nat (n * FRAME) then s_vm_bytes s - of_nat (n * FRAME) else 0)"
  using vm_free_eq [of "of_nat (f * FRAME)" f "of_nat (n * FRAME)" n s] vm_page_addr [OF assms(5)] assms(3,4)
    vm_free_loop_spec [OF assms(1,2)]
  by simp

text \<open>A successful \<open>MmAllocateVirtualMemory\<close> followed by \<open>MmFreeVirtualMemory\<close> with
  \<open>MEM_RELEASE\<close> on the returned base and size gives back exactly the frames taken: the set of free
  frames is the one before the allocation, the frame allocator is consistent and the byte counter
  is what it was.\<close>
theorem vm_alloc_release_roundtrip:
  assumes "pmm_inv (vm_pmm s)" "req \<noteq> 0" "unat req \<le> 2 ^ 64 - 4096"
    and "MmAllocateVirtualMemory_k (Some b) (Some req) s = Some (s1, Some base, Some sz, STATUS_SUCCESS)"
    and "unat (s_vm_bytes s) + unat sz < 2 ^ 64"
  shows "\<exists>s2. MmFreeVirtualMemory_k (Some base) (Some sz) MEM_RELEASE s1 = (s2, STATUS_SUCCESS) \<and>
    pmm_inv (vm_pmm s2) \<and> pmm_clear (vm_pmm s2) = pmm_clear (vm_pmm s) \<and> s_vm_bytes s2 = s_vm_bytes s"
proof -
  define n where "n = (unat req + 4095) div 4096"
  have "unat req \<noteq> 0" using assms(2) by (simp add: unsigned_eq_0_iff)
  then have npos: "0 < n" unfolding n_def by linarith
  from vm_alloc_cases [OF assms(1-3) n_def, of b] obtain f where f: "base = of_nat (f * FRAME)"
      "sz = of_nat (n * FRAME)" "PMM_BASE \<le> f * FRAME"
      "window_free (vm_pmm s) f n" "pmm_inv (vm_pmm s1)"
      "pmm_clear (vm_pmm s1) = pmm_clear (vm_pmm s) - {f..<f + n}"
      "s_top_frame (vm_pmm s1) = s_top_frame (vm_pmm s)" "s_vm_bytes s1 = s_vm_bytes s + of_nat (n * FRAME)"
  proof (elim disjE exE conjE)
    assume "MmAllocateVirtualMemory_k (Some b) (Some req) s =
      Some (s, Some b, Some req, STATUS_INSUFFICIENT_RESOURCES)"
    with assms(4) show thesis by (simp add: status_defs)
  next
    fix f s'
    assume run: "MmAllocateVirtualMemory_k (Some b) (Some req) s =
        Some (s', Some (of_nat (f * FRAME)), Some (of_nat (n * FRAME)), STATUS_SUCCESS)"
      and rest: "PMM_BASE \<le> f * FRAME" "window_free (vm_pmm s) f n" "pmm_inv (vm_pmm s')"
        "pmm_clear (vm_pmm s') = pmm_clear (vm_pmm s) - {f..<f + n}"
        "s_top_frame (vm_pmm s') = s_top_frame (vm_pmm s)" "s_vm_bytes s' = s_vm_bytes s + of_nat (n * FRAME)"
    have eqs: "s' = s1" "base = of_nat (f * FRAME)" "sz = of_nat (n * FRAME)"
      using run unfolding assms(4) by (simp_all del: of_nat_mult)
    show thesis by (rule that [of f]) (use rest eqs in \<open>simp_all del: of_nat_mult\<close>)
  qed
  have taken: "{f..<f + n} \<subseteq> pmm_clear (vm_pmm s)" by (rule window_free_clear [OF assms(1) f(4)])
  then have managed: "{f..<f + n} \<subseteq> pmm_managed (vm_pmm s1)"
    using assms(1) f(7) unfolding pmm_inv_def pmm_managed_def by (metis subset_trans)
  have le: "f + n \<le> MAX_FRAMES" using f(4) assms(1) by (simp add: window_free_def pmm_inv_def)
  have fpos: "0 < f" using f(3) by (auto simp: PMM_BASE_def intro: ccontr)
  from vm_release_spec [OF f(5) managed npos fpos le] obtain s2 where s2:
      "MmFreeVirtualMemory_k (Some base) (Some sz) MEM_RELEASE s1 = (s2, STATUS_SUCCESS)"
      "pmm_inv (vm_pmm s2)" "pmm_clear (vm_pmm s2) = pmm_clear (vm_pmm s1) \<union> {f..<f + n}"
      "s_vm_bytes s2 = (if s_vm_bytes s1 \<ge> sz then s_vm_bytes s1 - sz else 0)"
    unfolding f(1,2) by blast
  have "s_vm_bytes s1 \<ge> sz"
    using assms(5) f(2,8) by (simp add: word_le_nat_alt unat_word_ariths)
  then have "s_vm_bytes s2 = s_vm_bytes s" using s2(4) f(2,8) by simp
  moreover have "pmm_clear (vm_pmm s2) = pmm_clear (vm_pmm s)" using s2(3) f(6) taken by auto
  ultimately show ?thesis using s2(1,2) by blast
qed

lemma vm_init_alloc:
  "\<exists>f s1. MmAllocateVirtualMemory_k (Some 0) (Some 5000) (vm_init MAX_PHYS m) =
      Some (s1, Some (of_nat (f * FRAME)), Some 0x2000, STATUS_SUCCESS) \<and> PMM_BASE \<le> f * FRAME \<and>
    pmm_inv (vm_pmm s1) \<and> window_free (pmm_init MAX_PHYS m) f 2 \<and>
    pmm_clear (vm_pmm s1) = pmm_clear (pmm_init MAX_PHYS m) - {f..<f + 2} \<and>
    s_top_frame (vm_pmm s1) = s_top_frame (pmm_init MAX_PHYS m)"
proof -
  let ?s = "vm_init MAX_PHYS m"
  have pm: "vm_pmm ?s = pmm_init MAX_PHYS m" by (simp add: vm_init_def)
  have inv: "pmm_inv (vm_pmm ?s)" by (simp add: vm_init_def pmm_init_inv)
  have two: "(2 :: nat) = (unat (5000 :: u64) + 4095) div 4096" by simp
  have "window_free (vm_pmm ?s) 16384 2" by (simp add: vm_init_def pmm_init_window)
  moreover have "PMM_BASE div FRAME \<le> 16384" by (simp add: PMM_BASE_dvd)
  ultimately have win: "\<not> (\<forall>g \<ge> PMM_BASE div FRAME. \<not> window_free (vm_pmm ?s) g 2)" by metis
  have req: "(5000 :: u64) \<noteq> 0" "unat (5000 :: u64) \<le> 2 ^ 64 - 4096" by simp_all
  have sz: "(of_nat (2 * FRAME) :: u64) = 0x2000" by (simp add: FRAME_def)
  show ?thesis
    using vm_alloc_cases [OF inv req two, of 0] win unfolding sz pm by (elim disjE) blast+
qed

theorem vm_alloc_release_roundtrip_witness:
  "\<exists>s1 base s2. MmAllocateVirtualMemory_k (Some 0) (Some 5000) (vm_init MAX_PHYS pmm_zero) =
      Some (s1, Some base, Some 0x2000, STATUS_SUCCESS) \<and>
    MmFreeVirtualMemory_k (Some base) (Some 0x2000) MEM_RELEASE s1 = (s2, STATUS_SUCCESS) \<and>
    pmm_clear (vm_pmm s2) = pmm_clear (pmm_init MAX_PHYS pmm_zero)"
proof -
  let ?s = "vm_init MAX_PHYS pmm_zero"
  obtain f s1 where run: "MmAllocateVirtualMemory_k (Some 0) (Some 5000) ?s =
      Some (s1, Some (of_nat (f * FRAME)), Some 0x2000, STATUS_SUCCESS)"
    using vm_init_alloc [of pmm_zero] by blast
  have pm: "vm_pmm ?s = pmm_init MAX_PHYS pmm_zero" "s_vm_bytes ?s = 0" by (simp_all add: vm_init_def)
  have "pmm_inv (vm_pmm ?s)" by (simp add: pm pmm_init_inv)
  moreover have "(5000 :: u64) \<noteq> 0" "unat (5000 :: u64) \<le> 2 ^ 64 - 4096"
      "unat (s_vm_bytes ?s) + unat (0x2000 :: u64) < 2 ^ 64" by (simp_all add: pm)
  ultimately show ?thesis
    using vm_alloc_release_roundtrip [OF _ _ _ run] run
    unfolding pm by blast
qed

text \<open>\<open>MEM_RELEASE\<close> with a size of zero, the documented way to release a whole region, releases
  one page: after the allocation of a two-page region, one of its frames stays allocated.\<close>
theorem vm_release_size_zero_leaks:
  "\<exists>s1 base s2 f. MmAllocateVirtualMemory_k (Some 0) (Some 5000) (vm_init MAX_PHYS m) =
      Some (s1, Some base, Some 0x2000, STATUS_SUCCESS) \<and>
    MmFreeVirtualMemory_k (Some base) (Some 0) MEM_RELEASE s1 = (s2, STATUS_SUCCESS) \<and>
    f \<in> pmm_clear (pmm_init MAX_PHYS m) \<and> pmm_clear (vm_pmm s2) = pmm_clear (pmm_init MAX_PHYS m) - {f}"
proof -
  obtain f s1 where f: "MmAllocateVirtualMemory_k (Some 0) (Some 5000) (vm_init MAX_PHYS m) =
      Some (s1, Some (of_nat (f * FRAME)), Some 0x2000, STATUS_SUCCESS)" "PMM_BASE \<le> f * FRAME"
      "pmm_inv (vm_pmm s1)" "window_free (pmm_init MAX_PHYS m) f 2"
      "pmm_clear (vm_pmm s1) = pmm_clear (pmm_init MAX_PHYS m) - {f..<f + 2}"
      "s_top_frame (vm_pmm s1) = s_top_frame (pmm_init MAX_PHYS m)"
    using vm_init_alloc [of m] by blast
  note taken = window_free_clear [OF pmm_init_inv f(4)]
  have "pmm_inv (pmm_init MAX_PHYS m)" by (rule pmm_init_inv)
  then have "{f..<f + 2} \<subseteq> pmm_managed (vm_pmm s1)" "f + 2 \<le> MAX_FRAMES"
    using taken f(4,6) unfolding pmm_inv_def pmm_managed_def window_free_def by (metis subset_trans, linarith)
  then have m1: "{f..<f + 1} \<subseteq> pmm_managed (vm_pmm s1)" "f + 1 \<le> MAX_FRAMES" by auto
  have "0 < f" using f(2) by (auto simp: PMM_BASE_def intro: ccontr)
  from vm_release_spec [OF f(3) m1(1) _ this m1(2)] obtain s2 where
    s2: "MmFreeVirtualMemory_k (Some (of_nat (f * FRAME))) (Some (of_nat (1 * FRAME))) MEM_RELEASE s1 =
      (s2, STATUS_SUCCESS)" "pmm_clear (vm_pmm s2) = pmm_clear (vm_pmm s1) \<union> {f..<f + 1}" by auto
  have "(of_nat (1 * FRAME) :: u64) = PAGE_SIZE" by (simp add: FRAME_def PAGE_SIZE_def)
  then have "MmFreeVirtualMemory_k (Some (of_nat (f * FRAME))) (Some 0) MEM_RELEASE s1 = (s2, STATUS_SUCCESS)"
    using s2(1) by (simp add: MmFreeVirtualMemory_k_def Let_def PAGE_SIZE_def split: if_splits)
  moreover have "pmm_clear (vm_pmm s2) = pmm_clear (pmm_init MAX_PHYS m) - {f + 1}"
    using s2(2) f(5) taken by (auto simp: le_less_Suc_eq)
  moreover have "f + 1 \<in> pmm_clear (pmm_init MAX_PHYS m)" using taken by auto
  ultimately show ?thesis using f(1) by blast
qed

end
