(* ===== verification/Ob.thy ===== *)
theory Ob
  imports Heap
begin

text \<open>
  The object manager, \<open>src/ntos/ob/object.c\<close>: objects are heap blocks with an 80-byte header in
  front of the body, a name space of at most 64 bodies, a handle table of 256 slots (slot 0 is
  never used, a handle is the slot times 4) and a list of all objects for enumeration.  An object is
  known by the address of its body; \<open>HEADER s b\<close> is the header in front of body \<open>b\<close>.  The invariant
  \<open>ob_inv\<close> ties \<open>HandleCount\<close> to the slots that hold the body, and the interface \<open>handle_table\<close>
  is interpreted on the table.
\<close>

definition OB_TYPE_NONE :: u32 where "OB_TYPE_NONE = 0"
definition OB_TYPE_DRIVER :: u32 where "OB_TYPE_DRIVER = 3"
definition OB_TYPE_PROCESS :: u32 where "OB_TYPE_PROCESS = 5"
definition OB_TYPE_THREAD :: u32 where "OB_TYPE_THREAD = 6"
definition OB_TYPE_EVENT :: u32 where "OB_TYPE_EVENT = 7"
definition OB_TYPE_PIPE :: u32 where "OB_TYPE_PIPE = 8"

record OBJECT_HEADER =
  Type :: u32
  RefCount :: u32
  HandleCount :: u32
  Name :: string

definition sizeof_OBJECT_HEADER :: nat where "sizeof_OBJECT_HEADER = 80"
definition MAX_NAMED :: nat where "MAX_NAMED = 64"
definition MAX_HANDLES :: nat where "MAX_HANDLES = 256"
definition MAX_OBJECTS :: nat where "MAX_OBJECTS = 256"

lemmas ob_consts = sizeof_OBJECT_HEADER_def MAX_NAMED_def MAX_HANDLES_def MAX_OBJECTS_def

record ob_state =
  ob_heap :: heap
  HEADER :: "nat \<Rightarrow> OBJECT_HEADER"
  ob_mem :: "nat \<Rightarrow> u8"
  s_named :: "nat list"
  s_handles :: "nat list"
  s_all :: "nat list"

definition ob_init :: "ob_state \<Rightarrow> ob_state" where
  "ob_init s = s\<lparr>s_named := [], s_all := [], s_handles := replicate MAX_HANDLES 0\<rparr>"

definition ObCreateObject :: "u32 \<Rightarrow> u64 \<Rightarrow> string option \<Rightarrow> ob_state \<Rightarrow> ob_state \<times> nat" where
  "ObCreateObject ty body_size name s =
     (case kmalloc (80 + body_size) (ob_heap s) of (h, raw) \<Rightarrow>
        if raw = 0 then (s\<lparr>ob_heap := h\<rparr>, 0)
        else
          (let body = raw + sizeof_OBJECT_HEADER;
               nm = (case name of None \<Rightarrow> [] | Some n \<Rightarrow> copy_name 63 n);
               hd = \<lparr>Type = ty, RefCount = 1, HandleCount = 0, Name = nm\<rparr>;
               s1 = s\<lparr>ob_heap := h, HEADER := (HEADER s)(body := hd),
                      ob_mem := (\<lambda>a. if body \<le> a \<and> a < body + unat body_size then 0 else ob_mem s a)\<rparr>;
               s2 = (if name \<noteq> None \<and> name \<noteq> Some [] \<and> length (s_named s1) < MAX_NAMED
                     then s1\<lparr>s_named := s_named s1 @ [body]\<rparr> else s1);
               s3 = (if length (s_all s2) < MAX_OBJECTS then s2\<lparr>s_all := s_all s2 @ [body]\<rparr> else s2)
           in (s3, body)))"

definition ObReferenceObject :: "nat \<Rightarrow> ob_state \<Rightarrow> ob_state" where
  "ObReferenceObject body s =
     (if body \<noteq> 0 then s\<lparr>HEADER := (HEADER s)(body := (HEADER s body)\<lparr>RefCount := RefCount (HEADER s body) + 1\<rparr>)\<rparr>
      else s)"

definition ObDereferenceObject :: "nat \<Rightarrow> ob_state \<Rightarrow> ob_state" where
  "ObDereferenceObject body s =
     (if body \<noteq> 0 then s\<lparr>HEADER := (HEADER s)(body := (HEADER s body)\<lparr>RefCount := RefCount (HEADER s body) - 1\<rparr>)\<rparr>
      else s)"

definition ob_type_of :: "nat \<Rightarrow> ob_state \<Rightarrow> u32" where
  "ob_type_of body s = (if body \<noteq> 0 then Type (HEADER s body) else 0)"

fun ob_lookup_loop :: "ob_state \<Rightarrow> string \<Rightarrow> nat list \<Rightarrow> nat" where
  "ob_lookup_loop s name [] = 0"
| "ob_lookup_loop s name (b # bs) =
     (if ieq (Name (HEADER s b)) name then b else ob_lookup_loop s name bs)"

definition ObLookupObject :: "string \<Rightarrow> ob_state \<Rightarrow> nat" where
  "ObLookupObject name s = ob_lookup_loop s name (s_named s)"

text \<open>The first free slot from \<open>i\<close> on.\<close>

function ob_free_slot :: "nat list \<Rightarrow> nat \<Rightarrow> nat option" where
  "ob_free_slot hs i =
     (if i < MAX_HANDLES then (if hs ! i = 0 then Some i else ob_free_slot hs (Suc i)) else None)"
  by pat_completeness auto
termination
  by (relation "measure (\<lambda>(hs, i). MAX_HANDLES - i)") auto

declare ob_free_slot.simps [simp del]

text \<open>The body is dereferenced once a slot is found: \<open>None\<close> for the null body.\<close>

definition ob_create_handle :: "nat \<Rightarrow> ob_state \<Rightarrow> (ob_state \<times> u64) option" where
  "ob_create_handle body s =
     (case ob_free_slot (s_handles s) 1 of
        None \<Rightarrow> Some (s, 0)
      | Some i \<Rightarrow>
          if body = 0 then None
          else
            (let s1 = s\<lparr>s_handles := (s_handles s)[i := body]\<rparr>;
                 s2 = s1\<lparr>HEADER := (HEADER s1)(body := (HEADER s1 body)
                          \<lparr>HandleCount := HandleCount (HEADER s1 body) + 1\<rparr>)\<rparr>
             in Some (ObReferenceObject body s2, of_nat (i * 4))))"

text \<open>The slot of a handle: \<open>(int)(v / 4)\<close> and its range check.\<close>

definition handle_slot :: "u64 \<Rightarrow> nat option" where
  "handle_slot v =
     (let i = sint (ucast (v div 4) :: 32 word)
      in if v = 0 \<or> i \<le> 0 \<or> i \<ge> int MAX_HANDLES then None else Some (nat i))"

definition ob_handle_to_object :: "u64 \<Rightarrow> u32 \<Rightarrow> ob_state \<Rightarrow> nat" where
  "ob_handle_to_object h ty s =
     (case handle_slot h of
        None \<Rightarrow> 0
      | Some i \<Rightarrow>
          (let body = s_handles s ! i in
           if body = 0 then 0
           else if ty \<noteq> OB_TYPE_NONE \<and> Type (HEADER s body) \<noteq> ty then 0
           else body))"

definition ob_close_handle :: "u64 \<Rightarrow> ob_state \<Rightarrow> ob_state" where
  "ob_close_handle h s =
     (case handle_slot h of
        None \<Rightarrow> s
      | Some i \<Rightarrow>
          (let body = s_handles s ! i in
           if body = 0 then s
           else
             (let s1 = s\<lparr>s_handles := (s_handles s)[i := 0]\<rparr>;
                  s2 = s1\<lparr>HEADER := (HEADER s1)(body := (HEADER s1 body)
                           \<lparr>HandleCount := HandleCount (HEADER s1 body) - 1\<rparr>)\<rparr>
              in ObDereferenceObject body s2)))"

fun ob_enum_loop :: "ob_state \<Rightarrow> u32 \<Rightarrow> int \<Rightarrow> int \<Rightarrow> nat list \<Rightarrow> nat" where
  "ob_enum_loop s ty index seen [] = 0"
| "ob_enum_loop s ty index seen (b # bs) =
     (if b = 0 then ob_enum_loop s ty index seen bs
      else if Type (HEADER s b) \<noteq> ty then ob_enum_loop s ty index seen bs
      else if seen = index then b
      else ob_enum_loop s ty index (seen + 1) bs)"

definition ob_enum_by_type :: "u32 \<Rightarrow> int \<Rightarrow> ob_state \<Rightarrow> nat" where
  "ob_enum_by_type ty index s = (if index < 0 then 0 else ob_enum_loop s ty index 0 (s_all s))"

fun ob_count_loop :: "ob_state \<Rightarrow> u32 \<Rightarrow> int \<Rightarrow> nat list \<Rightarrow> int" where
  "ob_count_loop s ty n [] = n"
| "ob_count_loop s ty n (b # bs) =
     ob_count_loop s ty (if b \<noteq> 0 \<and> Type (HEADER s b) = ty then n + 1 else n) bs"

definition ob_count_by_type :: "u32 \<Rightarrow> ob_state \<Rightarrow> int" where
  "ob_count_by_type ty s = ob_count_loop s ty 0 (s_all s)"

section \<open>The handle table\<close>

definition htab_inv :: "ob_state \<Rightarrow> bool" where
  "htab_inv s \<longleftrightarrow> length (s_handles s) = MAX_HANDLES \<and> s_handles s ! 0 = 0"

definition ob_slots :: "ob_state \<Rightarrow> nat \<rightharpoonup> nat" where
  "ob_slots s i = (if 0 < i \<and> i < MAX_HANDLES \<and> s_handles s ! i \<noteq> 0 then Some (s_handles s ! i) else None)"

definition ob_hnd :: "nat \<Rightarrow> u64" where "ob_hnd i = of_nat (i * 4)"

lemma ob_slots_SomeD: "ob_slots s i = Some b \<Longrightarrow> 0 < i \<and> i < MAX_HANDLES \<and> s_handles s ! i = b \<and> b \<noteq> 0"
  by (simp add: ob_slots_def split: if_splits)

lemma ob_slots_range: "ob_slots s i \<noteq> None \<Longrightarrow> 0 < i \<and> i < MAX_HANDLES"
  by (simp add: ob_slots_def split: if_splits)

lemma handle_slot_hnd: "0 < i \<Longrightarrow> i < MAX_HANDLES \<Longrightarrow> handle_slot (ob_hnd i) = Some i"
proof -
  assume i: "0 < i" "i < MAX_HANDLES"
  have u: "unat (ob_hnd i) = i * 4" unfolding ob_hnd_def using i by (intro unat_of_nat_small) (simp add: MAX_HANDLES_def)
  then have d: "unat (ob_hnd i div 4) = i" by (simp add: unat_div)
  then have "ob_hnd i div 4 = of_nat i" by (metis of_nat_unat_id)
  moreover have "sint (ucast (of_nat i :: u64) :: 32 word) = int i"
    using i by (simp add: MAX_HANDLES_def signed_take_bit_int_eq_self_iff unsigned_of_nat take_bit_nat_eq_self
        sint_uint signed_take_bit_int_eq_self flip: of_nat_unat_id)
  moreover have "ob_hnd i \<noteq> 0" using u i by auto
  ultimately show ?thesis using i by (simp add: handle_slot_def)
qed

lemma handle_slot_range: "handle_slot h = Some i \<Longrightarrow> 0 < i \<and> i < MAX_HANDLES"
  by (auto simp: handle_slot_def Let_def split: if_splits)

lemma ob_free_slot_Some:
  "ob_free_slot hs i = Some j \<Longrightarrow> i \<le> j \<and> j < MAX_HANDLES \<and> hs ! j = 0 \<and> (\<forall>k. i \<le> k \<and> k < j \<longrightarrow> hs ! k \<noteq> 0)"
proof (induction hs i rule: ob_free_slot.induct)
  case (1 hs i)
  show ?case
  proof (cases "i < MAX_HANDLES \<and> hs ! i \<noteq> 0")
    case True
    with 1 have "Suc i \<le> j \<and> j < MAX_HANDLES \<and> hs ! j = 0 \<and> (\<forall>k. Suc i \<le> k \<and> k < j \<longrightarrow> hs ! k \<noteq> 0)"
      by (simp add: ob_free_slot.simps [of hs i])
    with True show ?thesis by (metis Suc_leD le_antisym not_less_eq_eq)
  next
    case False
    with 1 show ?thesis by (auto simp: ob_free_slot.simps [of hs i] split: if_splits)
  qed
qed

lemma ob_free_slot_None: "ob_free_slot hs i = None \<longleftrightarrow> (\<forall>k. i \<le> k \<and> k < MAX_HANDLES \<longrightarrow> hs ! k \<noteq> 0)"
proof (induction hs i rule: ob_free_slot.induct)
  case (1 hs i)
  show ?case
  proof (cases "i < MAX_HANDLES \<and> hs ! i \<noteq> 0")
    case True
    with 1 have "ob_free_slot hs i = None \<longleftrightarrow> (\<forall>k. Suc i \<le> k \<and> k < MAX_HANDLES \<longrightarrow> hs ! k \<noteq> 0)"
      by (simp add: ob_free_slot.simps [of hs i])
    with True show ?thesis by (metis Suc_leD le_antisym not_less_eq_eq)
  next
    case False
    then show ?thesis by (auto simp: ob_free_slot.simps [of hs i])
  qed
qed

definition bump :: "nat \<Rightarrow> u32 \<Rightarrow> u32 \<Rightarrow> ob_state \<Rightarrow> ob_state" where
  "bump body dh dr s = s\<lparr>HEADER := (HEADER s)(body := (HEADER s body)
     \<lparr>HandleCount := HandleCount (HEADER s body) + dh, RefCount := RefCount (HEADER s body) + dr\<rparr>)\<rparr>"

lemma ob_create_handle_eq:
  "body \<noteq> 0 \<Longrightarrow> ob_create_handle body s =
     (case ob_free_slot (s_handles s) 1 of None \<Rightarrow> Some (s, 0)
      | Some i \<Rightarrow> Some (bump body 1 1 (s\<lparr>s_handles := (s_handles s)[i := body]\<rparr>), ob_hnd i))"
  by (simp add: ob_create_handle_def ObReferenceObject_def Let_def bump_def ob_hnd_def split: option.splits)

lemma ob_close_handle_eq:
  "handle_slot h = Some i \<Longrightarrow> s_handles s ! i = b \<Longrightarrow> ob_close_handle h s =
     (if b = 0 then s else bump b (- 1) (- 1) (s\<lparr>s_handles := (s_handles s)[i := 0]\<rparr>))"
  by (simp add: ob_close_handle_def ObDereferenceObject_def Let_def bump_def)

lemma bump_fields [simp, frame_simps]:
  "s_handles (bump b x y s) = s_handles s" "s_named (bump b x y s) = s_named s"
  "s_all (bump b x y s) = s_all s" "ob_heap (bump b x y s) = ob_heap s"
  "ob_mem (bump b x y s) = ob_mem s"
  by (simp_all add: bump_def)

lemma ob_slots_update:
  "htab_inv s \<Longrightarrow> 0 < i \<Longrightarrow> i < MAX_HANDLES \<Longrightarrow>
     ob_slots (bump b x y (s\<lparr>s_handles := (s_handles s)[i := v]\<rparr>)) =
     (ob_slots s)(i := (if v = 0 then None else Some v))"
  by (rule ext) (simp add: ob_slots_def htab_inv_def)

interpretation ob_handles: handle_table htab_inv "\<lambda>b. b \<noteq> 0" ob_slots ob_hnd 0 ob_create_handle ob_close_handle
proof (unfold_locales, goal_cases)
  case (1 s i s' j)
  have "handle_slot (ob_hnd i) = Some i" "handle_slot (ob_hnd j) = Some j"
    using ob_slots_range [OF 1(1)] ob_slots_range [OF 1(2)] by (simp_all add: handle_slot_hnd)
  then show ?case unfolding 1(3) by (metis option.inject)
next
  case (2 s i)
  have "handle_slot (ob_hnd i) = Some i" using ob_slots_range [OF 2] by (simp add: handle_slot_hnd)
  then show ?case by (auto simp: handle_slot_def)
next
  case (3 s b)
  then show ?case by (auto simp: ob_create_handle_eq split: option.splits)
next
  case (4 s b s')
  show ?case
  proof (cases "ob_free_slot (s_handles s) 1")
    case None
    with 4 show ?thesis by (simp add: ob_create_handle_eq)
  next
    case (Some i)
    with 4 have "ob_hnd i = 0" by (simp add: ob_create_handle_eq)
    moreover have "0 < i" "i < MAX_HANDLES" using ob_free_slot_Some [OF Some] by auto
    from handle_slot_hnd [OF this] have "ob_hnd i \<noteq> 0" by (auto simp: handle_slot_def)
    ultimately show ?thesis by simp
  qed
next
  case (5 s b s' h)
  then obtain i where i: "ob_free_slot (s_handles s) 1 = Some i"
      "s' = bump b 1 1 (s\<lparr>s_handles := (s_handles s)[i := b]\<rparr>)" "h = ob_hnd i"
    by (auto simp: ob_create_handle_eq split: option.splits)
  have "0 < i" "i < MAX_HANDLES" "s_handles s ! i = 0" using ob_free_slot_Some [OF i(1)] by auto
  with 5 i show ?case by (intro exI [of _ i]) (simp add: ob_slots_update, simp add: ob_slots_def)
next
  case (6 s b s' h)
  then show ?case
    by (auto simp: ob_create_handle_eq htab_inv_def dest!: ob_free_slot_Some split: option.splits)
next
  case (7 s i b)
  note slot = ob_slots_SomeD [OF 7(2)]
  then show ?case using 7 by (simp add: ob_close_handle_eq [OF handle_slot_hnd refl] ob_slots_update)
next
  case (8 s h)
  show ?case
  proof (cases "handle_slot h")
    case None
    with 8 show ?thesis by (simp add: ob_close_handle_def)
  next
    case (Some i)
    with 8 handle_slot_range [OF Some] show ?thesis
      by (simp add: ob_close_handle_eq [OF Some refl] htab_inv_def)
  qed
qed

text \<open>C30: \<open>ob_create_handle\<close> fails with 0, changing nothing, exactly when the slots 1 to 255 are all in
  use; otherwise it takes the lowest free slot, the handle resolves to the body (of any type, and of
  its own type), the body's handle count and reference count go up by one, and every other slot
  keeps its object.\<close>
theorem ob_create_handle_correct:
  assumes "htab_inv s" "body \<noteq> 0"
  shows "(ob_create_handle body s = Some (s, 0) \<and> (\<forall>i. 0 < i \<and> i < MAX_HANDLES \<longrightarrow> s_handles s ! i \<noteq> 0)) \<or>
    (\<exists>i s'. ob_create_handle body s = Some (s', of_nat (i * 4)) \<and> 0 < i \<and> i < MAX_HANDLES \<and>
       s_handles s ! i = 0 \<and> (\<forall>j. 0 < j \<and> j < i \<longrightarrow> s_handles s ! j \<noteq> 0) \<and>
       ob_handle_to_object (of_nat (i * 4)) OB_TYPE_NONE s' = body \<and>
       ob_handle_to_object (of_nat (i * 4)) (ob_type_of body s) s' = body \<and>
       HandleCount (HEADER s' body) = HandleCount (HEADER s body) + 1 \<and>
       RefCount (HEADER s' body) = RefCount (HEADER s body) + 1 \<and>
       (\<forall>j. j \<noteq> i \<longrightarrow> s_handles s' ! j = s_handles s ! j))"
proof (cases "ob_free_slot (s_handles s) 1")
  case None
  then have "\<forall>i. 0 < i \<and> i < MAX_HANDLES \<longrightarrow> s_handles s ! i \<noteq> 0"
    unfolding ob_free_slot_None by (metis One_nat_def Suc_leI)
  moreover have "ob_create_handle body s = Some (s, 0)" using None assms(2) by (simp add: ob_create_handle_eq)
  ultimately show ?thesis by blast
next
  case (Some i)
  let ?s = "bump body 1 1 (s\<lparr>s_handles := (s_handles s)[i := body]\<rparr>)"
  have i: "0 < i" "i < MAX_HANDLES" "s_handles s ! i = 0" "\<forall>j. 0 < j \<and> j < i \<longrightarrow> s_handles s ! j \<noteq> 0"
    using ob_free_slot_Some [OF Some] by (auto simp: Suc_le_eq)
  have run: "ob_create_handle body s = Some (?s, of_nat (i * 4))"
    using Some assms(2) by (simp add: ob_create_handle_eq ob_hnd_def)
  have at: "s_handles ?s ! i = body" "\<forall>j. j \<noteq> i \<longrightarrow> s_handles ?s ! j = s_handles s ! j"
    using assms(1) i(2) by (simp_all add: htab_inv_def)
  have slot: "handle_slot (of_nat (i * 4)) = Some i"
    using handle_slot_hnd [OF i(1,2)] by (simp add: ob_hnd_def)
  have hd: "HandleCount (HEADER ?s body) = HandleCount (HEADER s body) + 1"
    "RefCount (HEADER ?s body) = RefCount (HEADER s body) + 1" "Type (HEADER ?s body) = ob_type_of body s"
    using assms(2) by (simp_all add: bump_def ob_type_of_def)
  have "ob_handle_to_object (of_nat (i * 4)) ty ?s = body" if "ty = OB_TYPE_NONE \<or> ty = ob_type_of body s" for ty
    using that at(1) hd(3) by (auto simp: ob_handle_to_object_def slot Let_def simp del: of_nat_mult)
  then show ?thesis using run i at(2) hd(1,2) by blast
qed

definition ob_start :: ob_state where
  "ob_start = ob_init \<lparr>ob_heap = heap_init, HEADER = (\<lambda>_. \<lparr>Type = 0, RefCount = 0, HandleCount = 0, Name = []\<rparr>),
     ob_mem = (\<lambda>_. 0), s_named = [], s_handles = [], s_all = []\<rparr>"

lemma ob_start_htab: "htab_inv ob_start"
  by (simp add: htab_inv_def ob_start_def ob_init_def MAX_HANDLES_def)

theorem ob_create_handle_correct_witness:
  "\<exists>i s'. ob_create_handle 4096 ob_start = Some (s', of_nat (i * 4)) \<and>
     ob_handle_to_object (of_nat (i * 4)) OB_TYPE_NONE s' = 4096"
proof -
  have "s_handles ob_start ! 1 = 0" by (simp add: ob_start_def ob_init_def MAX_HANDLES_def)
  moreover have "(0 :: nat) < 1" "1 < MAX_HANDLES" by (simp_all add: MAX_HANDLES_def)
  ultimately have "\<not> (\<forall>i. 0 < i \<and> i < MAX_HANDLES \<longrightarrow> s_handles ob_start ! i \<noteq> 0)" by metis
  moreover have "(4096 :: nat) \<noteq> 0" by simp
  note ob_create_handle_correct [OF ob_start_htab this]
  ultimately show ?thesis by (elim disjE) blast+
qed

section \<open>Objects, counts and names\<close>

definition ob_known :: "ob_state \<Rightarrow> nat set" where
  "ob_known s = set (s_named s) \<union> set (s_all s) \<union> (set (s_handles s) - {0})"

definition ob_inv :: "ob_state \<Rightarrow> bool" where
  "ob_inv s \<longleftrightarrow> heap_inv (ob_heap s) \<and> htab_inv s \<and>
     length (s_named s) \<le> MAX_NAMED \<and> length (s_all s) \<le> MAX_OBJECTS \<and> distinct (s_all s) \<and>
     (\<forall>b \<in> ob_known s. sizeof_OBJECT_HEADER < b \<and> heap_live (ob_heap s) (b - sizeof_OBJECT_HEADER) \<noteq> None \<and>
        HandleCount (HEADER s b) = of_nat (count_list (s_handles s) b))"

inductive ob_step :: "ob_state \<Rightarrow> ob_state \<Rightarrow> bool" where
  create: "unat sz \<le> 2 ^ 64 - 256 \<Longrightarrow> ObCreateObject ty sz name s = (s', b) \<Longrightarrow> ob_step s s'"
| opened: "body \<in> ob_known s \<Longrightarrow> ob_create_handle body s = Some (s', h) \<Longrightarrow> ob_step s s'"
| closed: "ob_step s (ob_close_handle h s)"
| refd: "ob_step s (ObReferenceObject body s)"
| derefd: "ob_step s (ObDereferenceObject body s)"

inductive_cases ob_stepE: "ob_step s s'"

inductive ob_reach :: "ob_state \<Rightarrow> ob_state \<Rightarrow> bool" for s0 where
  start: "ob_reach s0 s0"
| step: "ob_reach s0 s \<Longrightarrow> ob_step s s' \<Longrightarrow> ob_reach s0 s'"

lemma count_list_update:
  "i < length xs \<Longrightarrow> count_list (xs[i := b]) c + (if xs ! i = c then 1 else 0) =
     count_list xs c + (if b = c then 1 else 0)"
proof (induction xs arbitrary: i)
  case (Cons x xs)
  show ?case
  proof (cases i)
    case (Suc j)
    then show ?thesis using Cons.IH [of j] Cons.prems by (auto split: if_splits)
  qed simp
qed simp

lemma set_update_zero: "set (xs[i := b]) - {0} \<subseteq> (set xs - {0}) \<union> ({b} - {0 :: nat})"
  using set_update_subset_insert [of xs i b] by auto

lemma of_nat_count_update:
  assumes "i < length xs" "xs ! i \<noteq> b"
  shows "(of_nat (count_list (xs[i := b]) c) :: u32) =
    of_nat (count_list xs c) + (if b = c then 1 else 0) - (if xs ! i = c then 1 else 0)"
proof -
  have "(of_nat (count_list (xs[i := b]) c + (if xs ! i = c then 1 else 0)) :: u32) =
      of_nat (count_list xs c + (if b = c then 1 else 0))"
    by (simp only: count_list_update [OF assms(1)])
  then show ?thesis by (auto simp: algebra_simps split: if_splits)
qed

lemma HandleCount_bump [simp]:
  "HandleCount (HEADER (bump b x y s) c) = HandleCount (HEADER s c) + (if c = b then x else 0)"
  by (simp add: bump_def)

lemma ob_inv_open:
  assumes "ob_inv s" "body \<in> ob_known s" "ob_create_handle body s = Some (s', h)"
  shows "ob_inv s'"
proof (cases "ob_free_slot (s_handles s) 1")
  case None
  moreover have "body \<noteq> 0" using assms(1,2) by (auto simp: ob_inv_def)
  ultimately show ?thesis using assms by (simp add: ob_create_handle_eq)
next
  case (Some i)
  have nz: "body \<noteq> 0" using assms(1,2) by (auto simp: ob_inv_def)
  let ?hs = "(s_handles s)[i := body]"
  have s': "s' = bump body 1 1 (s\<lparr>s_handles := ?hs\<rparr>)" using assms(3) nz Some by (simp add: ob_create_handle_eq)
  have i: "0 < i" "i < length (s_handles s)" "s_handles s ! i = 0"
    using ob_free_slot_Some [OF Some] assms(1) by (auto simp: ob_inv_def htab_inv_def)
  have known: "ob_known s' \<subseteq> ob_known s"
    using set_update_zero [of "s_handles s" i body] assms(2) by (auto simp: ob_known_def s')
  have count: "of_nat (count_list ?hs c) = (of_nat (count_list (s_handles s) c) + (if body = c then 1 else 0) :: u32)"
    if "c \<noteq> 0" for c using of_nat_count_update [OF i(2), of body c] i(3) nz that by auto
  have "htab_inv s'" using assms(1) i by (simp add: ob_inv_def htab_inv_def s')
  moreover have "\<forall>b \<in> ob_known s'. sizeof_OBJECT_HEADER < b \<and> heap_live (ob_heap s') (b - sizeof_OBJECT_HEADER) \<noteq> None \<and>
      HandleCount (HEADER s' b) = of_nat (count_list (s_handles s') b)"
  proof
    fix b assume "b \<in> ob_known s'"
    then have "b \<in> ob_known s" using known by (rule rev_subsetD)
    with assms(1) have b: "sizeof_OBJECT_HEADER < b" "heap_live (ob_heap s) (b - sizeof_OBJECT_HEADER) \<noteq> None"
      "HandleCount (HEADER s b) = of_nat (count_list (s_handles s) b)" by (simp_all add: ob_inv_def)
    then show "sizeof_OBJECT_HEADER < b \<and> heap_live (ob_heap s') (b - sizeof_OBJECT_HEADER) \<noteq> None \<and>
      HandleCount (HEADER s' b) = of_nat (count_list (s_handles s') b)"
      using count [of b] by (simp add: s')
  qed
  ultimately show ?thesis using assms(1) by (simp add: ob_inv_def s')
qed

lemma ob_inv_close:
  assumes "ob_inv s"
  shows "ob_inv (ob_close_handle h s)"
proof (cases "handle_slot h")
  case None
  then show ?thesis using assms by (simp add: ob_close_handle_def)
next
  case (Some i)
  let ?b = "s_handles s ! i"
  let ?hs = "(s_handles s)[i := 0]"
  show ?thesis
  proof (cases "?b = 0")
    case True
    then show ?thesis using assms by (simp add: ob_close_handle_eq [OF Some refl])
  next
    case False
    have s': "ob_close_handle h s = bump ?b (- 1) (- 1) (s\<lparr>s_handles := ?hs\<rparr>)"
      using False by (simp add: ob_close_handle_eq [OF Some refl])
    have i: "0 < i" "i < length (s_handles s)"
      using handle_slot_range [OF Some] assms by (auto simp: ob_inv_def htab_inv_def)
    have known: "ob_known (ob_close_handle h s) \<subseteq> ob_known s"
      using set_update_zero [of "s_handles s" i 0] by (auto simp: ob_known_def s')
    have count: "of_nat (count_list ?hs c) = (of_nat (count_list (s_handles s) c) - (if ?b = c then 1 else 0) :: u32)"
      if "c \<noteq> 0" for c using of_nat_count_update [OF i(2) False, of c] that by simp
    have "htab_inv (ob_close_handle h s)" using assms i by (simp add: ob_inv_def htab_inv_def s')
    moreover have "\<forall>b \<in> ob_known (ob_close_handle h s). sizeof_OBJECT_HEADER < b \<and>
        heap_live (ob_heap (ob_close_handle h s)) (b - sizeof_OBJECT_HEADER) \<noteq> None \<and>
        HandleCount (HEADER (ob_close_handle h s) b) = of_nat (count_list (s_handles (ob_close_handle h s)) b)"
    proof
      fix b assume "b \<in> ob_known (ob_close_handle h s)"
      then have "b \<in> ob_known s" using known by (rule rev_subsetD)
      with assms have b: "sizeof_OBJECT_HEADER < b" "heap_live (ob_heap s) (b - sizeof_OBJECT_HEADER) \<noteq> None"
        "HandleCount (HEADER s b) = of_nat (count_list (s_handles s) b)" by (simp_all add: ob_inv_def)
      then show "sizeof_OBJECT_HEADER < b \<and>
        heap_live (ob_heap (ob_close_handle h s)) (b - sizeof_OBJECT_HEADER) \<noteq> None \<and>
        HandleCount (HEADER (ob_close_handle h s) b) = of_nat (count_list (s_handles (ob_close_handle h s)) b)"
        using count [of b] by (simp add: s')
    qed
    ultimately show ?thesis using assms by (simp add: ob_inv_def s')
  qed
qed

lemma ObCreateObject_cases:
  assumes "heap_inv (ob_heap s)" "unat sz \<le> 2 ^ 64 - 256" "ObCreateObject ty sz name s = (s', b)"
  shows "(b = 0 \<and> s' = s) \<or>
    (\<exists>h raw n. b = raw + 80 \<and> raw \<noteq> 0 \<and> heap_inv h \<and> heap_live (ob_heap s) raw = None \<and>
      unat sz + 80 \<le> n \<and> heap_live h = (heap_live (ob_heap s))(raw \<mapsto> n) \<and>
      s' = s\<lparr>ob_heap := h,
        HEADER := (HEADER s)(b := \<lparr>Type = ty, RefCount = 1, HandleCount = 0,
          Name = (case name of None \<Rightarrow> [] | Some m \<Rightarrow> copy_name 63 m)\<rparr>),
        ob_mem := (\<lambda>a. if b \<le> a \<and> a < b + unat sz then 0 else ob_mem s a),
        s_named := (if name \<noteq> None \<and> name \<noteq> Some [] \<and> length (s_named s) < MAX_NAMED
          then s_named s @ [b] else s_named s),
        s_all := (if length (s_all s) < MAX_OBJECTS then s_all s @ [b] else s_all s)\<rparr>)"
proof -
  obtain h raw where km: "kmalloc (80 + sz) (ob_heap s) = (h, raw)" by fastforce
  have u: "unat (80 + sz) = 80 + unat sz" using assms(2) by (simp add: unat_word_ariths)
  then have small: "unat (80 + sz) \<le> 2 ^ 64 - 16" using assms(2) by simp
  show ?thesis
  proof (cases "raw = 0")
    case True
    with kheap.alloc_fail [OF assms(1)] km have "h = ob_heap s" by simp
    with True km assms(3) show ?thesis by (simp add: ObCreateObject_def)
  next
    case False
    from kheap.alloc_ok [OF assms(1) small km False] obtain n where n: "heap_live (ob_heap s) raw = None"
      "unat (80 + sz) \<le> n" "heap_live h = (heap_live (ob_heap s))(raw \<mapsto> n)" by blast
    have "heap_inv h" by (rule kheap.alloc_inv [OF assms(1) km])
    moreover have "b = raw + 80" using assms(3) km False
      by (simp add: ObCreateObject_def Let_def sizeof_OBJECT_HEADER_def)
    ultimately show ?thesis
      using assms(3) km False n u
      by (intro disjI2 exI [of _ h] exI [of _ raw] exI [of _ n])
        (auto simp: ObCreateObject_def Let_def sizeof_OBJECT_HEADER_def)
  qed
qed

lemma ob_inv_create:
  assumes "ob_inv s" "unat sz \<le> 2 ^ 64 - 256" "ObCreateObject ty sz name s = (s', b)"
  shows "ob_inv s'"
proof (cases "s' = s")
  case True
  then show ?thesis using assms(1) by simp
next
  case False
  have "heap_inv (ob_heap s)" using assms(1) by (simp add: ob_inv_def)
  from ObCreateObject_cases [OF this assms(2,3)] False obtain h raw n where
    b: "b = raw + 80" "raw \<noteq> 0" "heap_inv h" "heap_live (ob_heap s) raw = None"
      "heap_live h = (heap_live (ob_heap s))(raw \<mapsto> n)" and
    eq: "s' = s\<lparr>ob_heap := h,
        HEADER := (HEADER s)(b := \<lparr>Type = ty, RefCount = 1, HandleCount = 0,
          Name = (case name of None \<Rightarrow> [] | Some m \<Rightarrow> copy_name 63 m)\<rparr>),
        ob_mem := (\<lambda>a. if b \<le> a \<and> a < b + unat sz then 0 else ob_mem s a),
        s_named := (if name \<noteq> None \<and> name \<noteq> Some [] \<and> length (s_named s) < MAX_NAMED
          then s_named s @ [b] else s_named s),
        s_all := (if length (s_all s) < MAX_OBJECTS then s_all s @ [b] else s_all s)\<rparr>"
    by blast
  define hd mem nm al where "hd = HEADER s' b" and "mem = ob_mem s'" and "nm = s_named s'" and "al = s_all s'"
  have s': "s' = s\<lparr>ob_heap := h, HEADER := (HEADER s)(b := hd), ob_mem := mem, s_named := nm, s_all := al\<rparr>"
      "HandleCount hd = 0"
    unfolding hd_def mem_def nm_def al_def eq by simp_all
  have nm: "nm = s_named s @ [b] \<and> length (s_named s) < MAX_NAMED \<or> nm = s_named s"
    and al: "al = s_all s @ [b] \<and> length (s_all s) < MAX_OBJECTS \<or> al = s_all s"
    unfolding nm_def al_def eq by simp_all
  have new: "b \<notin> ob_known s" using assms(1) b(1,4) by (auto simp: ob_inv_def sizeof_OBJECT_HEADER_def)
  then have "count_list (s_handles s) b = 0" using b(2) b(1) by (auto simp: ob_known_def count_list_0_iff)
  have known: "ob_known s' \<subseteq> insert b (ob_known s)"
    using nm al by (auto simp: ob_known_def s')
  have "\<forall>c \<in> ob_known s'. sizeof_OBJECT_HEADER < c \<and> heap_live (ob_heap s') (c - sizeof_OBJECT_HEADER) \<noteq> None \<and>
      HandleCount (HEADER s' c) = of_nat (count_list (s_handles s') c)"
  proof
    fix c assume "c \<in> ob_known s'"
    then have "c = b \<or> c \<noteq> b \<and> c \<in> ob_known s" using known by auto
    then show "sizeof_OBJECT_HEADER < c \<and> heap_live (ob_heap s') (c - sizeof_OBJECT_HEADER) \<noteq> None \<and>
      HandleCount (HEADER s' c) = of_nat (count_list (s_handles s') c)"
      using assms(1) b s' \<open>count_list (s_handles s) b = 0\<close>
      by (elim disjE) (auto simp: ob_inv_def sizeof_OBJECT_HEADER_def)
  qed
  moreover have "distinct al" using assms(1) new al by (auto simp: ob_inv_def ob_known_def)
  moreover have "length nm \<le> MAX_NAMED" "length al \<le> MAX_OBJECTS"
    using nm al assms(1) by (auto simp: ob_inv_def)
  ultimately show ?thesis using assms(1) b(3) by (simp add: ob_inv_def htab_inv_def s')
qed

lemma ob_inv_ref: "ob_inv s \<Longrightarrow> ob_inv (bump b 0 x s)"
  by (simp add: ob_inv_def htab_inv_def ob_known_def)

lemma ob_ref_bump:
  "ObReferenceObject b s = (if b \<noteq> 0 then bump b 0 1 s else s)"
  "ObDereferenceObject b s = (if b \<noteq> 0 then bump b 0 (- 1) s else s)"
  by (simp_all add: ObReferenceObject_def ObDereferenceObject_def bump_def)

lemma ob_inv_step: "ob_step s s' \<Longrightarrow> ob_inv s \<Longrightarrow> ob_inv s'"
  by (elim ob_stepE) (auto simp: ob_ref_bump ob_inv_ref intro: ob_inv_create ob_inv_open ob_inv_close)

lemma ob_reach_inv: "ob_reach s0 s \<Longrightarrow> ob_inv s0 \<Longrightarrow> ob_inv s"
  by (induction rule: ob_reach.induct) (auto intro: ob_inv_step)

lemma ob_start_inv: "ob_inv ob_start"
  using ob_start_htab heap_init_inv
  by (auto simp: ob_inv_def ob_known_def ob_start_def ob_init_def)

text \<open>C29: Handle accounting.  In every state reached from the initialised object manager by creating
  objects, opening and closing handles (valid or not), and referencing or dereferencing, each object
  in the name space, the enumeration list or the handle table is a live heap block, and its
  \<open>HandleCount\<close> is the number of slots of the handle table that hold it.\<close>
theorem ob_handle_accounting:
  assumes "ob_reach ob_start s" "b \<in> set (s_named s) \<union> set (s_all s) \<union> (set (s_handles s) - {0})"
  shows "HandleCount (HEADER s b) = of_nat (count_list (s_handles s) b) \<and>
    heap_live (ob_heap s) (b - sizeof_OBJECT_HEADER) \<noteq> None"
proof -
  have "ob_inv s" by (rule ob_reach_inv [OF assms(1) ob_start_inv])
  moreover have "b \<in> ob_known s" using assms(2) unfolding ob_known_def .
  ultimately show ?thesis by (simp add: ob_inv_def)
qed

lemma ob_start_create:
  "ObCreateObject OB_TYPE_EVENT 16 (Some ''Ev'') ob_start =
     (fst (ObCreateObject OB_TYPE_EVENT 16 (Some ''Ev'') ob_start), HEAP_BASE + 104) \<and>
   HEAP_BASE + 104 \<in> set (s_all (fst (ObCreateObject OB_TYPE_EVENT 16 (Some ''Ev'') ob_start)))"
  by (simp add: ObCreateObject_def Let_def ob_start_def ob_init_def kmalloc_def heap_init_def heap_consts
      align16_unat ob_consts)

theorem ob_handle_accounting_witness:
  "\<exists>s. ob_reach ob_start s \<and> HandleCount (HEADER s (HEAP_BASE + 104)) = of_nat (count_list (s_handles s) (HEAP_BASE + 104))"
proof -
  define s where "s = fst (ObCreateObject OB_TYPE_EVENT 16 (Some ''Ev'') ob_start)"
  note c = ob_start_create [folded s_def]
  have "unat (16 :: u64) \<le> 2 ^ 64 - 256" by simp
  then have "ob_step ob_start s" using c by (blast intro: ob_step.create)
  then have r: "ob_reach ob_start s" by (rule ob_reach.step [OF ob_reach.start])
  moreover have "HEAP_BASE + 104 \<in> set (s_named s) \<union> set (s_all s) \<union> (set (s_handles s) - {0})" using c by simp
  ultimately show ?thesis using ob_handle_accounting [OF r] by blast
qed

text \<open>Opening a handle on an object and closing it again restores the handle table, the handle
  count and the reference count of the object.\<close>
theorem ob_open_close_roundtrip:
  assumes "htab_inv s" "body \<noteq> 0" "ob_create_handle body s = Some (s', h)" "h \<noteq> 0"
  shows "ob_slots (ob_close_handle h s') = ob_slots s \<and>
    HandleCount (HEADER (ob_close_handle h s') body) = HandleCount (HEADER s body) \<and>
    RefCount (HEADER (ob_close_handle h s') body) = RefCount (HEADER s body)"
proof -
  obtain i where i: "ob_free_slot (s_handles s) 1 = Some i"
      "s' = bump body 1 1 (s\<lparr>s_handles := (s_handles s)[i := body]\<rparr>)" "h = ob_hnd i"
    using assms(2-4) by (auto simp: ob_create_handle_eq split: option.splits)
  have r: "0 < i" "i < MAX_HANDLES" using ob_free_slot_Some [OF i(1)] by auto
  have "s_handles s' ! i = body" using i(2) r assms(1) by (simp add: htab_inv_def)
  then have close: "ob_close_handle h s' = bump body (- 1) (- 1) (s'\<lparr>s_handles := (s_handles s')[i := 0]\<rparr>)"
    unfolding i(3) using assms(2) by (simp add: ob_close_handle_eq [OF handle_slot_hnd [OF r]])
  have "HandleCount (HEADER (ob_close_handle h s') body) = HandleCount (HEADER s body)"
    "RefCount (HEADER (ob_close_handle h s') body) = RefCount (HEADER s body)"
    unfolding close by (simp_all add: i(2) bump_def)
  then show ?thesis using ob_handles.open_close [OF assms] by simp
qed

theorem ob_open_close_roundtrip_witness:
  "\<exists>s' h. ob_create_handle 4096 ob_start = Some (s', h) \<and> ob_slots (ob_close_handle h s') = ob_slots ob_start"
proof -
  have f: "ob_free_slot (s_handles ob_start) 1 = Some 1"
    by (subst ob_free_slot.simps) (simp add: ob_start_def ob_init_def MAX_HANDLES_def)
  then obtain s' where run: "ob_create_handle 4096 ob_start = Some (s', 4)"
    by (simp add: ob_create_handle_eq ob_hnd_def)
  have "(4096 :: nat) \<noteq> 0" "(4 :: u64) \<noteq> 0" by simp_all
  with ob_open_close_roundtrip [OF ob_start_htab _ run] run show ?thesis by blast
qed

text \<open>A handle is looked up by the low 32 bits of its value divided by four: the check of the range
  is made after the truncation, so that \<open>0x400000004\<close> and \<open>5\<close> name the same object as handle 4.\<close>
theorem ob_handle_alias:
  "ob_handle_to_object 0x400000004 ty s = ob_handle_to_object 4 ty s \<and>
   ob_handle_to_object 5 ty s = ob_handle_to_object 4 ty s"
proof -
  have "handle_slot 0x400000004 = Some 1" "handle_slot 5 = Some 1" "handle_slot 4 = Some 1"
    by (simp_all add: handle_slot_def MAX_HANDLES_def)
  then show ?thesis by (simp add: ob_handle_to_object_def)
qed

section \<open>Names and enumeration\<close>

lemma ob_lookup_loop_find:
  "ob_lookup_loop s name bs =
     (case find (\<lambda>b. ieq (Name (HEADER s b)) name) bs of None \<Rightarrow> 0 | Some b \<Rightarrow> b)"
  by (induction bs) simp_all

lemma ob_lookup_created:
  assumes "ob_inv s" "unat sz \<le> 2 ^ 64 - 256" "ObCreateObject ty sz (Some name) s = (s', b)" "b \<noteq> 0"
    and "name \<noteq> []" "length name \<le> 63" "length (s_named s) < MAX_NAMED" "ObLookupObject name s = 0"
    and "map lower name' = map lower name"
  shows "ObLookupObject name' s' = b \<and> ob_type_of b s' = ty"
proof -
  have hinv: "heap_inv (ob_heap s)" using assms(1) by (simp add: ob_inv_def)
  from ObCreateObject_cases [OF hinv assms(2,3)] assms(4-7) obtain raw where raw: "b = raw + 80"
      "heap_live (ob_heap s) raw = None" and n: "s_named s' = s_named s @ [b]" and
      h: "HEADER s' = (HEADER s)(b := \<lparr>Type = ty, RefCount = 1, HandleCount = 0, Name = name\<rparr>)"
    by (elim disjE exE conjE) simp_all
  have named: "c \<in> ob_known s" if "c \<in> set (s_named s)" for c using that by (simp add: ob_known_def)
  have "b \<notin> ob_known s" using assms(1) raw by (auto simp: ob_inv_def sizeof_OBJECT_HEADER_def)
  then have old: "HEADER s' c = HEADER s c" if "c \<in> set (s_named s)" for c using named [OF that] by (auto simp: h)
  have nz: "c \<noteq> 0" if "c \<in> set (s_named s)" for c using named [OF that] assms(1) by (auto simp: ob_inv_def)
  have "find (\<lambda>b. ieq (Name (HEADER s b)) name) (s_named s) = None"
  proof (rule ccontr)
    assume "find (\<lambda>b. ieq (Name (HEADER s b)) name) (s_named s) \<noteq> None"
    then obtain c where c: "find (\<lambda>b. ieq (Name (HEADER s b)) name) (s_named s) = Some c" by blast
    then have "c \<in> set (s_named s)" by (auto simp: find_Some_iff)
    then have "c \<noteq> 0" by (rule nz)
    with c assms(8) show False by (simp add: ObLookupObject_def ob_lookup_loop_find)
  qed
  then have "\<not> ieq (Name (HEADER s' c)) name'" if "c \<in> set (s_named s)" for c
    using that old [OF that] assms(9) by (auto simp: find_None_iff ieq_map)
  then have "find (\<lambda>b. ieq (Name (HEADER s' b)) name') (s_named s) = None" by (auto simp: find_None_iff)
  moreover have "find p (xs @ ys) = (case find p xs of None \<Rightarrow> find p ys | Some x \<Rightarrow> Some x)" for p and xs ys :: "nat list"
    by (induction xs) simp_all
  moreover have "ieq (Name (HEADER s' b)) name'" using assms(9) by (simp add: h ieq_map)
  ultimately show ?thesis using assms(4) by (simp add: ObLookupObject_def ob_lookup_loop_find n ob_type_of_def h)
qed

text \<open>An object created under a name of at most 63 characters is what a lookup of that name finds,
  in any letter case, provided the name space had room and no object of that name.\<close>
theorem ob_create_lookup:
  assumes "ob_inv s" "unat sz \<le> 2 ^ 64 - 256" "ObCreateObject ty sz (Some name) s = (s', b)" "b \<noteq> 0"
    and "name \<noteq> []" "length name \<le> 63" "length (s_named s) < MAX_NAMED" "ObLookupObject name s = 0"
    and "map lower name' = map lower name"
  shows "ObLookupObject name' s' = b \<and> ob_type_of b s' = ty"
  by (rule ob_lookup_created [OF assms])

theorem ob_create_lookup_witness:
  "\<exists>s' b. ObCreateObject OB_TYPE_EVENT 16 (Some ''Ev'') ob_start = (s', b) \<and> ObLookupObject ''eV'' s' = b \<and> b \<noteq> 0"
proof -
  define s where "s = fst (ObCreateObject OB_TYPE_EVENT 16 (Some ''Ev'') ob_start)"
  have run: "ObCreateObject OB_TYPE_EVENT 16 (Some ''Ev'') ob_start = (s, HEAP_BASE + 104)"
    using ob_start_create by (simp add: s_def)
  have low: "map lower ''eV'' = map lower ''Ev''" by code_simp
  have look: "unat (16 :: u64) \<le> 2 ^ 64 - 256" "HEAP_BASE + 104 \<noteq> 0" "''Ev'' \<noteq> []" "length ''Ev'' \<le> 63"
      "length (s_named ob_start) < MAX_NAMED" "ObLookupObject ''Ev'' ob_start = 0"
    by (simp_all add: ob_start_def ob_init_def ObLookupObject_def MAX_NAMED_def)
  from ob_create_lookup [OF ob_start_inv look(1) run look(2-6) low]
  have "ObLookupObject ''eV'' s = HEAP_BASE + 104" by (rule conjunct1)
  with run show ?thesis by (simp add: HEAP_BASE_def)
qed

definition ob_of_type :: "u32 \<Rightarrow> ob_state \<Rightarrow> nat list" where
  "ob_of_type ty s = filter (\<lambda>b. b \<noteq> 0 \<and> Type (HEADER s b) = ty) (s_all s)"

lemma ob_enum_loop_nth:
  "seen \<le> index \<Longrightarrow> ob_enum_loop s ty index seen bs =
     (let xs = filter (\<lambda>b. b \<noteq> 0 \<and> Type (HEADER s b) = ty) bs
      in if nat (index - seen) < length xs then xs ! nat (index - seen) else 0)"
proof (induction bs arbitrary: seen)
  case (Cons b bs)
  show ?case
  proof (cases "b \<noteq> 0 \<and> Type (HEADER s b) = ty \<and> seen < index")
    case True
    then have "nat (index - seen) = Suc (nat (index - (seen + 1)))" by linarith
    with True Cons.IH [of "seen + 1"] show ?thesis by (simp add: Let_def)
  next
    case False
    then show ?thesis using Cons by (auto simp: Let_def)
  qed
qed (simp add: Let_def)

lemma ob_count_loop_length:
  "ob_count_loop s ty n bs = n + int (length (filter (\<lambda>b. b \<noteq> 0 \<and> Type (HEADER s b) = ty) bs))"
  by (induction bs arbitrary: n) auto

lemma ob_enum_complete_lib:
  "ob_count_by_type ty s = int (length (ob_of_type ty s)) \<and>
   ob_enum_by_type ty k s =
     (if 0 \<le> k \<and> k < ob_count_by_type ty s then ob_of_type ty s ! nat k else 0) \<and>
   (ob_enum_by_type ty k s = 0 \<longleftrightarrow> k < 0 \<or> ob_count_by_type ty s \<le> k)"
proof -
  have c: "ob_count_by_type ty s = int (length (ob_of_type ty s))"
    by (simp add: ob_count_by_type_def ob_count_loop_length ob_of_type_def)
  have e: "ob_enum_by_type ty k s = (if 0 \<le> k \<and> k < ob_count_by_type ty s then ob_of_type ty s ! nat k else 0)"
    unfolding c by (auto simp: ob_enum_by_type_def ob_enum_loop_nth Let_def ob_of_type_def)
  have "ob_of_type ty s ! nat k \<noteq> 0" if "0 \<le> k" "k < ob_count_by_type ty s"
  proof -
    have "nat k < length (ob_of_type ty s)" using that c by simp
    then have "ob_of_type ty s ! nat k \<in> set (ob_of_type ty s)" by (rule nth_mem)
    then show ?thesis by (simp add: ob_of_type_def)
  qed
  with c e show ?thesis by auto
qed

text \<open>Enumeration by type is complete and in creation order: index \<open>k\<close> gives the \<open>k\<close>-th listed object
  of the type, 0 is returned exactly for the indices outside \<open>[0, count)\<close>, and the count is the
  number of objects the enumeration gives.\<close>
theorem ob_enum_complete:
  "ob_count_by_type ty s = int (length (ob_of_type ty s)) \<and>
   ob_enum_by_type ty k s =
     (if 0 \<le> k \<and> k < ob_count_by_type ty s then ob_of_type ty s ! nat k else 0) \<and>
   (ob_enum_by_type ty k s = 0 \<longleftrightarrow> k < 0 \<or> ob_count_by_type ty s \<le> k)"
  by (rule ob_enum_complete_lib)

end
