(* ===== verification/Pipe.thy ===== *)
theory Pipe
  imports Ob
begin

text \<open>
  Named pipes, \<open>src/ntos/lpc/pipe.c\<close>: a pipe is an object of the object manager whose body
  holds the connection state and a ring buffer of 4096 bytes.  \<open>pipes\<close> is the view of the
  object bodies as \<open>PIPE_OBJECT\<close>; the ring positions are naturals, which the invariant
  \<open>pipe_inv\<close> keeps below the size of the buffer.  The interface \<open>bounded_fifo\<close> is
  interpreted on the read and write loops: a pipe is a queue of bytes.
\<close>

definition PIPE_BUF_SIZE :: nat where "PIPE_BUF_SIZE = 4096"
definition PIPE_STATE_DISCONNECTED :: u32 where "PIPE_STATE_DISCONNECTED = 0"
definition PIPE_STATE_LISTENING :: u32 where "PIPE_STATE_LISTENING = 1"
definition PIPE_STATE_CONNECTED :: u32 where "PIPE_STATE_CONNECTED = 2"

lemmas pipe_state_defs = PIPE_STATE_DISCONNECTED_def PIPE_STATE_LISTENING_def PIPE_STATE_CONNECTED_def

record PIPE_OBJECT =
  PName :: string
  State :: u32
  ServerConnected :: bool
  ClientConnected :: bool
  Buffer :: "u8 list"
  Head :: nat
  Tail :: nat
  Count :: nat

definition sizeof_PIPE_OBJECT :: u64 where "sizeof_PIPE_OBJECT = 4184"

record pipe_sys =
  pob :: ob_state
  pipes :: "nat \<Rightarrow> PIPE_OBJECT"

text \<open>The prefixes of a pipe name; \<open>0x5C\<close> is the backslash.\<close>

definition BSL :: char where "BSL = CHR 0x5C"
definition PFX_WIN32 :: string where "PFX_WIN32 = [BSL, BSL, CHR ''.'', BSL] @ ''pipe'' @ [BSL]"
definition PFX_NT :: string where "PFX_NT = [BSL] @ ''Device'' @ [BSL] @ ''NamedPipe'' @ [BSL]"
definition PFX_PIPE :: string where "PFX_PIPE = [BSL] @ ''Pipe'' @ [BSL]"

text \<open>The four spellings of a pipe name.  \<open>None\<close> is the null pointer.\<close>

definition pipe_tail :: "string \<Rightarrow> string" where
  "pipe_tail inp =
     (if starts_with_ci inp PFX_WIN32 then drop 9 inp
      else if starts_with_ci inp PFX_NT then drop 18 inp
      else if starts_with_ci inp PFX_PIPE then drop 6 inp
      else inp)"

definition pipe_normalize_name :: "string option \<Rightarrow> nat \<Rightarrow> string" where
  "pipe_normalize_name inp outcap =
     (case inp of
        None \<Rightarrow> []
      | Some s \<Rightarrow>
          (let o1 = take (outcap - 1) PFX_PIPE
           in o1 @ take (outcap - 1 - length o1) (pipe_tail s)))"

definition pipe_create :: "string option \<Rightarrow> pipe_sys \<Rightarrow> pipe_sys \<times> nat" where
  "pipe_create name s =
     (let full = pipe_normalize_name name 64 in
      if ObLookupObject full (pob s) \<noteq> 0 then (s, 0)
      else case ObCreateObject OB_TYPE_PIPE sizeof_PIPE_OBJECT (Some full) (pob s) of (ob, p) \<Rightarrow>
        if p = 0 then (s\<lparr>pob := ob\<rparr>, 0)
        else (s\<lparr>pob := ob,
                pipes := (pipes s)(p := \<lparr>PName = copy_name 63 full, State = PIPE_STATE_DISCONNECTED,
                  ServerConnected = False, ClientConnected = False,
                  Buffer = replicate PIPE_BUF_SIZE 0, Head = 0, Tail = 0, Count = 0\<rparr>)\<rparr>, p))"

definition pipe_open :: "string option \<Rightarrow> pipe_sys \<Rightarrow> pipe_sys \<times> nat" where
  "pipe_open name s =
     (let full = pipe_normalize_name name 64; body = ObLookupObject full (pob s) in
      if body = 0 \<or> ob_type_of body (pob s) \<noteq> OB_TYPE_PIPE then (s, 0)
      else (s\<lparr>pipes := (pipes s)(body := (pipes s body)
              \<lparr>ClientConnected := True, State := PIPE_STATE_CONNECTED\<rparr>)\<rparr>, body))"

definition pipe_connect :: "nat \<Rightarrow> pipe_sys \<Rightarrow> pipe_sys \<times> NTSTATUS" where
  "pipe_connect p s =
     (if p = 0 then (s, STATUS_UNSUCCESSFUL)
      else (s\<lparr>pipes := (pipes s)(p := (pipes s p)\<lparr>ServerConnected := True,
               State := (if ClientConnected (pipes s p) then PIPE_STATE_CONNECTED else PIPE_STATE_LISTENING)\<rparr>)\<rparr>,
            STATUS_SUCCESS))"

function pipe_write_loop :: "u8 list \<Rightarrow> nat \<Rightarrow> nat \<Rightarrow> PIPE_OBJECT \<Rightarrow> PIPE_OBJECT \<times> nat" where
  "pipe_write_loop b len wrote p =
     (if wrote < len \<and> Count p < PIPE_BUF_SIZE then
        pipe_write_loop b len (Suc wrote)
          (p\<lparr>Buffer := (Buffer p)[Tail p := b ! wrote],
             Tail := (Tail p + 1) mod PIPE_BUF_SIZE, Count := Count p + 1\<rparr>)
      else (p, wrote))"
  by pat_completeness auto
termination
  by (relation "measure (\<lambda>(b, len, wrote, p). len - wrote)") auto

function pipe_read_loop :: "nat \<Rightarrow> nat \<Rightarrow> PIPE_OBJECT \<Rightarrow> PIPE_OBJECT \<times> u8 list" where
  "pipe_read_loop len got p =
     (if got < len \<and> Count p > 0 then
        (case pipe_read_loop len (Suc got)
            (p\<lparr>Head := (Head p + 1) mod PIPE_BUF_SIZE, Count := Count p - 1\<rparr>) of
           (p', bs) \<Rightarrow> (p', Buffer p ! Head p # bs))
      else (p, []))"
  by pat_completeness auto
termination
  by (relation "measure (\<lambda>(len, got, p). len - got)") auto

declare pipe_write_loop.simps [simp del] pipe_read_loop.simps [simp del]

text \<open>The buffer of the caller is \<open>None\<close> for the null pointer and holds at least \<open>len\<close> bytes; what
  a read stores into it is returned.\<close>

definition pipe_write :: "nat \<Rightarrow> u8 list option \<Rightarrow> u32 \<Rightarrow> pipe_sys \<Rightarrow> pipe_sys \<times> u32" where
  "pipe_write p buf len s =
     (case buf of
        None \<Rightarrow> (s, 0)
      | Some b \<Rightarrow>
          if p = 0 \<or> len = 0 then (s, 0)
          else case pipe_write_loop b (unat len) 0 (pipes s p) of (q, wrote) \<Rightarrow>
            (s\<lparr>pipes := (pipes s)(p := q)\<rparr>, of_nat wrote))"

definition pipe_read :: "nat \<Rightarrow> bool \<Rightarrow> u32 \<Rightarrow> pipe_sys \<Rightarrow> pipe_sys \<times> u8 list" where
  "pipe_read p has_buf len s =
     (if p = 0 \<or> \<not> has_buf \<or> len = 0 then (s, [])
      else case pipe_read_loop (unat len) 0 (pipes s p) of (q, bs) \<Rightarrow>
        (s\<lparr>pipes := (pipes s)(p := q)\<rparr>, bs))"

section \<open>The ring buffer is a queue\<close>

definition pipe_inv :: "PIPE_OBJECT \<Rightarrow> bool" where
  "pipe_inv p \<longleftrightarrow> length (Buffer p) = PIPE_BUF_SIZE \<and> Head p < PIPE_BUF_SIZE \<and>
     Count p \<le> PIPE_BUF_SIZE \<and> Tail p = (Head p + Count p) mod PIPE_BUF_SIZE"

definition pipe_queue :: "PIPE_OBJECT \<Rightarrow> u8 list" where
  "pipe_queue p = map (\<lambda>i. Buffer p ! ((Head p + i) mod PIPE_BUF_SIZE)) [0..<Count p]"

lemma length_pipe_queue [simp]: "length (pipe_queue p) = Count p"
  by (simp add: pipe_queue_def)

lemma pipe_size_pos [simp]: "0 < PIPE_BUF_SIZE"
  by (simp add: PIPE_BUF_SIZE_def)

lemma ring_neq:
  assumes "i < c" "c < n" "h < n"
  shows "(h + i) mod n \<noteq> (h + c) mod (n :: nat)"
proof
  assume "(h + i) mod n = (h + c) mod n"
  then have "(h + c) mod n = (h + i) mod n" by (rule sym)
  moreover have "h + i \<le> h + c" using assms by simp
  ultimately have "n dvd (h + c) - (h + i)" by (simp only: mod_eq_dvd_iff_nat)
  then have "n dvd c - i" by simp
  with assms show False by (auto dest: dvd_imp_le)
qed

lemma pipe_put_one:
  fixes x :: u8
  assumes "pipe_inv p" "Count p < PIPE_BUF_SIZE"
  defines "q \<equiv> p\<lparr>Buffer := (Buffer p)[Tail p := x], Tail := (Tail p + 1) mod PIPE_BUF_SIZE, Count := Count p + 1\<rparr>"
  shows "pipe_inv q \<and> pipe_queue q = pipe_queue p @ [x]"
proof -
  have inv: "length (Buffer p) = PIPE_BUF_SIZE" "Head p < PIPE_BUF_SIZE"
      "Tail p = (Head p + Count p) mod PIPE_BUF_SIZE" using assms(1) by (simp_all add: pipe_inv_def)
  have "pipe_inv q" using inv assms(2) by (simp add: pipe_inv_def q_def mod_simps)
  moreover have "(Buffer p)[Tail p := x] ! ((Head p + i) mod PIPE_BUF_SIZE) = Buffer p ! ((Head p + i) mod PIPE_BUF_SIZE)"
    if "i < Count p" for i
    using ring_neq [OF that assms(2) inv(2)] inv(3) by (simp add: nth_list_update_neq)
  moreover have "(Buffer p)[Tail p := x] ! ((Head p + Count p) mod PIPE_BUF_SIZE) = x"
    using inv by simp
  ultimately show ?thesis by (simp add: pipe_queue_def q_def)
qed

lemma pipe_get_one:
  assumes "pipe_inv p" "Count p > 0"
  defines "q \<equiv> p\<lparr>Head := (Head p + 1) mod PIPE_BUF_SIZE, Count := Count p - 1\<rparr>"
  shows "pipe_inv q \<and> pipe_queue p = Buffer p ! Head p # pipe_queue q"
proof -
  have inv: "Head p < PIPE_BUF_SIZE" "Tail p = (Head p + Count p) mod PIPE_BUF_SIZE" "Count p \<le> PIPE_BUF_SIZE"
    using assms(1) by (simp_all add: pipe_inv_def)
  obtain n where n: "Count p = Suc n" using assms(2) by (cases "Count p") auto
  have "pipe_inv q" using assms(1) by (simp add: pipe_inv_def q_def n mod_simps)
  moreover
  have "[0..<Count p] = 0 # map Suc [0..<n]" by (simp only: n upt_conv_Cons [of 0] map_Suc_upt zero_less_Suc)
  then have "pipe_queue p = Buffer p ! Head p # map (\<lambda>i. Buffer p ! ((Head p + Suc i) mod PIPE_BUF_SIZE)) [0..<n]"
    using inv(1) by (simp add: pipe_queue_def)
  moreover have "pipe_queue q = map (\<lambda>i. Buffer p ! ((Head p + Suc i) mod PIPE_BUF_SIZE)) [0..<n]"
    by (simp add: pipe_queue_def q_def n mod_simps)
  ultimately show ?thesis by simp
qed

lemma pipe_write_loop_queue:
  assumes "pipe_inv p" "wrote \<le> len" "len \<le> length b" "pipe_write_loop b len wrote p = (q, n)"
  shows "n = wrote + min (len - wrote) (PIPE_BUF_SIZE - Count p) \<and> pipe_inv q \<and>
    pipe_queue q = pipe_queue p @ take (n - wrote) (drop wrote b) \<and>
    PName q = PName p \<and> State q = State p \<and> ServerConnected q = ServerConnected p \<and>
    ClientConnected q = ClientConnected p"
  using assms
proof (induction b len wrote p rule: pipe_write_loop.induct)
  case (1 b len wrote p)
  show ?case
  proof (cases "wrote < len \<and> Count p < PIPE_BUF_SIZE")
    case False
    with 1 show ?thesis by (auto simp: pipe_write_loop.simps [of b len wrote p] min_def pipe_inv_def)
  next
    case True
    let ?p = "p\<lparr>Buffer := (Buffer p)[Tail p := b ! wrote], Tail := (Tail p + 1) mod PIPE_BUF_SIZE, Count := Count p + 1\<rparr>"
    note put = pipe_put_one [OF 1(2), of "b ! wrote"]
    have run: "pipe_write_loop b len (Suc wrote) ?p = (q, n)"
      using 1(5) True by (simp add: pipe_write_loop.simps [of b len wrote p])
    have IH: "n = Suc wrote + min (len - Suc wrote) (PIPE_BUF_SIZE - Count ?p)" "pipe_inv q"
        "pipe_queue q = pipe_queue ?p @ take (n - Suc wrote) (drop (Suc wrote) b)"
        "PName q = PName ?p" "State q = State ?p" "ServerConnected q = ServerConnected ?p"
        "ClientConnected q = ClientConnected ?p"
      using 1(1) [OF True] put True 1(4) run by simp_all
    have "drop wrote b = b ! wrote # drop (Suc wrote) b" using True 1(4) by (simp add: Cons_nth_drop_Suc)
    moreover have "n - wrote = Suc (n - Suc wrote)" using IH(1) by simp
    ultimately have "b ! wrote # take (n - Suc wrote) (drop (Suc wrote) b) = take (n - wrote) (drop wrote b)" by simp
    with IH put True show ?thesis by auto
  qed
qed

lemma pipe_read_loop_queue:
  assumes "pipe_inv p" "got \<le> len" "pipe_read_loop len got p = (q, bs)"
  shows "bs = take (len - got) (pipe_queue p) \<and> pipe_queue q = drop (len - got) (pipe_queue p) \<and> pipe_inv q \<and>
    PName q = PName p \<and> State q = State p \<and> ServerConnected q = ServerConnected p \<and>
    ClientConnected q = ClientConnected p"
  using assms
proof (induction len got p arbitrary: q bs rule: pipe_read_loop.induct)
  case (1 len got p)
  show ?case
  proof (cases "got < len \<and> Count p > 0")
    case False
    with 1 have "q = p" "bs = []" by (simp_all add: pipe_read_loop.simps [of len got p] split: if_splits)
    moreover have "len - got = 0 \<or> pipe_queue p = []" using False by (auto simp: pipe_queue_def)
    ultimately show ?thesis using 1(2) by auto
  next
    case True
    let ?p = "p\<lparr>Head := (Head p + 1) mod PIPE_BUF_SIZE, Count := Count p - 1\<rparr>"
    obtain q' bs' where run: "pipe_read_loop len (Suc got) ?p = (q', bs')" by fastforce
    then have out: "q = q'" "bs = Buffer p ! Head p # bs'"
      using 1(4) True by (simp_all add: pipe_read_loop.simps [of len got p])
    have get: "pipe_inv ?p" "pipe_queue p = Buffer p ! Head p # pipe_queue ?p"
      using pipe_get_one [OF 1(2)] True by simp_all
    note IH = 1(1) [OF True get(1) _ run]
    have "len - got = Suc (len - Suc got)" using True by (simp add: Suc_diff_Suc)
    with IH True out get(2) show ?thesis by simp
  qed
qed

definition pipe_enq :: "u8 list \<Rightarrow> PIPE_OBJECT \<Rightarrow> PIPE_OBJECT \<times> nat" where
  "pipe_enq xs p = pipe_write_loop xs (length xs) 0 p"

definition pipe_deq :: "nat \<Rightarrow> PIPE_OBJECT \<Rightarrow> PIPE_OBJECT \<times> u8 list" where
  "pipe_deq n p = pipe_read_loop n 0 p"

interpretation pipe: bounded_fifo pipe_inv pipe_queue PIPE_BUF_SIZE pipe_enq pipe_deq
proof (unfold_locales, goal_cases)
  case (1 q)
  then show ?case by (simp add: pipe_inv_def)
next
  case (2 q xs q' n)
  then show ?case using pipe_write_loop_queue [of q 0 "length xs" xs q' n] by (simp add: pipe_enq_def)
next
  case (3 q n q' ys)
  then show ?case using pipe_read_loop_queue [of q 0 n q' ys] by (simp add: pipe_deq_def)
qed


definition pipe_fresh :: "string \<Rightarrow> PIPE_OBJECT" where
  "pipe_fresh n = \<lparr>PName = n, State = PIPE_STATE_DISCONNECTED, ServerConnected = False, ClientConnected = False,
     Buffer = replicate PIPE_BUF_SIZE 0, Head = 0, Tail = 0, Count = 0\<rparr>"

lemma pipe_fresh_inv: "pipe_inv (pipe_fresh n)" and pipe_fresh_queue: "pipe_queue (pipe_fresh n) = []"
  by (simp_all add: pipe_inv_def pipe_fresh_def pipe_queue_def)


lemma pipe_write_read_lib:
  assumes "p \<noteq> 0" "pipe_inv (pipes s p)" "unat len \<le> length b"
  shows "\<exists>s' n. pipe_write p (Some b) len s = (s', n) \<and>
      unat n = min (unat len) (PIPE_BUF_SIZE - Count (pipes s p)) \<and>
      pipe_queue (pipes s' p) = pipe_queue (pipes s p) @ take (unat n) b \<and> pipe_inv (pipes s' p) \<and>
      State (pipes s' p) = State (pipes s p) \<and> (\<forall>q. q \<noteq> p \<longrightarrow> pipes s' q = pipes s q) \<and> pob s' = pob s"
    and "\<exists>s' bs. pipe_read p True len s = (s', bs) \<and> bs = take (unat len) (pipe_queue (pipes s p)) \<and>
      pipe_queue (pipes s' p) = drop (unat len) (pipe_queue (pipes s p)) \<and> pipe_inv (pipes s' p) \<and>
      (\<forall>q. q \<noteq> p \<longrightarrow> pipes s' q = pipes s q) \<and> pob s' = pob s"
proof -
  obtain q n where w: "pipe_write_loop b (unat len) 0 (pipes s p) = (q, n)" by fastforce
  note W = pipe_write_loop_queue [OF assms(2) _ assms(3) w, simplified]
  have "n \<le> unat len" using W by simp
  moreover have "unat len < 2 ^ LENGTH(32)" by (rule unsigned_less)
  ultimately have n: "unat (of_nat n :: u32) = n" by (intro unat_of_nat_small) simp
  show "\<exists>s' n. pipe_write p (Some b) len s = (s', n) \<and>
      unat n = min (unat len) (PIPE_BUF_SIZE - Count (pipes s p)) \<and>
      pipe_queue (pipes s' p) = pipe_queue (pipes s p) @ take (unat n) b \<and> pipe_inv (pipes s' p) \<and>
      State (pipes s' p) = State (pipes s p) \<and> (\<forall>q. q \<noteq> p \<longrightarrow> pipes s' q = pipes s q) \<and> pob s' = pob s"
  proof (cases "len = 0")
    case True
    then show ?thesis using assms(2) by (simp add: pipe_write_def)
  next
    case False
    then have run: "pipe_write p (Some b) len s = (s\<lparr>pipes := (pipes s)(p := q)\<rparr>, of_nat n)"
      using assms(1) w by (simp add: pipe_write_def)
    define k where "k = (of_nat n :: u32)"
    have k: "unat k = n" unfolding k_def by (rule n)
    show ?thesis unfolding run k_def [symmetric]
      by (intro exI [of _ "s\<lparr>pipes := (pipes s)(p := q)\<rparr>"] exI [of _ k]) (simp add: k, use W in blast)
  qed
  obtain r bs where rd: "pipe_read_loop (unat len) 0 (pipes s p) = (r, bs)" by fastforce
  note R = pipe_read_loop_queue [OF assms(2) _ rd, simplified]
  show "\<exists>s' bs. pipe_read p True len s = (s', bs) \<and> bs = take (unat len) (pipe_queue (pipes s p)) \<and>
      pipe_queue (pipes s' p) = drop (unat len) (pipe_queue (pipes s p)) \<and> pipe_inv (pipes s' p) \<and>
      (\<forall>q. q \<noteq> p \<longrightarrow> pipes s' q = pipes s q) \<and> pob s' = pob s"
  proof (cases "len = 0")
    case True
    then show ?thesis using assms(2) by (simp add: pipe_read_def)
  next
    case False
    then have run: "pipe_read p True len s = (s\<lparr>pipes := (pipes s)(p := r)\<rparr>, bs)"
      using assms(1) rd by (simp add: pipe_read_def)
    show ?thesis unfolding run using R by simp
  qed
qed

text \<open>\<open>pipe_write\<close> accepts as many bytes of the caller as fit, appends exactly those in order and
  leaves the name and the connection state alone; \<open>pipe_read\<close> returns the oldest bytes, at most
  \<open>len\<close>, and removes exactly those.  No other pipe is touched by either.\<close>
theorem pipe_write_read_correct:
  assumes "p \<noteq> 0" "pipe_inv (pipes s p)" "unat len \<le> length b"
  shows "(\<exists>s' n. pipe_write p (Some b) len s = (s', n) \<and>
      unat n = min (unat len) (PIPE_BUF_SIZE - Count (pipes s p)) \<and>
      pipe_queue (pipes s' p) = pipe_queue (pipes s p) @ take (unat n) b \<and> pipe_inv (pipes s' p) \<and>
      State (pipes s' p) = State (pipes s p) \<and> (\<forall>q. q \<noteq> p \<longrightarrow> pipes s' q = pipes s q) \<and> pob s' = pob s) \<and>
    (\<exists>s' bs. pipe_read p True len s = (s', bs) \<and> bs = take (unat len) (pipe_queue (pipes s p)) \<and>
      pipe_queue (pipes s' p) = drop (unat len) (pipe_queue (pipes s p)) \<and> pipe_inv (pipes s' p) \<and>
      (\<forall>q. q \<noteq> p \<longrightarrow> pipes s' q = pipes s q) \<and> pob s' = pob s)"
  using pipe_write_read_lib [OF assms] by (rule conjI)

theorem pipe_write_read_correct_witness:
  "\<exists>s' k. pipe_write 4096 (Some [7, 8, 9]) 3 \<lparr>pob = ob_start, pipes = (\<lambda>_. pipe_fresh [])\<rparr> = (s', k) \<and>
     unat k = 3 \<and> pipe_queue (pipes s' 4096) = [7, 8, 9]"
proof -
  have "(4096 :: nat) \<noteq> 0" "pipe_inv (pipes \<lparr>pob = ob_start, pipes = (\<lambda>_. pipe_fresh [])\<rparr> 4096)"
    "unat (3 :: u32) \<le> length [7, 8, 9 :: u8]" by (simp_all add: pipe_fresh_inv)
  from conjunct1 [OF pipe_write_read_correct [OF this]] obtain s' k where
    k: "pipe_write 4096 (Some [7, 8, 9]) 3 \<lparr>pob = ob_start, pipes = (\<lambda>_. pipe_fresh [])\<rparr> = (s', k)"
      "unat k = min 3 (PIPE_BUF_SIZE - Count (pipe_fresh []))"
      "pipe_queue (pipes s' 4096) = pipe_queue (pipe_fresh []) @ take (unat k) [7, 8, 9]" by auto
  have "Count (pipe_fresh []) = 0" by (simp add: pipe_fresh_def)
  then have "unat k = 3" using k(2) by (simp add: PIPE_BUF_SIZE_def)
  with k(1,3) show ?thesis by (simp add: pipe_fresh_queue)
qed

section \<open>Names\<close>

lemma starts_with_append [simp]: "starts_with_ci (p @ s) p"
  by (induction p) simp_all

lemma pipe_tail_prefixed [simp]:
  "pipe_tail (PFX_WIN32 @ n) = n" "pipe_tail (PFX_NT @ n) = n" "pipe_tail (PFX_PIPE @ n) = n"
proof -
  have "\<not> starts_with_ci (PFX_NT @ n) PFX_WIN32" "\<not> starts_with_ci (PFX_PIPE @ n) PFX_WIN32"
    "\<not> starts_with_ci (PFX_PIPE @ n) PFX_NT"
    by (simp_all add: PFX_NT_def PFX_WIN32_def PFX_PIPE_def BSL_def lower_def)
  moreover have "length PFX_WIN32 = 9" "length PFX_NT = 18" "length PFX_PIPE = 6"
    by (simp_all add: PFX_NT_def PFX_WIN32_def PFX_PIPE_def)
  ultimately show "pipe_tail (PFX_WIN32 @ n) = n" "pipe_tail (PFX_NT @ n) = n" "pipe_tail (PFX_PIPE @ n) = n"
    by (simp_all add: pipe_tail_def)
qed

lemma pipe_normalize_64: "pipe_normalize_name (Some s) 64 = PFX_PIPE @ take 57 (pipe_tail s)"
  by (simp add: pipe_normalize_name_def PFX_PIPE_def)

text \<open>The three prefixed spellings of a pipe name denote the same object name, as does the bare name
  unless it begins with a prefix itself, and normalising twice is normalising once.\<close>
theorem pipe_normalize_canonical:
  "pipe_normalize_name (Some (PFX_WIN32 @ n)) 64 = PFX_PIPE @ take 57 n \<and>
   pipe_normalize_name (Some (PFX_NT @ n)) 64 = PFX_PIPE @ take 57 n \<and>
   pipe_normalize_name (Some (PFX_PIPE @ n)) 64 = PFX_PIPE @ take 57 n \<and>
   (pipe_tail n = n \<longrightarrow> pipe_normalize_name (Some n) 64 = PFX_PIPE @ take 57 n) \<and>
   pipe_normalize_name (Some (pipe_normalize_name (Some n) 64)) 64 = pipe_normalize_name (Some n) 64"
  by (simp add: pipe_normalize_64)

theorem pipe_normalize_canonical_witness:
  "pipe_tail ''Foo'' = ''Foo'' \<and> pipe_normalize_name (Some ''Foo'') 64 = PFX_PIPE @ ''Foo''"
proof -
  have "pipe_tail ''Foo'' = ''Foo''"
    by (simp add: pipe_tail_def PFX_NT_def PFX_WIN32_def PFX_PIPE_def BSL_def lower_def)
  moreover have "take 57 ''Foo'' = ''Foo''" by simp
  ultimately show ?thesis using pipe_normalize_canonical [of "''Foo''"] by metis
qed

text \<open>A pipe created under one spelling of a name is what a client finds under any spelling: \<open>pipe_open\<close>
  returns the created object, now connected, with an empty ring buffer; and a second creation under
  the name fails and changes nothing.\<close>
theorem pipe_create_open:
  assumes "ob_inv (pob s)" "length (s_named (pob s)) < MAX_NAMED"
    and "pipe_create (Some a) s = (s1, p)" "p \<noteq> 0" "map lower (pipe_tail b) = map lower (pipe_tail a)"
  shows "\<exists>s2. pipe_open (Some b) s1 = (s2, p) \<and> State (pipes s2 p) = PIPE_STATE_CONNECTED \<and>
      ClientConnected (pipes s2 p) \<and> pipe_queue (pipes s2 p) = [] \<and> pipe_inv (pipes s2 p) \<and>
      pipe_create (Some b) s1 = (s1, 0)"
proof -
  define nm where "nm = pipe_normalize_name (Some a) 64"
  have nm: "nm \<noteq> []" "length nm \<le> 63" by (simp_all add: nm_def pipe_normalize_64 PFX_PIPE_def)
  have low: "map lower (pipe_normalize_name (Some b) 64) = map lower nm"
    unfolding nm_def pipe_normalize_64 using assms(5) by (metis map_append take_map)
  have free: "ObLookupObject nm (pob s) = 0"
    using assms(3,4) by (auto simp: pipe_create_def Let_def nm_def split: if_splits)
  obtain o1 q where cr: "ObCreateObject OB_TYPE_PIPE sizeof_PIPE_OBJECT (Some nm) (pob s) = (o1, q)" by fastforce
  then have s1: "q = p" "pob s1 = o1" "pipes s1 p = pipe_fresh nm"
    using assms(3,4) free nm(2)
    by (auto simp: pipe_create_def Let_def nm_def [symmetric] pipe_fresh_def split: if_splits)
  have sz: "unat sizeof_PIPE_OBJECT \<le> 2 ^ 64 - 256" by (simp add: sizeof_PIPE_OBJECT_def)
  have found: "ObLookupObject (pipe_normalize_name (Some b) 64) (pob s1) = p" "ob_type_of p (pob s1) = OB_TYPE_PIPE"
    using ob_lookup_created [OF assms(1) sz cr _ nm assms(2) free low] assms(4) s1 by simp_all
  have "pipe_open (Some b) s1 = (s1\<lparr>pipes := (pipes s1)(p := (pipes s1 p)
      \<lparr>ClientConnected := True, State := PIPE_STATE_CONNECTED\<rparr>)\<rparr>, p)"
    using found assms(4) by (simp add: pipe_open_def)
  moreover have "pipe_create (Some b) s1 = (s1, 0)" using found assms(4) by (simp add: pipe_create_def)
  moreover have "pipe_inv ((pipe_fresh nm)\<lparr>ClientConnected := True, State := PIPE_STATE_CONNECTED\<rparr>)"
    "pipe_queue ((pipe_fresh nm)\<lparr>ClientConnected := True, State := PIPE_STATE_CONNECTED\<rparr>) = []"
    by (simp_all add: pipe_fresh_def pipe_inv_def pipe_queue_def)
  ultimately show ?thesis by (simp add: s1)
qed

theorem pipe_create_open_witness:
  "\<exists>s1 p s2. pipe_create (Some ''A'') \<lparr>pob = ob_start, pipes = (\<lambda>_. pipe_fresh [])\<rparr> = (s1, p) \<and>
     pipe_open (Some (PFX_WIN32 @ ''a'')) s1 = (s2, p) \<and> p \<noteq> 0"
proof -
  let ?s = "\<lparr>pob = ob_start, pipes = (\<lambda>_. pipe_fresh [])\<rparr>"
  obtain s1 p where run: "pipe_create (Some ''A'') ?s = (s1, p)" by fastforce
  have km: "snd (kmalloc (80 + sizeof_PIPE_OBJECT) heap_init) = HEAP_BASE + 24"
    by (simp add: sizeof_PIPE_OBJECT_def kmalloc_def heap_init_def heap_consts align16_unat)
  have "p \<noteq> 0"
  proof -
    have "ObLookupObject n (pob ?s) = 0" for n by (simp add: ObLookupObject_def ob_start_def ob_init_def)
    moreover have "snd (ObCreateObject ty sizeof_PIPE_OBJECT nm (pob ?s)) \<noteq> 0" for ty nm
      using km by (auto simp: ObCreateObject_def Let_def ob_start_def ob_init_def sizeof_OBJECT_HEADER_def
          HEAP_BASE_def split: prod.split)
    then have "ObCreateObject ty sizeof_PIPE_OBJECT nm (pob ?s) \<noteq> (x, 0)" for ty nm x by (metis snd_conv)
    ultimately show ?thesis using run by (auto simp: pipe_create_def Let_def split: prod.splits if_splits)
  qed
  have low: "map lower (pipe_tail (PFX_WIN32 @ ''a'')) = map lower (pipe_tail ''A'')" by code_simp
  have "ob_inv (pob ?s)" "length (s_named (pob ?s)) < MAX_NAMED"
    using ob_start_inv by (simp_all add: ob_start_def ob_init_def MAX_NAMED_def)
  from pipe_create_open [OF this run \<open>p \<noteq> 0\<close> low] run \<open>p \<noteq> 0\<close> show ?thesis by blast
qed

end
