(* ===== verification/Cid.thy ===== *)
theory Cid
  imports Interfaces
begin

text \<open>
  The client-id table, \<open>src/ntos/ps/cid_table.c\<close>: a linear array of 1024 entries that maps a
  process id or a thread id to the address of its object, and the table header that the kernel
  exports under the name \<open>PspCidTable\<close>.  Insertion and lookup exist twice in the source, for
  processes and for threads; both are instances of one scan.  The interface \<open>keyed_table\<close> is
  interpreted on the table.
\<close>

definition CID_MAX_ENTRIES :: nat where "CID_MAX_ENTRIES = 1024"

record CID_ENTRY =
  cid :: u32
  is_thread :: bool
  cobject :: nat

text \<open>Of the exported header only \<open>CidHandleCount\<close>, a signed 32-bit count, is ever written after
  \<open>cid_init\<close>.\<close>

record cid_state =
  s_cid_entries :: "CID_ENTRY list"
  CidHandleCount :: int

definition cid_init :: cid_state where
  "cid_init = \<lparr>s_cid_entries = replicate CID_MAX_ENTRIES \<lparr>cid = 0, is_thread = False, cobject = 0\<rparr>,
     CidHandleCount = 0\<rparr>"

definition cid_find_free :: "cid_state \<Rightarrow> nat option" where
  "cid_find_free s = find_idx (\<lambda>e. cid e = 0) (s_cid_entries s)"

definition cid_find_entry :: "u32 \<Rightarrow> bool \<Rightarrow> cid_state \<Rightarrow> nat option" where
  "cid_find_entry c th s =
     (if c = 0 then None else find_idx (\<lambda>e. cid e = c \<and> is_thread e = th) (s_cid_entries s))"

definition cid_store :: "nat \<Rightarrow> CID_ENTRY \<Rightarrow> int \<Rightarrow> cid_state \<Rightarrow> cid_state" where
  "cid_store i e n s = s\<lparr>s_cid_entries := (s_cid_entries s)[i := e], CidHandleCount := n\<rparr>"

definition cid_insert :: "bool \<Rightarrow> nat \<Rightarrow> u32 \<Rightarrow> cid_state \<Rightarrow> cid_state \<times> bool" where
  "cid_insert th obj c s =
     (if obj = 0 \<or> c = 0 then (s, False)
      else
        (let idx = (case cid_find_entry c th s of Some i \<Rightarrow> Some i | None \<Rightarrow> cid_find_free s) in
         case idx of
           None \<Rightarrow> (s, False)
         | Some i \<Rightarrow> (cid_store i \<lparr>cid = c, is_thread = th, cobject = obj\<rparr> (CidHandleCount s + 1) s, True)))"

definition cid_insert_process :: "nat \<Rightarrow> u32 \<Rightarrow> cid_state \<Rightarrow> cid_state \<times> bool" where
  "cid_insert_process proc pid s = cid_insert False proc pid s"

definition cid_insert_thread :: "nat \<Rightarrow> u32 \<Rightarrow> cid_state \<Rightarrow> cid_state \<times> bool" where
  "cid_insert_thread thr tid s = cid_insert True thr tid s"

definition cid_lookup :: "bool \<Rightarrow> u32 \<Rightarrow> cid_state \<Rightarrow> nat" where
  "cid_lookup th c s =
     (case cid_find_entry c th s of None \<Rightarrow> 0 | Some i \<Rightarrow> cobject (s_cid_entries s ! i))"

definition cid_lookup_process :: "u32 \<Rightarrow> cid_state \<Rightarrow> nat" where
  "cid_lookup_process pid s = cid_lookup False pid s"

definition cid_lookup_thread :: "u32 \<Rightarrow> cid_state \<Rightarrow> nat" where
  "cid_lookup_thread tid s = cid_lookup True tid s"

definition cid_remove :: "bool \<Rightarrow> u32 \<Rightarrow> cid_state \<Rightarrow> cid_state" where
  "cid_remove th c s =
     (case cid_find_entry c th s of
        None \<Rightarrow> s
      | Some i \<Rightarrow> cid_store i \<lparr>cid = 0, is_thread = False, cobject = 0\<rparr>
          (if CidHandleCount s > 0 then CidHandleCount s - 1 else CidHandleCount s) s)"

definition cid_remove_process :: "u32 \<Rightarrow> cid_state \<Rightarrow> cid_state" where
  "cid_remove_process pid s = cid_remove False pid s"

definition cid_remove_thread :: "u32 \<Rightarrow> cid_state \<Rightarrow> cid_state" where
  "cid_remove_thread tid s = cid_remove True tid s"

section \<open>The table as a map\<close>

definition cid_inv :: "cid_state \<Rightarrow> bool" where
  "cid_inv s \<longleftrightarrow> length (s_cid_entries s) = CID_MAX_ENTRIES \<and>
     (\<forall>i < CID_MAX_ENTRIES. \<forall>j < CID_MAX_ENTRIES.
        cid (s_cid_entries s ! i) \<noteq> 0 \<longrightarrow> cid (s_cid_entries s ! i) = cid (s_cid_entries s ! j) \<longrightarrow>
        is_thread (s_cid_entries s ! i) = is_thread (s_cid_entries s ! j) \<longrightarrow> i = j)"

definition cid_get :: "cid_state \<Rightarrow> u32 \<times> bool \<Rightarrow> nat option" where
  "cid_get s k = map_option (\<lambda>i. cobject (s_cid_entries s ! i)) (cid_find_entry (fst k) (snd k) s)"

lemma cid_init_inv: "cid_inv cid_init"
  by (simp add: cid_inv_def cid_init_def)

lemma cid_find_entry_iff:
  assumes "cid_inv s"
  shows "cid_find_entry c th s = Some i \<longleftrightarrow>
    c \<noteq> 0 \<and> i < CID_MAX_ENTRIES \<and> cid (s_cid_entries s ! i) = c \<and> is_thread (s_cid_entries s ! i) = th"
proof
  assume "cid_find_entry c th s = Some i"
  then show "c \<noteq> 0 \<and> i < CID_MAX_ENTRIES \<and> cid (s_cid_entries s ! i) = c \<and> is_thread (s_cid_entries s ! i) = th"
    using assms by (auto simp: cid_find_entry_def cid_inv_def dest: find_idx_SomeD split: if_splits)
next
  assume at: "c \<noteq> 0 \<and> i < CID_MAX_ENTRIES \<and> cid (s_cid_entries s ! i) = c \<and> is_thread (s_cid_entries s ! i) = th"
  have "\<not> (cid (s_cid_entries s ! j) = c \<and> is_thread (s_cid_entries s ! j) = th)" if "j < i" for j
  proof
    assume "cid (s_cid_entries s ! j) = c \<and> is_thread (s_cid_entries s ! j) = th"
    with at that assms have "j = i" unfolding cid_inv_def by (metis less_trans)
    with that show False by simp
  qed
  then have "find_idx (\<lambda>e. cid e = c \<and> is_thread e = th) (s_cid_entries s) = Some i"
    using at assms by (intro find_idx_SomeI) (simp_all add: cid_inv_def)
  with at show "cid_find_entry c th s = Some i" by (simp add: cid_find_entry_def)
qed

lemma cid_find_entry_None_iff:
  assumes "cid_inv s"
  shows "cid_find_entry c th s = None \<longleftrightarrow>
    (c = 0 \<or> (\<forall>i < CID_MAX_ENTRIES. \<not> (cid (s_cid_entries s ! i) = c \<and> is_thread (s_cid_entries s ! i) = th)))"
  using cid_find_entry_iff [OF assms, of c th] by (metis not_Some_eq)

text \<open>Storing an entry whose key is nowhere else keeps the keys unique and updates the map.\<close>

lemma cid_store_inv:
  assumes "cid_inv s" "i < CID_MAX_ENTRIES"
    and "cid e = 0 \<or> cid_find_entry (cid e) (is_thread e) s \<in> {None, Some i}"
  shows "cid_inv (cid_store i e n s)"
proof -
  have len: "length (s_cid_entries s) = CID_MAX_ENTRIES" using assms(1) by (simp add: cid_inv_def)
  have uniq: "j = i" if "j < CID_MAX_ENTRIES" "cid (s_cid_entries s ! j) = cid e"
      "is_thread (s_cid_entries s ! j) = is_thread e" "cid e \<noteq> 0" for j
    using assms(3) that cid_find_entry_iff [OF assms(1), of "cid e" "is_thread e" j] by auto
  have nth: "s_cid_entries (cid_store i e n s) ! j = (if j = i then e else s_cid_entries s ! j)"
    if "j < CID_MAX_ENTRIES" for j using that by (simp add: cid_store_def len)
  have "a = b" if "a < CID_MAX_ENTRIES" "b < CID_MAX_ENTRIES" "cid (s_cid_entries (cid_store i e n s) ! a) \<noteq> 0"
      "cid (s_cid_entries (cid_store i e n s) ! a) = cid (s_cid_entries (cid_store i e n s) ! b)"
      "is_thread (s_cid_entries (cid_store i e n s) ! a) = is_thread (s_cid_entries (cid_store i e n s) ! b)" for a b
  proof (cases "a = i \<or> b = i")
    case True
    then show ?thesis using that uniq [of a] uniq [of b] by (auto simp: nth split: if_splits)
  next
    case False
    then show ?thesis using that assms(1) unfolding cid_inv_def by (simp add: nth)
  qed
  moreover have "length (s_cid_entries (cid_store i e n s)) = CID_MAX_ENTRIES" by (simp add: cid_store_def len)
  ultimately show ?thesis unfolding cid_inv_def by blast
qed

lemma cid_store_get:
  assumes "cid_inv s" "i < CID_MAX_ENTRIES" "cid_inv (cid_store i e n s)"
    and "cid (s_cid_entries s ! i) = 0 \<or> (cid (s_cid_entries s ! i), is_thread (s_cid_entries s ! i)) = k"
    and "cid e = 0 \<or> (cid e, is_thread e) = k" "fst k \<noteq> 0"
    and "cid_find_entry (fst k) (snd k) s \<in> {None, Some i}"
  shows "cid_get (cid_store i e n s) = (cid_get s)(k := (if cid e = 0 then None else Some (cobject e)))"
proof (rule ext)
  fix k' :: "u32 \<times> bool"
  have len: "length (s_cid_entries s) = CID_MAX_ENTRIES" using assms(1) by (simp add: cid_inv_def)
  let ?s = "cid_store i e n s"
  have nth: "s_cid_entries ?s ! j = (if j = i then e else s_cid_entries s ! j)" if "j < CID_MAX_ENTRIES" for j
    using that by (simp add: cid_store_def len)
  note iff = cid_find_entry_iff [OF assms(1)] cid_find_entry_iff [OF assms(3)]
  show "cid_get ?s k' = ((cid_get s)(k := (if cid e = 0 then None else Some (cobject e)))) k'"
  proof (cases "k' = k")
    case False
    have "cid_find_entry (fst k') (snd k') ?s = Some j \<longleftrightarrow> cid_find_entry (fst k') (snd k') s = Some j" for j
      unfolding iff using nth [of j] False assms(4,5) by (cases k'; cases "j = i") auto
    then have "cid_find_entry (fst k') (snd k') ?s = cid_find_entry (fst k') (snd k') s"
      by (metis not_Some_eq)
    moreover have "cobject (s_cid_entries ?s ! j) = cobject (s_cid_entries s ! j)"
      if "cid_find_entry (fst k') (snd k') s = Some j" for j
      using that nth [of j] False assms(4) unfolding iff by (cases k') auto
    ultimately show ?thesis using False by (auto simp: cid_get_def map_option_case split: option.splits)
  next
    case True
    show ?thesis
    proof (cases "cid e = 0")
      case True
      have "cid_find_entry (fst k) (snd k) ?s = None"
      proof (rule ccontr)
        assume "cid_find_entry (fst k) (snd k) ?s \<noteq> None"
        then obtain j where j: "cid_find_entry (fst k) (snd k) ?s = Some j" by blast
        then have "j \<noteq> i" "j < CID_MAX_ENTRIES" using nth [of j] True assms(6) unfolding iff by auto
        then have "cid_find_entry (fst k) (snd k) s = Some j" using j nth [of j] unfolding iff by simp
        with assms(7) \<open>j \<noteq> i\<close> show False by simp
      qed
      then show ?thesis using \<open>k' = k\<close> True by (simp add: cid_get_def)
    next
      case False
      then have "cid_find_entry (fst k) (snd k) ?s = Some i"
        using assms(2,5,6) nth [of i] unfolding iff by auto
      then show ?thesis using \<open>k' = k\<close> False nth [OF assms(2)] by (simp add: cid_get_def)
    qed
  qed
qed

definition cid_put :: "u32 \<times> bool \<Rightarrow> nat \<Rightarrow> cid_state \<Rightarrow> cid_state \<times> bool" where
  "cid_put k v s = cid_insert (snd k) v (fst k) s"

definition cid_del :: "u32 \<times> bool \<Rightarrow> cid_state \<Rightarrow> cid_state" where
  "cid_del k s = cid_remove (snd k) (fst k) s"

lemma cid_insert_slot:
  assumes "cid_inv s" "cid_insert th obj c s = (s', True)"
  shows "\<exists>i. i < CID_MAX_ENTRIES \<and> c \<noteq> 0 \<and> obj \<noteq> 0 \<and>
    s' = cid_store i \<lparr>cid = c, is_thread = th, cobject = obj\<rparr> (CidHandleCount s + 1) s \<and>
    cid_find_entry c th s \<in> {None, Some i} \<and>
    (cid (s_cid_entries s ! i) = 0 \<or> (cid (s_cid_entries s ! i), is_thread (s_cid_entries s ! i)) = (c, th))"
proof -
  have nz: "c \<noteq> 0" "obj \<noteq> 0" using assms(2) by (auto simp: cid_insert_def split: if_splits)
  have len: "length (s_cid_entries s) = CID_MAX_ENTRIES" using assms(1) by (simp add: cid_inv_def)
  show ?thesis
  proof (cases "cid_find_entry c th s")
    case None
    then obtain i where i: "cid_find_free s = Some i"
      using assms(2) nz by (auto simp: cid_insert_def split: option.splits)
    then have "i < CID_MAX_ENTRIES" "cid (s_cid_entries s ! i) = 0"
      using len by (auto simp: cid_find_free_def dest: find_idx_SomeD)
    then show ?thesis using None i assms(2) nz by (auto simp: cid_insert_def)
  next
    case (Some i)
    then show ?thesis
      using assms nz cid_find_entry_iff [OF assms(1), of c th i] by (auto simp: cid_insert_def)
  qed
qed

interpretation cidt: keyed_table cid_inv "\<lambda>k. fst k \<noteq> 0" cid_get cid_put cid_del
proof (unfold_locales, goal_cases)
  case (1 s k v s')
  from cid_insert_slot [OF 1(1) 1(3) [unfolded cid_put_def]] obtain i where i: "i < CID_MAX_ENTRIES"
      "s' = cid_store i \<lparr>cid = fst k, is_thread = snd k, cobject = v\<rparr> (CidHandleCount s + 1) s"
      "cid_find_entry (fst k) (snd k) s \<in> {None, Some i}"
      "cid (s_cid_entries s ! i) = 0 \<or> (cid (s_cid_entries s ! i), is_thread (s_cid_entries s ! i)) = k"
    by auto
  have "cid_inv s'" unfolding i(2) by (rule cid_store_inv [OF 1(1) i(1)]) (use i(3) in simp)
  then show ?case
    using cid_store_get [OF 1(1) i(1) _ i(4) _ 1(2) i(3), of "\<lparr>cid = fst k, is_thread = snd k, cobject = v\<rparr>"] 1(2)
    unfolding i(2) by simp
next
  case (2 k v s s')
  then show ?case by (auto simp: cid_put_def cid_insert_def Let_def split: if_splits option.splits)
next
  case (3 s k v s' b)
  show ?case
  proof (cases b)
    case True
    with cid_insert_slot [OF 3(1), of "snd k" v "fst k" s'] 3(3) obtain i where i: "i < CID_MAX_ENTRIES"
      "s' = cid_store i \<lparr>cid = fst k, is_thread = snd k, cobject = v\<rparr> (CidHandleCount s + 1) s"
      "cid_find_entry (fst k) (snd k) s \<in> {None, Some i}" by (auto simp: cid_put_def)
    show ?thesis unfolding i(2) by (rule cid_store_inv [OF 3(1) i(1)]) (use i(3) in simp)
  next
    case False
    with 3 show ?thesis by (auto simp: cid_put_def cid_insert_def Let_def split: if_splits option.splits)
  qed
next
  case (4 s k)
  show ?case
  proof (cases "cid_find_entry (fst k) (snd k) s")
    case None
    then have "cid_get s k = None" by (simp add: cid_get_def)
    then show ?thesis using None by (simp add: cid_del_def cid_remove_def fun_upd_idem)
  next
    case (Some i)
    note at = Some [unfolded cid_find_entry_iff [OF 4(1)]]
    let ?e = "\<lparr>cid = 0, is_thread = False, cobject = 0\<rparr>"
    have inv: "cid_inv (cid_store i ?e n s)" for n by (rule cid_store_inv [OF 4(1)]) (use at in simp_all)
    have k: "(cid (s_cid_entries s ! i), is_thread (s_cid_entries s ! i)) = k" using at by auto
    show ?thesis
      using cid_store_get [OF 4(1) _ inv _ _ 4(2)] at Some k by (simp add: cid_del_def cid_remove_def)
  qed
next
  case (5 s k)
  show ?case
  proof (cases "cid_find_entry (fst k) (snd k) s")
    case None
    then show ?thesis using 5 by (simp add: cid_del_def cid_remove_def)
  next
    case (Some i)
    then show ?thesis
      using 5 cid_find_entry_iff [OF 5, of "fst k" "snd k" i]
      by (auto simp: cid_del_def cid_remove_def intro!: cid_store_inv)
  qed
qed

text \<open>C34: The client-id table is a map from (id, kind) to objects: a successful insertion of a process
  makes its id resolve to it and leaves every other process and every thread id (also one of the
  same value) as it was; a failed one changes nothing; removing the id undoes it.\<close>
theorem cid_process_map:
  assumes "cid_inv s" "pid \<noteq> 0" "cid_insert_process proc pid s = (s', ok)"
  shows "cid_inv s' \<and> (ok \<longrightarrow> cid_lookup_process pid s' = proc) \<and> (\<not> ok \<longrightarrow> s' = s) \<and>
    (\<forall>q. q \<noteq> pid \<longrightarrow> cid_lookup_process q s' = cid_lookup_process q s) \<and>
    (\<forall>t. cid_lookup_thread t s' = cid_lookup_thread t s) \<and>
    (\<forall>q. cid_lookup_process q (cid_remove_process pid s') =
       (if q = pid then 0 else cid_lookup_process q s))"
proof -
  have put: "cid_put (pid, False) proc s = (s', ok)" using assms(3) by (simp add: cid_put_def cid_insert_process_def)
  have key: "fst (pid, False) \<noteq> 0" using assms(2) by simp
  have look: "cid_lookup th c t = (case cid_get t (c, th) of None \<Rightarrow> 0 | Some v \<Rightarrow> v)" for th c t
    by (simp add: cid_lookup_def cid_get_def split: option.splits)
  have inv: "cid_inv s'" by (rule cidt.put_inv [OF assms(1) key put])
  have other: "cid_get s' k = cid_get s k" if "k \<noteq> (pid, False)" for k
    by (rule cidt.put_get_other [OF assms(1) key put that])
  have "cid_get s' (pid, False) = Some proc" if ok using cidt.put_get [OF assms(1) key] put that by simp
  moreover have "s' = s" if "\<not> ok" using cidt.put_fail put that by simp
  moreover have "cid_get (cid_remove_process pid s') = (cid_get s')((pid, False) := None)"
    using cidt.del_ok [OF inv key] by (simp add: cid_del_def cid_remove_process_def)
  ultimately show ?thesis
    using inv other by (simp add: look cid_lookup_process_def cid_lookup_thread_def)
qed

lemma cid_init_none [simp]: "cid_find_entry c th cid_init = None"
  by (simp add: cid_find_entry_def cid_init_def)

lemma cid_init_insert: "c \<noteq> 0 \<Longrightarrow> obj \<noteq> 0 \<Longrightarrow> \<exists>s'. cid_insert th obj c cid_init = (s', True)"
proof -
  assume nz: "c \<noteq> 0" "obj \<noteq> 0"
  have free: "find_idx P (replicate CID_MAX_ENTRIES e) = (if P e then Some 0 else None)" for P and e :: CID_ENTRY
    by (simp add: CID_MAX_ENTRIES_def numeral_eq_Suc)
  have "cid_find_free cid_init = Some 0" by (simp add: cid_find_free_def cid_init_def free)
  then show ?thesis using nz by (simp add: cid_insert_def)
qed

theorem cid_process_map_witness:
  "\<exists>s'. cid_insert_process 4096 7 cid_init = (s', True) \<and> cid_lookup_process 7 s' = 4096 \<and> cid_lookup_thread 7 s' = 0"
proof -
  obtain s' where run: "cid_insert_process 4096 7 cid_init = (s', True)"
    using cid_init_insert [of 7 4096 False] by (auto simp: cid_insert_process_def)
  have "cid_lookup_thread 7 cid_init = 0"
    by (simp add: cid_lookup_thread_def cid_lookup_def)
  moreover have "(7 :: u32) \<noteq> 0" by simp
  ultimately show ?thesis using cid_process_map [OF cid_init_inv _ run] run by auto
qed

text \<open>\<open>CidHandleCount\<close> of the exported table does not count entries: inserting an id a second time
  replaces the object in place but counts it again, so that after the removal the count of an
  empty table is 1.\<close>
theorem cid_reinsert_count_drifts:
  assumes "cid_inv s" "CidHandleCount s = 0" "cid_insert_process p pid s = (s1, True)"
    and "cid_insert_process q pid s1 = (s2, True)"
  shows "CidHandleCount (cid_remove_process pid s2) = 1 \<and> cid_lookup_process pid (cid_remove_process pid s2) = 0"
proof -
  note slot1 = cid_insert_slot [OF assms(1) assms(3) [unfolded cid_insert_process_def]]
  then have nz: "pid \<noteq> 0" and h1: "CidHandleCount s1 = 1" using assms(2) by (auto simp: cid_store_def)
  have inv1: "cid_inv s1" using cidt.put_inv [OF assms(1), of "(pid, False)" p s1 True] assms(3) nz
    by (simp add: cid_put_def cid_insert_process_def)
  note slot2 = cid_insert_slot [OF inv1 assms(4) [unfolded cid_insert_process_def]]
  then have h2: "CidHandleCount s2 = 2" using h1 by (auto simp: cid_store_def)
  have put2: "cid_put (pid, False) q s1 = (s2, True)" using assms(4) by (simp add: cid_put_def cid_insert_process_def)
  have inv2: "cid_inv s2" using cidt.put_inv [OF inv1 _ put2] nz by simp
  have "cid_get s2 (pid, False) = Some q" using cidt.put_get [OF inv1 _ put2] nz by simp
  then obtain i where i: "cid_find_entry pid False s2 = Some i" by (auto simp: cid_get_def)
  have "CidHandleCount (cid_remove_process pid s2) = 1"
    using i h2 by (simp add: cid_remove_process_def cid_remove_def cid_store_def)
  moreover have "cid_get (cid_remove_process pid s2) (pid, False) = None"
    using cidt.del_ok [OF inv2, of "(pid, False)"] nz by (simp add: cid_del_def cid_remove_process_def)
  ultimately show ?thesis
    by (simp add: cid_lookup_process_def cid_lookup_def cid_get_def split: option.splits)
qed

theorem cid_reinsert_count_drifts_witness:
  "\<exists>s1 s2. cid_insert_process 4096 7 cid_init = (s1, True) \<and> cid_insert_process 8192 7 s1 = (s2, True) \<and>
     CidHandleCount (cid_remove_process 7 s2) = 1"
proof -
  obtain s1 where r1: "cid_insert_process 4096 7 cid_init = (s1, True)"
    using cid_init_insert [of 7 4096 False] by (auto simp: cid_insert_process_def)
  have "cid_get s1 (7, False) = Some 4096"
    using cidt.put_get [OF cid_init_inv, of "(7, False)" 4096 s1] r1
    by (simp add: cid_put_def cid_insert_process_def)
  then obtain i where "cid_find_entry 7 False s1 = Some i" by (auto simp: cid_get_def)
  then obtain s2 where r2: "cid_insert_process 8192 7 s1 = (s2, True)"
    by (simp add: cid_insert_process_def cid_insert_def)
  have "CidHandleCount cid_init = 0" by (simp add: cid_init_def)
  from cid_reinsert_count_drifts [OF cid_init_inv this r1 r2] r1 r2 show ?thesis by blast
qed

end
