(* ===== verification/Process.thy ===== *)
theory Process
  imports Ob Cid
begin

text \<open>
  The process manager, \<open>src/ntos/ps/process.c\<close>, and the system-thread and inspection routines of
  \<open>src/ntos/ps/systhread.c\<close>.  \<open>eprocs\<close> and \<open>ethrs\<close> are the bodies of process and thread objects,
  by address, with the legacy fields and the mirrored NT fields of the structs of \<open>process.h\<close>
  (padding left out).  The entry routine of a system thread runs inline and is a parameter.
\<close>

record EPROCESS =
  ProcessId :: u32
  ThreadCount :: u32
  DirectoryTableBase :: u64
  ImageBase :: u64
  PML4 :: nat
  PExitStatus :: u32
  PTerminated :: bool
  ImageName :: string
  PThread :: nat
  PageFaultsCount :: u32
  UniqueProcessId :: u64
  ActiveProcessLinks :: "nat \<times> nat"
  InheritedFromUniqueProcessId :: u64
  Peb :: nat
  Wow64Process :: nat
  ImageFileName :: string
  ActiveThreads :: u32
  ObjectTable :: nat

record ETHREAD =
  ThreadId :: u32
  TProcess :: nat
  StartAddress :: u64
  StackBase :: u64
  StackTop :: u64
  TExitStatus :: u32
  TTerminated :: bool
  InitialStack :: u64
  StackLimit :: u64
  KernelStack :: u64
  TrapFrame :: nat
  CreateTime :: u64
  Cid_UniqueProcess :: u64
  Cid_UniqueThread :: u64
  ImpersonationInfo :: nat
  ThreadName :: nat

definition sizeof_EPROCESS :: u64 where "sizeof_EPROCESS = 0x800"
definition sizeof_ETHREAD :: u64 where "sizeof_ETHREAD = 0x800"

record ps_state =
  ps_ob :: ob_state
  ps_cid :: cid_state
  eprocs :: "nat \<Rightarrow> EPROCESS"
  ethrs :: "nat \<Rightarrow> ETHREAD"
  s_next_pid :: u32
  s_next_tid :: u32
  s_current_proc :: nat
  s_current_thr :: nat
  s_tid :: u32
  s_iter_now :: u32
  s_max_iter :: u32

text \<open>The bounded copy of a name, and the 15-byte image name padded with NULs.  \<open>None\<close> is the null
  pointer.\<close>

definition ps_copy_name :: "string option \<Rightarrow> nat \<Rightarrow> string" where
  "ps_copy_name src mx = (case src of None \<Rightarrow> [] | Some s \<Rightarrow> copy_name (mx - 1) s)"

definition copy_image_file_name :: "string option \<Rightarrow> string" where
  "copy_image_file_name src =
     (let cs = (case src of None \<Rightarrow> [] | Some s \<Rightarrow> take 15 s)
      in cs @ replicate (15 - length cs) (CHR 0x00))"

definition ps_init :: "ps_state \<Rightarrow> ps_state" where
  "ps_init s = s\<lparr>s_next_pid := 1, s_next_tid := 1, s_current_proc := 0, s_current_thr := 0\<rparr>"

definition PsCreateProcess :: "string option \<Rightarrow> u64 \<Rightarrow> u64 \<Rightarrow> ps_state \<Rightarrow> ps_state \<times> nat" where
  "PsCreateProcess image_name image_base dir_base s =
     (case ObCreateObject OB_TYPE_PROCESS sizeof_EPROCESS None (ps_ob s) of (ob, p) \<Rightarrow>
        if p = 0 then (s\<lparr>ps_ob := ob\<rparr>, 0)
        else
          (let pid = s_next_pid s;
               ep = \<lparr>ProcessId = pid, ThreadCount = 0, DirectoryTableBase = dir_base, ImageBase = image_base,
                     PML4 = 0, PExitStatus = 0, PTerminated = False, ImageName = ps_copy_name image_name 32,
                     PThread = 0, PageFaultsCount = 0, UniqueProcessId = ucast pid,
                     ActiveProcessLinks = (p + 0x448, p + 0x448), InheritedFromUniqueProcessId = 0,
                     Peb = 0, Wow64Process = 0, ImageFileName = copy_image_file_name image_name,
                     ActiveThreads = 0, ObjectTable = 0\<rparr>
           in (s\<lparr>ps_ob := ob, s_next_pid := s_next_pid s + 1, eprocs := (eprocs s)(p := ep),
                 ps_cid := fst (cid_insert_process p pid (ps_cid s))\<rparr>, p)))"

definition PsCreateThread :: "nat \<Rightarrow> u64 \<Rightarrow> u64 \<Rightarrow> u64 \<Rightarrow> ps_state \<Rightarrow> ps_state \<times> nat" where
  "PsCreateThread proc start stack_top stack_base s =
     (case ObCreateObject OB_TYPE_THREAD sizeof_ETHREAD None (ps_ob s) of (ob, t) \<Rightarrow>
        if t = 0 then (s\<lparr>ps_ob := ob\<rparr>, 0)
        else
          (let tid = s_next_tid s;
               et = \<lparr>ThreadId = tid, TProcess = proc, StartAddress = start, StackBase = stack_base,
                     StackTop = stack_top, TExitStatus = 0, TTerminated = False, InitialStack = stack_top,
                     StackLimit = stack_base, KernelStack = stack_top, TrapFrame = 0,
                     CreateTime = 132934176000000000,
                     Cid_UniqueProcess = (if proc \<noteq> 0 then ucast (ProcessId (eprocs s proc)) else 0),
                     Cid_UniqueThread = ucast tid, ImpersonationInfo = 0, ThreadName = 0\<rparr>;
               pr = eprocs s proc;
               eps = (if proc \<noteq> 0
                      then (eprocs s)(proc := pr\<lparr>ThreadCount := ThreadCount pr + 1,
                             ActiveThreads := ActiveThreads pr + 1,
                             PThread := (if PThread pr = 0 then t else PThread pr)\<rparr>)
                      else eprocs s)
           in (s\<lparr>ps_ob := ob, s_next_tid := s_next_tid s + 1, ethrs := (ethrs s)(t := et), eprocs := eps,
                 ps_cid := fst (cid_insert_thread t tid (ps_cid s))\<rparr>, t)))"

definition PsTerminateProcess :: "nat \<Rightarrow> u32 \<Rightarrow> ps_state \<Rightarrow> ps_state" where
  "PsTerminateProcess proc status s =
     (if proc = 0 then s
      else
        (let pr = (eprocs s proc)\<lparr>PTerminated := True, PExitStatus := status\<rparr>;
             t = PThread pr;
             s1 = (if t \<noteq> 0
                   then s\<lparr>ethrs := (ethrs s)(t := (ethrs s t)\<lparr>TTerminated := True, TExitStatus := status\<rparr>),
                          ps_cid := cid_remove_thread (ThreadId (ethrs s t)) (ps_cid s)\<rparr>
                   else s);
             pr1 = (if ActiveThreads pr \<noteq> 0 then pr\<lparr>ActiveThreads := ActiveThreads pr - 1\<rparr> else pr)
         in s1\<lparr>eprocs := (eprocs s)(proc := pr1),
               ps_cid := cid_remove_process (ProcessId pr1) (ps_cid s1)\<rparr>))"

definition PsGetCurrentProcess :: "ps_state \<Rightarrow> nat" where "PsGetCurrentProcess s = s_current_proc s"
definition PsGetCurrentThread :: "ps_state \<Rightarrow> nat" where "PsGetCurrentThread s = s_current_thr s"

definition ps_set_current :: "nat \<Rightarrow> nat \<Rightarrow> ps_state \<Rightarrow> ps_state" where
  "ps_set_current proc thr s = s\<lparr>s_current_proc := proc, s_current_thr := thr\<rparr>"

section \<open>System threads and inspection\<close>

definition systhread_set_max_iterations :: "u32 \<Rightarrow> ps_state \<Rightarrow> ps_state" where
  "systhread_set_max_iterations n s = s\<lparr>s_max_iter := n\<rparr>"

definition systhread_iteration_count :: "ps_state \<Rightarrow> u32" where
  "systhread_iteration_count s = s_iter_now s"

text \<open>The out parameters are the thread handle and the client id, returned with the status.  The start
  routine runs to its end inside the call.\<close>

definition PsCreateSystemThread_k ::
    "(u64 \<Rightarrow> ps_state \<Rightarrow> ps_state) option \<Rightarrow> u64 \<Rightarrow> ps_state \<Rightarrow> ps_state \<times> (u64 \<times> u64 \<times> u64) option \<times> NTSTATUS" where
  "PsCreateSystemThread_k StartRoutine StartContext s =
     (case StartRoutine of
        None \<Rightarrow> (s, None, STATUS_INVALID_PARAMETER)
      | Some f \<Rightarrow>
          (let tid = s_tid s + 1;
               s1 = s\<lparr>s_tid := tid, s_iter_now := 0\<rparr>
           in (f StartContext s1, Some (ucast tid, 1, ucast tid), STATUS_SUCCESS)))"

definition PsTerminateSystemThread_k :: "NTSTATUS \<Rightarrow> NTSTATUS" where
  "PsTerminateSystemThread_k ExitStatus = STATUS_SUCCESS"

definition PsGetCurrentThreadId_k :: "ps_state \<Rightarrow> u64" where
  "PsGetCurrentThreadId_k s =
     (let t = PsGetCurrentThread s in if t \<noteq> 0 then ucast (ThreadId (ethrs s t)) else 1)"

definition PsGetCurrentProcessId_k :: "ps_state \<Rightarrow> u64" where
  "PsGetCurrentProcessId_k s =
     (let p = PsGetCurrentProcess s in if p \<noteq> 0 then ucast (ProcessId (eprocs s p)) else 1)"

definition PsGetProcessId_k :: "nat \<Rightarrow> ps_state \<Rightarrow> u64" where
  "PsGetProcessId_k p s = (if p \<noteq> 0 then ucast (ProcessId (eprocs s p)) else 0)"

definition PsGetProcessImageFileName_k :: "nat \<Rightarrow> ps_state \<Rightarrow> string" where
  "PsGetProcessImageFileName_k p s =
     (if p \<noteq> 0 \<and> ImageName (eprocs s p) \<noteq> [] then ImageName (eprocs s p) else ''System'')"

definition PsGetProcessPeb_k :: "nat \<Rightarrow> ps_state \<Rightarrow> u64" where
  "PsGetProcessPeb_k p s = (if p \<noteq> 0 then ImageBase (eprocs s p) else 0)"

definition PsGetProcessExitStatus_k :: "nat \<Rightarrow> ps_state \<Rightarrow> NTSTATUS" where
  "PsGetProcessExitStatus_k p s = (if p \<noteq> 0 then PExitStatus (eprocs s p) else STATUS_SUCCESS)"

text \<open>The fall-back scan over the objects of a type.  The enumeration gives 0 past the last object,
  which bounds the loop.\<close>

lemma ob_enum_bound: "0 < ob_enum_by_type ty (int i) s \<Longrightarrow> i < nat (ob_count_by_type ty s)"
  using ob_enum_complete_lib [of ty s "int i"] by linarith

function ps_scan :: "(nat \<Rightarrow> bool) \<Rightarrow> u32 \<Rightarrow> ob_state \<Rightarrow> nat \<Rightarrow> nat" where
  "ps_scan match ty ob i =
     (let p = ob_enum_by_type ty (int i) ob in
      if p = 0 then 0 else if match p then p else ps_scan match ty ob (Suc i))"
  by pat_completeness auto
termination
  by (relation "measure (\<lambda>(m, ty, ob, i). nat (ob_count_by_type ty ob) - i)")
    (auto dest!: ob_enum_bound simp: diff_less_mono2)

declare ps_scan.simps [simp del]

definition PsLookupProcessByProcessId_k :: "u64 \<Rightarrow> ps_state \<Rightarrow> nat \<times> NTSTATUS" where
  "PsLookupProcessByProcessId_k ProcessId0 s =
     (let pid = (ucast ProcessId0 :: u32); hit = cid_lookup_process pid (ps_cid s) in
      if hit \<noteq> 0 then (hit, STATUS_SUCCESS)
      else
        (let p = ps_scan (\<lambda>p. ProcessId (eprocs s p) = pid) OB_TYPE_PROCESS (ps_ob s) 0 in
         if p \<noteq> 0 then (p, STATUS_SUCCESS) else (0, STATUS_OBJECT_NAME_NOT_FOUND)))"

definition PsLookupThreadByThreadId_k :: "u64 \<Rightarrow> ps_state \<Rightarrow> nat \<times> NTSTATUS" where
  "PsLookupThreadByThreadId_k ThreadId0 s =
     (let tid = (ucast ThreadId0 :: u32); hit = cid_lookup_thread tid (ps_cid s) in
      if hit \<noteq> 0 then (hit, STATUS_SUCCESS)
      else
        (let t = ps_scan (\<lambda>t. ThreadId (ethrs s t) = tid) OB_TYPE_THREAD (ps_ob s) 0 in
         if t \<noteq> 0 then (t, STATUS_SUCCESS) else (0, STATUS_OBJECT_NAME_NOT_FOUND)))"

section \<open>Processes stay findable\<close>

lemma ps_scan_spec:
  "ps_scan m ty ob i = (let xs = filter m (drop i (ob_of_type ty ob)) in if xs = [] then 0 else hd xs)"
proof (induction m ty ob i rule: ps_scan.induct)
  case (1 m ty ob i)
  have cnt: "ob_count_by_type ty ob = int (length (ob_of_type ty ob))"
    and enum: "ob_enum_by_type ty (int i) ob = (if int i < ob_count_by_type ty ob then ob_of_type ty ob ! i else 0)"
    and nz: "ob_enum_by_type ty (int i) ob = 0 \<longleftrightarrow> ob_count_by_type ty ob \<le> int i"
    using ob_enum_complete_lib [of ty ob "int i"] by auto
  show ?case
  proof (cases "i < length (ob_of_type ty ob)")
    case False
    then show ?thesis using nz cnt by (subst ps_scan.simps) simp
  next
    case True
    then have p: "ob_enum_by_type ty (int i) ob = ob_of_type ty ob ! i" "ob_of_type ty ob ! i \<noteq> 0"
      using enum nz cnt by simp_all
    have "drop i (ob_of_type ty ob) = ob_of_type ty ob ! i # drop (Suc i) (ob_of_type ty ob)"
      using True by (simp add: Cons_nth_drop_Suc)
    then show ?thesis
      using 1 [OF refl] p by (subst ps_scan.simps) (simp add: Let_def)
  qed
qed

definition ps_inv :: "ps_state \<Rightarrow> bool" where
  "ps_inv s \<longleftrightarrow> ob_inv (ps_ob s) \<and> cid_inv (ps_cid s) \<and> s_next_pid s \<noteq> 0 \<and>
     (\<forall>c v. cid_get (ps_cid s) (c, False) = Some v \<longrightarrow> unat c < unat (s_next_pid s))"

text \<open>C35: Creating a process gives it the next process id.  If the client-id table had room the new
  id resolves to the new process, no other id that was in use resolves differently, and the counter
  stays ahead of every id in the table, so that ids are never handed out twice.\<close>
theorem PsCreateProcess_correct:
  assumes "ps_inv s" "unat (s_next_pid s) < 2 ^ 32 - 1" "cid_find_free (ps_cid s) \<noteq> None"
    and "PsCreateProcess img base dir s = (s', p)" "p \<noteq> 0"
  shows "ProcessId (eprocs s' p) = s_next_pid s \<and> ps_inv s' \<and>
    PsLookupProcessByProcessId_k (ucast (s_next_pid s)) s' = (p, STATUS_SUCCESS) \<and>
    (\<forall>q. q \<noteq> s_next_pid s \<longrightarrow> cid_lookup_process q (ps_cid s') = cid_lookup_process q (ps_cid s)) \<and>
    (\<forall>t. cid_lookup_thread t (ps_cid s') = cid_lookup_thread t (ps_cid s))"
proof -
  let ?n = "s_next_pid s"
  have inv: "ob_inv (ps_ob s)" "cid_inv (ps_cid s)" "?n \<noteq> 0" using assms(1) by (simp_all add: ps_inv_def)
  obtain ob p' where cr: "ObCreateObject OB_TYPE_PROCESS sizeof_EPROCESS None (ps_ob s) = (ob, p')" by fastforce
  have p': "p' = p" using assms(4,5) cr by (auto simp: PsCreateProcess_def Let_def split: if_splits)
  have ob: "ob_inv ob" by (rule ob_inv_create [OF inv(1) _ cr]) (simp add: sizeof_EPROCESS_def)
  have out: "ProcessId (eprocs s' p) = ?n" "ps_ob s' = ob" "s_next_pid s' = ?n + 1"
      "ps_cid s' = fst (cid_insert_process p ?n (ps_cid s))"
    using assms(4,5) cr p' by (auto simp: PsCreateProcess_def Let_def)
  have "cid_get (ps_cid s) (?n, False) = None" using assms(1) by (auto simp: ps_inv_def)
  then have "cid_find_entry ?n False (ps_cid s) = None" by (simp add: cid_get_def)
  then obtain c where ins: "cid_insert_process p ?n (ps_cid s) = (c, True)"
    using assms(3,5) inv(3) by (auto simp: cid_insert_process_def cid_insert_def)
  then have put: "cid_put (?n, False) p (ps_cid s) = (c, True)" by (simp add: cid_put_def cid_insert_process_def)
  have key: "fst (?n, False) \<noteq> 0" using inv(3) by simp
  have c: "ps_cid s' = c" using out(4) ins by simp
  have get: "cid_get c = (cid_get (ps_cid s))((?n, False) \<mapsto> p)" by (rule cidt.put_ok [OF inv(2) key put])
  have cinv: "cid_inv c" by (rule cidt.put_inv [OF inv(2) key put])
  have look: "cid_lookup th k t = (case cid_get t (k, th) of None \<Rightarrow> 0 | Some v \<Rightarrow> v)" for th k t
    by (simp add: cid_lookup_def cid_get_def split: option.splits)
  have nxt: "unat (?n + 1) = unat ?n + 1" using assms(2) by (simp add: unat_word_ariths)
  then have "?n + 1 \<noteq> 0" by (metis add_is_0 one_neq_zero unsigned_0)
  then have "ps_inv s'"
    using assms(1) ob cinv by (auto simp: ps_inv_def out(2,3) c get nxt split: if_splits intro: less_SucI)
  moreover have "PsLookupProcessByProcessId_k (ucast ?n) s' = (p, STATUS_SUCCESS)"
  proof -
    have "ucast (ucast ?n :: u64) = ?n" by (rule bit_word_eqI) (simp add: bit_simps)
    then show ?thesis
      using assms(5) by (simp add: PsLookupProcessByProcessId_k_def cid_lookup_process_def look c get)
  qed
  ultimately show ?thesis using out(1)
    by (simp add: cid_lookup_process_def cid_lookup_thread_def look c get)
qed

definition ps_start :: ps_state where
  "ps_start = ps_init \<lparr>ps_ob = ob_start, ps_cid = cid_init, eprocs = (\<lambda>_. undefined), ethrs = (\<lambda>_. undefined),
     s_next_pid = 0, s_next_tid = 0, s_current_proc = 0, s_current_thr = 0, s_tid = 100, s_iter_now = 0, s_max_iter = 4\<rparr>"

lemma ps_start_inv: "ps_inv ps_start"
  using ob_start_inv cid_init_inv by (simp add: ps_inv_def ps_start_def ps_init_def cid_get_def)

lemma ps_start_create:
  "\<exists>s'. PsCreateProcess img base dir ps_start = (s', HEAP_BASE + 104) \<and> ps_ob s' \<noteq> ob_start \<and>
     s_all (ps_ob s') = [HEAP_BASE + 104] \<and> Type (HEADER (ps_ob s') (HEAP_BASE + 104)) = OB_TYPE_PROCESS \<and>
     ProcessId (eprocs s' (HEAP_BASE + 104)) = 1 \<and> PThread (eprocs s' (HEAP_BASE + 104)) = 0 \<and>
     s_next_pid ps_start = 1"
  by (simp add: PsCreateProcess_def ObCreateObject_def Let_def ps_start_def ps_init_def ob_start_def ob_init_def
      kmalloc_def heap_init_def heap_consts align16_unat ob_consts sizeof_EPROCESS_def)

lemma ps_start_free: "cid_find_free (ps_cid ps_start) \<noteq> None"
  using cid_init_insert [of 1 1 False]
  by (auto simp: ps_start_def ps_init_def cid_insert_def split: option.splits)

theorem PsCreateProcess_correct_witness:
  "\<exists>s' p. PsCreateProcess (Some ''cmd.exe'') 0 0 ps_start = (s', p) \<and> p \<noteq> 0 \<and>
     PsLookupProcessByProcessId_k 1 s' = (p, STATUS_SUCCESS)"
proof -
  obtain s' where run: "PsCreateProcess (Some ''cmd.exe'') 0 0 ps_start = (s', HEAP_BASE + 104)"
    and pid: "s_next_pid ps_start = 1" using ps_start_create [of "Some ''cmd.exe''" 0 0] by blast
  have "HEAP_BASE + 104 \<noteq> 0" "unat (s_next_pid ps_start) < 2 ^ 32 - 1" by (simp_all add: pid)
  from PsCreateProcess_correct [OF ps_start_inv this(2) ps_start_free run this(1)]
  have "PsLookupProcessByProcessId_k (ucast (1 :: u32)) s' = (HEAP_BASE + 104, STATUS_SUCCESS)"
    unfolding pid by blast
  with run \<open>HEAP_BASE + 104 \<noteq> 0\<close> show ?thesis by auto
qed

text \<open>Termination does not make a process unfindable: \<open>PsTerminateProcess\<close> takes the process out of the
  client-id table, but \<open>PsLookupProcessByProcessId\<close> then falls back to the list of all objects, from
  which nothing is ever removed, and reports success.\<close>
theorem ps_terminated_still_found:
  "\<exists>s' p. PsCreateProcess img base dir ps_start = (s', p) \<and> p \<noteq> 0 \<and>
     cid_lookup_process 1 (ps_cid (PsTerminateProcess p status s')) = 0 \<and>
     PTerminated (eprocs (PsTerminateProcess p status s') p) \<and>
     PsLookupProcessByProcessId_k 1 (PsTerminateProcess p status s') = (p, STATUS_SUCCESS)"
proof -
  let ?p = "HEAP_BASE + 104"
  obtain s' where run: "PsCreateProcess img base dir ps_start = (s', ?p)"
    and st: "s_all (ps_ob s') = [?p]" "Type (HEADER (ps_ob s') ?p) = OB_TYPE_PROCESS"
      "ProcessId (eprocs s' ?p) = 1" "PThread (eprocs s' ?p) = 0"
    using ps_start_create [of img base dir] by blast
  have nz: "?p \<noteq> 0" by simp
  have cid: "cid_inv (ps_cid s')"
  proof -
    have "ps_cid s' = fst (cid_insert_process ?p 1 cid_init)"
      using run by (auto simp: PsCreateProcess_def Let_def ps_start_def ps_init_def split: prod.splits if_splits)
    moreover obtain c where "cid_put (1, False) ?p cid_init = (c, True)"
      using cid_init_insert [of 1 ?p False] by (auto simp: cid_put_def)
    ultimately show ?thesis
      using cidt.put_inv [OF cid_init_inv, of "(1, False)" ?p c True]
      by (simp add: cid_put_def cid_insert_process_def)
  qed
  let ?t = "PsTerminateProcess ?p status s'"
  have t: "ps_cid ?t = cid_remove_process 1 (ps_cid s')" "ps_ob ?t = ps_ob s'"
      "ProcessId (eprocs ?t ?p) = 1" "PTerminated (eprocs ?t ?p)"
    using st nz by (simp_all add: PsTerminateProcess_def Let_def)
  have "cid_get (cid_remove_process 1 (ps_cid s')) (1, False) = None"
    using cidt.del_ok [OF cid, of "(1, False)"] by (simp add: cid_del_def cid_remove_process_def)
  then have gone: "cid_lookup_process 1 (ps_cid ?t) = 0"
    by (simp add: t cid_lookup_process_def cid_lookup_def cid_get_def split: option.splits)
  have "ob_of_type OB_TYPE_PROCESS (ps_ob ?t) = [?p]" using st nz by (simp add: ob_of_type_def t)
  then have "ps_scan (\<lambda>q. ProcessId (eprocs ?t q) = 1) OB_TYPE_PROCESS (ps_ob ?t) 0 = ?p"
    using t(3) by (simp add: ps_scan_spec)
  then have "PsLookupProcessByProcessId_k 1 ?t = (?p, STATUS_SUCCESS)"
    using gone nz by (simp add: PsLookupProcessByProcessId_k_def)
  with run gone t(4) nz show ?thesis by blast
qed

end
