(* ===== verification/Callbacks.thy ===== *)
theory Callbacks
  imports Prelude
begin

text \<open>
  The callback tables of \<open>src/ntos/ex/callbacks.c\<close>: six tables of 16 slots in which drivers
  register notification routines, and the routines that fire them.  A routine is known by its
  address.  Firing reads the table slot by slot while the callbacks run, so that a callback may
  register or remove callbacks: \<open>run\<close> is the effect of one call on the whole state, of which
  \<open>world\<close> is the part outside the tables.  The slots of the source's six struct types are one
  record; \<open>ctx\<close> is used by the registry table only.
\<close>

definition CB_MAX :: nat where "CB_MAX = 16"

record cb_slot =
  fn :: nat
  ctx :: nat
  used :: bool

record 'w cb_state =
  s_proc :: "cb_slot list"
  s_proc_ex :: "cb_slot list"
  s_thread :: "cb_slot list"
  s_image :: "cb_slot list"
  s_ob :: "cb_slot list"
  s_cm :: "cb_slot list"
  world :: 'w

text \<open>The parameters of a notification, one constructor per callback type of \<open>ntddk.h\<close>.\<close>

datatype cb_call =
  ProcessNotify nat u32 u32 bool
| ProcessNotifyEx nat u32 "u32 option"
| ThreadNotify nat u32 u32 bool
| ImageNotify nat u32
| RegistryNotify nat nat u32

definition clear_used :: "cb_slot list \<Rightarrow> cb_slot list" where
  "clear_used t = map (\<lambda>e. e\<lparr>used := False\<rparr>) t"

definition callbacks_init :: "'w cb_state \<Rightarrow> 'w cb_state" where
  "callbacks_init s = s\<lparr>s_proc := clear_used (s_proc s), s_proc_ex := clear_used (s_proc_ex s),
     s_thread := clear_used (s_thread s), s_image := clear_used (s_image s),
     s_ob := clear_used (s_ob s), s_cm := clear_used (s_cm s)\<rparr>"

text \<open>\<open>for (i...) if (!t[i].used) { fill slot i; return }\<close> and
  \<open>for (i...) if (t[i].used && t[i].fn == n) { t[i].used = 0; return }\<close>\<close>

definition cb_add :: "nat \<Rightarrow> nat \<Rightarrow> cb_slot list \<Rightarrow> (cb_slot list \<times> nat) option" where
  "cb_add f c t = (case find_idx (\<lambda>e. \<not> used e) t of
     None \<Rightarrow> None | Some i \<Rightarrow> Some (t[i := \<lparr>fn = f, ctx = c, used = True\<rparr>], i))"

definition cb_del :: "nat \<Rightarrow> cb_slot list \<Rightarrow> cb_slot list option" where
  "cb_del f t = (case find_idx (\<lambda>e. used e \<and> fn e = f) t of
     None \<Rightarrow> None | Some i \<Rightarrow> Some (t[i := (t ! i)\<lparr>used := False\<rparr>]))"

definition PsSetCreateProcessNotifyRoutine_k :: "nat \<Rightarrow> bool \<Rightarrow> 'w cb_state \<Rightarrow> 'w cb_state \<times> NTSTATUS" where
  "PsSetCreateProcessNotifyRoutine_k n Remove s =
     (if n = 0 then (s, STATUS_INVALID_PARAMETER)
      else if Remove then
        (case cb_del n (s_proc s) of None \<Rightarrow> (s, STATUS_NOT_IMPLEMENTED)
         | Some t \<Rightarrow> (s\<lparr>s_proc := t\<rparr>, STATUS_SUCCESS))
      else
        (case cb_add n 0 (s_proc s) of None \<Rightarrow> (s, STATUS_NO_MEMORY)
         | Some (t, i) \<Rightarrow> (s\<lparr>s_proc := t\<rparr>, STATUS_SUCCESS)))"

definition PsSetCreateProcessNotifyRoutineEx_k :: "nat \<Rightarrow> bool \<Rightarrow> 'w cb_state \<Rightarrow> 'w cb_state \<times> NTSTATUS" where
  "PsSetCreateProcessNotifyRoutineEx_k n Remove s =
     (if n = 0 then (s, STATUS_INVALID_PARAMETER)
      else if Remove then
        (case cb_del n (s_proc_ex s) of None \<Rightarrow> (s, STATUS_NOT_IMPLEMENTED)
         | Some t \<Rightarrow> (s\<lparr>s_proc_ex := t\<rparr>, STATUS_SUCCESS))
      else
        (case cb_add n 0 (s_proc_ex s) of None \<Rightarrow> (s, STATUS_NO_MEMORY)
         | Some (t, i) \<Rightarrow> (s\<lparr>s_proc_ex := t\<rparr>, STATUS_SUCCESS)))"

definition PsSetCreateThreadNotifyRoutine_k :: "nat \<Rightarrow> 'w cb_state \<Rightarrow> 'w cb_state \<times> NTSTATUS" where
  "PsSetCreateThreadNotifyRoutine_k n s =
     (if n = 0 then (s, STATUS_INVALID_PARAMETER)
      else case cb_add n 0 (s_thread s) of None \<Rightarrow> (s, STATUS_NO_MEMORY)
         | Some (t, i) \<Rightarrow> (s\<lparr>s_thread := t\<rparr>, STATUS_SUCCESS))"

definition PsRemoveCreateThreadNotifyRoutine_k :: "nat \<Rightarrow> 'w cb_state \<Rightarrow> 'w cb_state \<times> NTSTATUS" where
  "PsRemoveCreateThreadNotifyRoutine_k n s =
     (case cb_del n (s_thread s) of None \<Rightarrow> (s, STATUS_NOT_IMPLEMENTED)
      | Some t \<Rightarrow> (s\<lparr>s_thread := t\<rparr>, STATUS_SUCCESS))"

definition PsSetLoadImageNotifyRoutine_k :: "nat \<Rightarrow> 'w cb_state \<Rightarrow> 'w cb_state \<times> NTSTATUS" where
  "PsSetLoadImageNotifyRoutine_k n s =
     (if n = 0 then (s, STATUS_INVALID_PARAMETER)
      else case cb_add n 0 (s_image s) of None \<Rightarrow> (s, STATUS_NO_MEMORY)
         | Some (t, i) \<Rightarrow> (s\<lparr>s_image := t\<rparr>, STATUS_SUCCESS))"

definition PsRemoveLoadImageNotifyRoutine_k :: "nat \<Rightarrow> 'w cb_state \<Rightarrow> 'w cb_state \<times> NTSTATUS" where
  "PsRemoveLoadImageNotifyRoutine_k n s =
     (case cb_del n (s_image s) of None \<Rightarrow> (s, STATUS_NOT_IMPLEMENTED)
      | Some t \<Rightarrow> (s\<lparr>s_image := t\<rparr>, STATUS_SUCCESS))"

text \<open>The registration handle is an out parameter, \<open>False\<close> stands for a null pointer to it.\<close>

definition ObRegisterCallbacks_k :: "nat \<Rightarrow> bool \<Rightarrow> 'w cb_state \<Rightarrow> 'w cb_state \<times> u64 option \<times> NTSTATUS" where
  "ObRegisterCallbacks_k reg has_out s =
     (if reg = 0 \<or> \<not> has_out then (s, None, STATUS_INVALID_PARAMETER)
      else case cb_add reg 0 (s_ob s) of None \<Rightarrow> (s, None, STATUS_NO_MEMORY)
         | Some (t, i) \<Rightarrow> (s\<lparr>s_ob := t\<rparr>, Some (0xCB000000 OR of_nat i), STATUS_SUCCESS))"

definition ObUnRegisterCallbacks_k :: "u64 \<Rightarrow> 'w cb_state \<Rightarrow> 'w cb_state" where
  "ObUnRegisterCallbacks_k v s =
     (if v = 0 then s
      else if drop_bit 24 v \<noteq> 0xCB then s
      else
        (let i = unat (v AND 0xFFFFFF) in
         if i < CB_MAX then s\<lparr>s_ob := (s_ob s)[i := (s_ob s ! i)\<lparr>used := False\<rparr>]\<rparr> else s))"

definition CmRegisterCallback_k :: "nat \<Rightarrow> nat \<Rightarrow> bool \<Rightarrow> 'w cb_state \<Rightarrow> 'w cb_state \<times> u64 option \<times> NTSTATUS" where
  "CmRegisterCallback_k cb Context has_cookie s =
     (if cb = 0 \<or> \<not> has_cookie then (s, None, STATUS_INVALID_PARAMETER)
      else case cb_add cb Context (s_cm s) of None \<Rightarrow> (s, None, STATUS_NO_MEMORY)
         | Some (t, i) \<Rightarrow> (s\<lparr>s_cm := t\<rparr>, Some (0xCAF1000 OR of_nat i), STATUS_SUCCESS))"

definition CmRegisterCallbackEx_k :: "nat \<Rightarrow> nat \<Rightarrow> bool \<Rightarrow> 'w cb_state \<Rightarrow> 'w cb_state \<times> u64 option \<times> NTSTATUS" where
  "CmRegisterCallbackEx_k cb Context has_cookie s = CmRegisterCallback_k cb Context has_cookie s"

definition CmUnRegisterCallback_k :: "u64 \<Rightarrow> 'w cb_state \<Rightarrow> 'w cb_state \<times> NTSTATUS" where
  "CmUnRegisterCallback_k v s =
     (if drop_bit 16 v \<noteq> 0xCAF1 then (s, STATUS_INVALID_PARAMETER)
      else
        (let i = unat (v AND 0xFFFF) in
         if i < CB_MAX \<and> used (s_cm s ! i)
         then (s\<lparr>s_cm := (s_cm s)[i := (s_cm s ! i)\<lparr>used := False\<rparr>]\<rparr>, STATUS_SUCCESS)
         else (s, STATUS_INVALID_PARAMETER)))"

definition ExRegisterCallback_k :: "nat \<Rightarrow> nat \<Rightarrow> 'w cb_state \<Rightarrow> 'w cb_state \<times> u64" where
  "ExRegisterCallback_k cb Context s =
     (case cb_add cb Context (s_cm s) of None \<Rightarrow> (s, 0)
      | Some (t, i) \<Rightarrow> (s\<lparr>s_cm := t\<rparr>, 0xE0000000 OR of_nat i))"

definition ExUnregisterCallback_k :: "u64 \<Rightarrow> 'w cb_state \<Rightarrow> 'w cb_state" where
  "ExUnregisterCallback_k v s =
     (if drop_bit 28 v \<noteq> 0xE then s
      else
        (let i = unat (v AND 0xFFFFFF) in
         if i < CB_MAX then s\<lparr>s_cm := (s_cm s)[i := (s_cm s ! i)\<lparr>used := False\<rparr>]\<rparr> else s))"

section \<open>Firing\<close>

text \<open>\<open>for (i = 0; i < CB_MAX; i++) if (t[i].used && t[i].fn) t[i].fn(...);\<close> with the slots from \<open>i\<close>
  on, \<open>n\<close> of them, still to be visited.\<close>

fun fire_from :: "('w cb_state \<Rightarrow> cb_slot list) \<Rightarrow> (cb_slot \<Rightarrow> cb_call) \<Rightarrow>
    (cb_call \<Rightarrow> 'w cb_state \<Rightarrow> 'w cb_state) \<Rightarrow> nat \<Rightarrow> nat \<Rightarrow> 'w cb_state \<Rightarrow> 'w cb_state" where
  "fire_from tab mk run i 0 s = s"
| "fire_from tab mk run i (Suc n) s =
     (let e = tab s ! i
      in fire_from tab mk run (Suc i) n (if used e \<and> fn e \<noteq> 0 then run (mk e) s else s))"

definition callbacks_fire_process_create ::
    "(cb_call \<Rightarrow> 'w cb_state \<Rightarrow> 'w cb_state) \<Rightarrow> u32 \<Rightarrow> u32 \<Rightarrow> bool \<Rightarrow> 'w cb_state \<Rightarrow> 'w cb_state" where
  "callbacks_fire_process_create run parent_pid pid create s =
     (let s1 = fire_from s_proc (\<lambda>e. ProcessNotify (fn e) parent_pid pid create) run 0 CB_MAX s
      in if create
         then fire_from s_proc_ex (\<lambda>e. ProcessNotifyEx (fn e) pid (Some parent_pid)) run 0 CB_MAX s1
         else fire_from s_proc_ex (\<lambda>e. ProcessNotifyEx (fn e) pid None) run 0 CB_MAX s1)"

definition callbacks_fire_thread_create ::
    "(cb_call \<Rightarrow> 'w cb_state \<Rightarrow> 'w cb_state) \<Rightarrow> u32 \<Rightarrow> u32 \<Rightarrow> bool \<Rightarrow> 'w cb_state \<Rightarrow> 'w cb_state" where
  "callbacks_fire_thread_create run pid tid create s =
     fire_from s_thread (\<lambda>e. ThreadNotify (fn e) pid tid create) run 0 CB_MAX s"

definition callbacks_fire_image_load ::
    "(cb_call \<Rightarrow> 'w cb_state \<Rightarrow> 'w cb_state) \<Rightarrow> u32 \<Rightarrow> 'w cb_state \<Rightarrow> 'w cb_state" where
  "callbacks_fire_image_load run pid s =
     fire_from s_image (\<lambda>e. ImageNotify (fn e) pid) run 0 CB_MAX s"

definition callbacks_fire_registry_op ::
    "(cb_call \<Rightarrow> 'w cb_state \<Rightarrow> 'w cb_state) \<Rightarrow> u32 \<Rightarrow> 'w cb_state \<Rightarrow> 'w cb_state" where
  "callbacks_fire_registry_op run op s =
     fire_from s_cm (\<lambda>e. RegistryNotify (fn e) (ctx e) op) run 0 CB_MAX s"

definition count_used :: "cb_slot list \<Rightarrow> nat" where
  "count_used t = length (filter used t)"

definition callbacks_count_process :: "'w cb_state \<Rightarrow> nat" where
  "callbacks_count_process s = count_used (s_proc s) + count_used (s_proc_ex s)"
definition callbacks_count_thread :: "'w cb_state \<Rightarrow> nat" where
  "callbacks_count_thread s = count_used (s_thread s)"
definition callbacks_count_image :: "'w cb_state \<Rightarrow> nat" where
  "callbacks_count_image s = count_used (s_image s)"
definition callbacks_count_ob :: "'w cb_state \<Rightarrow> nat" where
  "callbacks_count_ob s = count_used (s_ob s)"
definition callbacks_count_cm :: "'w cb_state \<Rightarrow> nat" where
  "callbacks_count_cm s = count_used (s_cm s)"

section \<open>What is registered is what fires\<close>

text \<open>The callbacks that a table fires, in slot order.\<close>

definition cb_live :: "cb_slot list \<Rightarrow> cb_slot list" where
  "cb_live t = filter (\<lambda>e. used e \<and> fn e \<noteq> 0) t"

text \<open>Callbacks that only append to a trace outside the tables.\<close>

definition trace_call :: "cb_call \<Rightarrow> cb_call list cb_state \<Rightarrow> cb_call list cb_state" where
  "trace_call c s = s\<lparr>world := world s @ [c]\<rparr>"

lemma fire_from_trace:
  assumes "\<And>w. tab (s\<lparr>world := w\<rparr>) = tab s" "i + n = length (tab s)"
  shows "fire_from tab mk trace_call i n s = s\<lparr>world := world s @ map mk (cb_live (drop i (tab s)))\<rparr>"
  using assms
proof (induction n arbitrary: i s)
  case 0
  then show ?case by (simp add: cb_live_def)
next
  case (Suc n)
  have d: "drop i (tab s) = tab s ! i # drop (Suc i) (tab s)" using Suc.prems(2) by (simp add: Cons_nth_drop_Suc)
  define s1 where "s1 = (if used (tab s ! i) \<and> fn (tab s ! i) \<noteq> 0 then trace_call (mk (tab s ! i)) s else s)"
  have t1: "tab s1 = tab s" using Suc.prems(1) by (simp add: s1_def trace_call_def)
  have "fire_from tab mk trace_call (Suc i) n s1 = s1\<lparr>world := world s1 @ map mk (cb_live (drop (Suc i) (tab s1)))\<rparr>"
  proof (rule Suc.IH)
    show "tab (s1\<lparr>world := w\<rparr>) = tab s1" for w
      using Suc.prems(1) by (simp add: s1_def trace_call_def)
    show "Suc i + n = length (tab s1)" using Suc.prems(2) t1 by simp
  qed
  moreover have "fire_from tab mk trace_call i (Suc n) s = fire_from tab mk trace_call (Suc i) n s1"
    by (simp add: Let_def s1_def)
  moreover have "s1\<lparr>world := world s1 @ map mk (cb_live (drop (Suc i) (tab s)))\<rparr> =
      s\<lparr>world := world s @ map mk (cb_live (drop i (tab s)))\<rparr>"
    by (simp add: s1_def trace_call_def d cb_live_def)
  ultimately show ?case by (simp add: t1)
qed

text \<open>A process creation event calls every registered routine exactly once, in slot order, the
  plain routines before the extended ones, with the identifiers of the event; an exit event passes
  the extended routines no creation record.\<close>
theorem fire_process_calls_registered:
  assumes "length (s_proc s) = CB_MAX" "length (s_proc_ex s) = CB_MAX"
  shows "callbacks_fire_process_create trace_call ppid pid create s =
    s\<lparr>world := world s @
      map (\<lambda>e. ProcessNotify (fn e) ppid pid create) (cb_live (s_proc s)) @
      map (\<lambda>e. ProcessNotifyEx (fn e) pid (if create then Some ppid else None)) (cb_live (s_proc_ex s))\<rparr>"
proof -
  have 1: "fire_from s_proc mk trace_call 0 CB_MAX s = s\<lparr>world := world s @ map mk (cb_live (s_proc s))\<rparr>" for mk
    using fire_from_trace [of s_proc s 0 CB_MAX mk] assms(1) by simp
  have 2: "fire_from s_proc_ex mk trace_call 0 CB_MAX (s\<lparr>world := w\<rparr>) =
      s\<lparr>world := w @ map mk (cb_live (s_proc_ex s))\<rparr>" for mk w
    using fire_from_trace [of s_proc_ex "s\<lparr>world := w\<rparr>" 0 CB_MAX mk] assms(2) by simp
  show ?thesis by (simp add: callbacks_fire_process_create_def Let_def 1 2)
qed

definition cb_empty :: "'w \<Rightarrow> 'w cb_state" where
  "cb_empty w = (let t = replicate CB_MAX \<lparr>fn = 0, ctx = 0, used = False\<rparr>
     in \<lparr>s_proc = t, s_proc_ex = t, s_thread = t, s_image = t, s_ob = t, s_cm = t, world = w\<rparr>)"

theorem fire_process_calls_registered_witness:
  "world (callbacks_fire_process_create trace_call 4 8 True
     (fst (PsSetCreateProcessNotifyRoutine_k 77 False (cb_empty [])))) = [ProcessNotify 77 4 8 True]"
proof -
  let ?s = "fst (PsSetCreateProcessNotifyRoutine_k 77 False (cb_empty ([] :: cb_call list)))"
  have p: "s_proc ?s = \<lparr>fn = 77, ctx = 0, used = True\<rparr> # replicate 15 \<lparr>fn = 0, ctx = 0, used = False\<rparr>"
    "s_proc_ex ?s = replicate 16 \<lparr>fn = 0, ctx = 0, used = False\<rparr>" "world ?s = []"
    by (simp_all add: PsSetCreateProcessNotifyRoutine_k_def cb_add_def cb_empty_def CB_MAX_def Let_def
        numeral_eq_Suc)
  have "length (s_proc ?s) = CB_MAX" unfolding p(1) by (simp add: CB_MAX_def)
  moreover have "length (s_proc_ex ?s) = CB_MAX" unfolding p(2) by (simp add: CB_MAX_def)
  ultimately
  have "callbacks_fire_process_create trace_call 4 8 True ?s = ?s\<lparr>world := world ?s @
      map (\<lambda>e. ProcessNotify (fn e) 4 8 True) (cb_live (s_proc ?s)) @
      map (\<lambda>e. ProcessNotifyEx (fn e) 8 (if True then Some 4 else None)) (cb_live (s_proc_ex ?s))\<rparr>"
    by (rule fire_process_calls_registered)
  then show ?thesis unfolding p by (simp add: cb_live_def)
qed

text \<open>A registry callback can never be unregistered: whatever cookie \<open>CmRegisterCallback\<close> hands out,
  \<open>CmUnRegisterCallback\<close> rejects it with \<open>STATUS_INVALID_PARAMETER\<close> and leaves the callback
  registered (the cookies are made from \<open>0xCAF1000\<close>, the check expects \<open>0xCAF1\<close> above bit 16).\<close>
theorem cm_unregister_always_fails:
  assumes "length (s_cm s) = CB_MAX" "CmRegisterCallback_k cb c True s = (s1, Some cookie, st)"
  shows "CmUnRegisterCallback_k cookie s2 = (s2, STATUS_INVALID_PARAMETER)"
proof -
  obtain i t where i: "cb_add cb c (s_cm s) = Some (t, i)" "cookie = 0xCAF1000 OR of_nat i"
    using assms(2) by (auto simp: CmRegisterCallback_k_def split: if_splits option.splits prod.splits)
  then have "i < CB_MAX" using assms(1) by (auto simp: cb_add_def split: option.splits dest: find_idx_SomeD)
  then have small: "i < 2 ^ 4" by (simp add: CB_MAX_def)
  have "drop_bit 16 cookie = drop_bit 16 0xCAF1000 OR drop_bit 16 (of_nat i :: u64)"
    unfolding i(2) by (rule bit_word_eqI) (auto simp: bit_simps)
  also have "drop_bit 16 (of_nat i :: u64) = 0"
    using small by (simp add: drop_bit_eq_div word_unat_eq_iff unat_div unat_of_nat_small)
  finally have "drop_bit 16 cookie = 0xCAF" by simp
  then show ?thesis by (simp add: CmUnRegisterCallback_k_def)
qed

theorem cm_unregister_always_fails_witness:
  "\<exists>s1 cookie. CmRegisterCallback_k 77 0 True (cb_empty ()) = (s1, Some cookie, STATUS_SUCCESS) \<and>
     CmUnRegisterCallback_k cookie s1 = (s1, STATUS_INVALID_PARAMETER)"
proof -
  have "length (s_cm (cb_empty ())) = CB_MAX" by (simp add: cb_empty_def Let_def)
  moreover have "\<exists>s1 cookie. CmRegisterCallback_k 77 0 True (cb_empty ()) = (s1, Some cookie, STATUS_SUCCESS)"
    by (simp add: CmRegisterCallback_k_def cb_add_def cb_empty_def CB_MAX_def Let_def numeral_eq_Suc)
  ultimately show ?thesis using cm_unregister_always_fails [of "cb_empty ()" 77 0] by blast
qed

end
