(* ===== verification/Sched.thy ===== *)
theory Sched
  imports Heap "HOL-Library.Multiset"
begin

text \<open>
  The preemptive scheduler, \<open>src/ntos/ke/sched.c\<close>: threads known by their address, one
  control block per CPU with the running thread, the idle thread and the ready queue, a global wait
  list, and the context switch of \<open>sched_asm.asm\<close> as an exchange of stack pointers.  The
  intrusive doubly linked lists are lists of thread addresses; the invariant shows that a thread is
  linked at most once, which is what the pointer manipulation relies on.  \<open>ready_head\<close> is
  \<open>None\<close> until \<open>ki_init_processor\<close> has made it a list, and inserting into it then
  is an access through a null pointer, the result \<open>None\<close>.  The APIC id of the executing CPU is an
  argument; the dispatcher lock and the interrupt flag delimit the atomic steps and have no state.
\<close>

datatype ki_thread_state_t =
  KI_THREAD_NEW | KI_THREAD_READY | KI_THREAD_RUNNING | KI_THREAD_WAITING | KI_THREAD_TERMINATED

record ki_thread_t =
  saved_rsp :: u64
  tstate :: ki_thread_state_t
  priority :: int
  cpu_affinity :: int
  cpu_current :: int
  tid :: u32
  stack_base :: nat
  stack_size :: u64
  tentry :: nat
  targ :: nat
  wait_object :: nat
  quantum :: int
  is_ring3 :: bool
  user_teb :: u64
  kstack_top :: u64

record ki_prcb_t =
  current_thread :: nat
  idle_thread :: nat
  ready_head :: "nat list option"
  apic_id :: u32
  cpu_index :: nat
  online :: bool

definition MAX_CPUS :: nat where "MAX_CPUS = 8"
definition STACK_BYTES :: nat where "STACK_BYTES = 16384"
definition s_quantum_default :: int where "s_quantum_default = 4"
definition sizeof_ki_thread_t :: u64 where "sizeof_ki_thread_t = 160"

record sched_state =
  threads :: "nat \<Rightarrow> ki_thread_t"
  g_ki_prcb :: "nat \<Rightarrow> ki_prcb_t"
  g_ki_cpu_count :: nat
  g_ring3_active :: bool
  g_p4_active :: bool
  s_wait_list :: "nat list"
  s_apic_to_cpu :: "nat \<Rightarrow> nat"
  s_idle_pool :: "nat \<Rightarrow> nat"
  s_next_tid :: u32
  s_rr_cpu :: u32
  sheap :: heap
  stack_mem :: "nat \<Rightarrow> u64"
  cpu_rsp :: u64
  tss_rsp0 :: u64
  gs_base :: u64
  kpcr_addr :: u64

definition ki_current_cpu_index :: "u32 \<Rightarrow> sched_state \<Rightarrow> nat" where
  "ki_current_cpu_index aid s = s_apic_to_cpu s (unat (aid AND 0xFF))"

definition ki_current_thread :: "u32 \<Rightarrow> sched_state \<Rightarrow> nat" where
  "ki_current_thread aid s = current_thread (g_ki_prcb s (ki_current_cpu_index aid s))"

definition upd_thread :: "nat \<Rightarrow> (ki_thread_t \<Rightarrow> ki_thread_t) \<Rightarrow> sched_state \<Rightarrow> sched_state" where
  "upd_thread t f s = s\<lparr>threads := (threads s)(t := f (threads s t))\<rparr>"

definition upd_prcb :: "nat \<Rightarrow> (ki_prcb_t \<Rightarrow> ki_prcb_t) \<Rightarrow> sched_state \<Rightarrow> sched_state" where
  "upd_prcb c f s = s\<lparr>g_ki_prcb := (g_ki_prcb s)(c := f (g_ki_prcb s c))\<rparr>"

definition ki_init_processor :: "nat \<Rightarrow> u32 \<Rightarrow> sched_state \<Rightarrow> sched_state" where
  "ki_init_processor ci aid s =
     (if ci \<ge> MAX_CPUS then s
      else
        (let idle = s_idle_pool s ci;
             s1 = s\<lparr>s_apic_to_cpu := (s_apic_to_cpu s)(unat (aid AND 0xFF) := ci),
                    s_wait_list := (if ci = 0 then [] else s_wait_list s),
                    g_ki_cpu_count := g_ki_cpu_count s + 1\<rparr>;
             s2 = upd_thread idle (\<lambda>_. \<lparr>saved_rsp = 0, tstate = KI_THREAD_RUNNING, priority = 0,
                    cpu_affinity = int ci, cpu_current = int ci, tid = 0, stack_base = 0, stack_size = 0,
                    tentry = 0, targ = 0, wait_object = 0, quantum = s_quantum_default, is_ring3 = False,
                    user_teb = 0, kstack_top = tss_rsp0 s\<rparr>) s1
         in upd_prcb ci (\<lambda>p. p\<lparr>apic_id := aid, cpu_index := ci, online := True, ready_head := Some [],
              idle_thread := idle, current_thread := idle\<rparr>) s2))"

text \<open>The initial switch frame: six zeroed callee-saved registers under the address of the startup
  stub.  The first thread id handed out is 101.\<close>

definition ki_create_thread :: "nat \<Rightarrow> nat \<Rightarrow> int \<Rightarrow> int \<Rightarrow> u64 \<Rightarrow> sched_state \<Rightarrow> sched_state option \<times> nat" where
  "ki_create_thread entry arg prio affinity startup_asm s =
     (case kmalloc sizeof_ki_thread_t (sheap s) of (h1, t) \<Rightarrow>
        if t = 0 then (Some (s\<lparr>sheap := h1\<rparr>), 0)
        else case kmalloc (of_nat STACK_BYTES) h1 of (h2, stack) \<Rightarrow>
          if stack = 0 then (map_option (\<lambda>h. s\<lparr>sheap := h\<rparr>) (kfree t h2), 0)
          else
            (let tp = (of_nat (stack + STACK_BYTES) :: u64) AND NOT 0xF;
                 n = unat tp;
                 mem0 = (\<lambda>a. if stack \<le> a \<and> a < stack + STACK_BYTES then 0 else stack_mem s a);
                 mem1 = mem0(n - 8 := startup_asm, n - 16 := 0, n - 24 := 0, n - 32 := 0,
                             n - 40 := 0, n - 48 := 0, n - 56 := 0)
             in (Some (s\<lparr>sheap := h2, stack_mem := mem1, s_next_tid := s_next_tid s + 1,
                   threads := (threads s)(t := \<lparr>saved_rsp = tp - 56, tstate = KI_THREAD_NEW, priority = prio,
                     cpu_affinity = affinity, cpu_current = -1, tid = s_next_tid s + 1, stack_base = stack,
                     stack_size = of_nat STACK_BYTES, tentry = entry, targ = arg, wait_object = 0,
                     quantum = s_quantum_default, is_ring3 = False, user_teb = 0, kstack_top = tp\<rparr>)\<rparr>), t)))"

text \<open>The round-robin choice: the first online CPU among \<open>n\<close> consecutive indices from \<open>pick\<close>.\<close>

fun ki_rr_find :: "sched_state \<Rightarrow> u32 \<Rightarrow> nat \<Rightarrow> nat \<Rightarrow> nat option" where
  "ki_rr_find s pick i 0 = None"
| "ki_rr_find s pick i (Suc n) =
     (let idx = unat ((pick + of_nat i) mod of_nat MAX_CPUS)
      in if online (g_ki_prcb s idx) then Some idx else ki_rr_find s pick (Suc i) n)"

definition ki_ready_insert :: "nat \<Rightarrow> nat \<Rightarrow> sched_state \<Rightarrow> sched_state option" where
  "ki_ready_insert c t s =
     (case ready_head (g_ki_prcb s c) of
        None \<Rightarrow> None
      | Some q \<Rightarrow> Some (upd_prcb c (\<lambda>p. p\<lparr>ready_head := Some (q @ [t])\<rparr>) s))"

definition ki_ready_thread :: "nat \<Rightarrow> sched_state \<Rightarrow> sched_state option" where
  "ki_ready_thread t s =
     (if t = 0 then Some s
      else
        (let a = cpu_affinity (threads s t);
             (c, s1) = (if a < 0 \<or> a \<ge> int MAX_CPUS
               then (case ki_rr_find s (s_rr_cpu s) 0 (g_ki_cpu_count s) of None \<Rightarrow> 0 | Some i \<Rightarrow> i,
                     s\<lparr>s_rr_cpu := s_rr_cpu s + 1\<rparr>)
               else (nat a, s));
             s2 = upd_thread t (\<lambda>x. x\<lparr>cpu_current := int c, tstate := KI_THREAD_READY\<rparr>) s1
         in ki_ready_insert c t s2))"

definition ki_pick_next_locked :: "nat \<Rightarrow> sched_state \<Rightarrow> (sched_state \<times> nat) option" where
  "ki_pick_next_locked c s =
     (case ready_head (g_ki_prcb s c) of
        None \<Rightarrow> None
      | Some [] \<Rightarrow> Some (s, idle_thread (g_ki_prcb s c))
      | Some (t # q) \<Rightarrow> Some (upd_prcb c (\<lambda>p. p\<lparr>ready_head := Some q\<rparr>) s, t))"

text \<open>\<open>ki_swap_context\<close>: six registers are pushed on the outgoing stack, its pointer saved, and the
  incoming stack popped of six registers and a return address.\<close>

definition ki_swap_context :: "nat \<Rightarrow> u64 \<Rightarrow> sched_state \<Rightarrow> sched_state" where
  "ki_swap_context cur next_rsp s =
     (upd_thread cur (\<lambda>x. x\<lparr>saved_rsp := cpu_rsp s - 48\<rparr>) s)\<lparr>cpu_rsp := next_rsp + 56\<rparr>"

definition ki_dispatch :: "nat \<Rightarrow> nat \<Rightarrow> sched_state \<Rightarrow> sched_state" where
  "ki_dispatch c nxt s =
     upd_prcb c (\<lambda>p. p\<lparr>current_thread := nxt\<rparr>)
       (upd_thread nxt (\<lambda>x. x\<lparr>tstate := KI_THREAD_RUNNING, cpu_current := int c\<rparr>) s)"

text \<open>The per-thread kernel stack and \<open>gs\<close> base, programmed on CPU 0 once a ring-3 thread exists.\<close>

definition ki_program_ring3 :: "nat \<Rightarrow> nat \<Rightarrow> sched_state \<Rightarrow> sched_state" where
  "ki_program_ring3 c nxt s =
     (if g_ring3_active s \<and> c = 0
      then s\<lparr>tss_rsp0 := kstack_top (threads s nxt),
             gs_base := (if is_ring3 (threads s nxt) then user_teb (threads s nxt) else kpcr_addr s)\<rparr>
      else s)"

text \<open>The second half of \<open>ki_quantum_end\<close>: from the requeueing of the current thread on.\<close>

definition ki_switch_to :: "nat \<Rightarrow> nat \<Rightarrow> bool \<Rightarrow> nat \<Rightarrow> sched_state \<Rightarrow> sched_state option" where
  "ki_switch_to c cur is_idle nxt s =
     (let st = tstate (threads s cur);
          r = (if st \<noteq> KI_THREAD_TERMINATED \<and> st \<noteq> KI_THREAD_WAITING
               then ki_ready_insert c cur
                 (if is_idle then s else upd_thread cur (\<lambda>x. x\<lparr>tstate := KI_THREAD_READY\<rparr>) s)
               else Some s)
      in case r of
           None \<Rightarrow> None
         | Some s3 \<Rightarrow>
             (let s5 = ki_program_ring3 c nxt (ki_dispatch c nxt s3)
              in Some (ki_swap_context cur (saved_rsp (threads s5 nxt)) s5)))"

definition ki_quantum_end :: "u32 \<Rightarrow> sched_state \<Rightarrow> sched_state option" where
  "ki_quantum_end aid s =
     (let c = ki_current_cpu_index aid s; p = g_ki_prcb s c in
      if \<not> online p then Some s
      else
        (let cur = (if current_thread p = 0 then idle_thread p else current_thread p);
             is_idle = (cur = idle_thread p);
             qn = quantum (threads s cur) - 1;
             (do_swap, s1) = (if is_idle then (True, s)
               else if qn \<le> 0 then (True, upd_thread cur (\<lambda>x. x\<lparr>quantum := s_quantum_default\<rparr>) s)
               else (False, upd_thread cur (\<lambda>x. x\<lparr>quantum := qn\<rparr>) s))
         in if \<not> do_swap then Some s1
            else case ki_pick_next_locked c s1 of
              None \<Rightarrow> None
            | Some (s2, nxt) \<Rightarrow> if nxt = cur then Some s2 else ki_switch_to c cur is_idle nxt s2))"

definition ki_yield_processor :: "u32 \<Rightarrow> sched_state \<Rightarrow> sched_state option" where
  "ki_yield_processor aid s =
     (let cur = ki_current_thread aid s
      in ki_quantum_end aid (if cur \<noteq> 0 then upd_thread cur (\<lambda>x. x\<lparr>quantum := 0\<rparr>) s else s))"

definition ki_ipi_reschedule :: "u32 \<Rightarrow> sched_state \<Rightarrow> sched_state option" where
  "ki_ipi_reschedule aid s =
     (let cur = ki_current_thread aid s
      in ki_quantum_end aid (if cur \<noteq> 0 then upd_thread cur (\<lambda>x. x\<lparr>quantum := 0\<rparr>) s else s))"

definition ki_can_block :: "u32 \<Rightarrow> sched_state \<Rightarrow> bool" where
  "ki_can_block aid s =
     (g_p4_active s \<and>
      (let p = g_ki_prcb s (ki_current_cpu_index aid s)
       in current_thread p \<noteq> 0 \<and> current_thread p \<noteq> idle_thread p))"

definition ki_block_current :: "u32 \<Rightarrow> nat \<Rightarrow> sched_state \<Rightarrow> sched_state" where
  "ki_block_current aid obj s =
     (let cur = ki_current_thread aid s in
      if cur = 0 then s
      else (upd_thread cur (\<lambda>x. x\<lparr>wait_object := obj, tstate := KI_THREAD_WAITING\<rparr>) s)
             \<lparr>s_wait_list := s_wait_list s @ [cur]\<rparr>)"

text \<open>The scan of the wait list: the threads taken, at most 16 in all and one unless \<open>wake_all\<close>, and
  the list that is left.\<close>

fun ki_wake_scan :: "(nat \<Rightarrow> ki_thread_t) \<Rightarrow> nat \<Rightarrow> bool \<Rightarrow> nat \<Rightarrow> nat list \<Rightarrow> nat list \<times> nat list" where
  "ki_wake_scan th obj wake_all n [] = ([], [])"
| "ki_wake_scan th obj wake_all n (t # ts) =
     (if n \<ge> 16 then ([], t # ts)
      else if wait_object (th t) = obj then
        (if \<not> wake_all then ([t], ts)
         else case ki_wake_scan th obj wake_all (Suc n) ts of (b, r) \<Rightarrow> (t # b, r))
      else case ki_wake_scan th obj wake_all n ts of (b, r) \<Rightarrow> (b, t # r))"

fun ki_ready_all :: "nat list \<Rightarrow> sched_state \<Rightarrow> sched_state option" where
  "ki_ready_all [] s = Some s"
| "ki_ready_all (t # ts) s = (case ki_ready_thread t s of None \<Rightarrow> None | Some s1 \<Rightarrow> ki_ready_all ts s1)"

definition ki_wake :: "nat \<Rightarrow> bool \<Rightarrow> sched_state \<Rightarrow> (sched_state \<times> nat) option" where
  "ki_wake obj wake_all s =
     (case ki_wake_scan (threads s) obj wake_all 0 (s_wait_list s) of (batch, rest) \<Rightarrow>
        map_option (\<lambda>s'. (s', length batch))
          (ki_ready_all batch
            (s\<lparr>s_wait_list := rest,
               threads := (\<lambda>t. if t \<in> set batch then (threads s t)\<lparr>wait_object := 0\<rparr> else threads s t)\<rparr>)))"

definition ki_mark_current_ring3 :: "u32 \<Rightarrow> u64 \<Rightarrow> sched_state \<Rightarrow> sched_state" where
  "ki_mark_current_ring3 aid teb s =
     (let cur = ki_current_thread aid s in
      if cur = 0 then s
      else (upd_thread cur (\<lambda>x. x\<lparr>is_ring3 := True, user_teb := teb,
              kstack_top := (if kstack_top x = 0 then tss_rsp0 s else kstack_top x)\<rparr>) s)\<lparr>g_ring3_active := True\<rparr>)"

definition ki_thread_is_terminated :: "nat \<Rightarrow> sched_state \<Rightarrow> bool" where
  "ki_thread_is_terminated t s \<longleftrightarrow> t = 0 \<or> tstate (threads s t) = KI_THREAD_TERMINATED"

text \<open>The exit path up to the first yield; a terminated thread is not queued again, so the loop
  around the yield is not entered a second time.\<close>

definition ki_ring3_thread_exit :: "u32 \<Rightarrow> sched_state \<Rightarrow> sched_state option" where
  "ki_ring3_thread_exit aid s =
     (let cur = ki_current_thread aid s in
      if cur = 0 then ki_yield_processor aid s
      else case ki_wake cur True (upd_thread cur (\<lambda>x. x\<lparr>tstate := KI_THREAD_TERMINATED\<rparr>) s) of
             None \<Rightarrow> None
           | Some (s1, n) \<Rightarrow> ki_yield_processor aid s1)"

text \<open>\<open>ki_thread_startup\<close> after the entry routine has returned.\<close>

definition ki_thread_startup_end :: "u32 \<Rightarrow> sched_state \<Rightarrow> sched_state option" where
  "ki_thread_startup_end aid s =
     (let cur = ki_current_thread aid s
      in ki_yield_processor aid
           (if cur \<noteq> 0 then upd_thread cur (\<lambda>x. x\<lparr>tstate := KI_THREAD_TERMINATED\<rparr>) s else s))"

section \<open>Where the threads are\<close>

text \<open>\<open>placed s\<close> collects the places a thread can be in: running on an online CPU, in a ready queue of
  an online CPU, or in the wait list.\<close>

definition cpu_threads :: "ki_prcb_t \<Rightarrow> nat multiset" where
  "cpu_threads p = (if online p then add_mset (current_thread p) (mset (the (ready_head p))) else {#})"

definition placed :: "sched_state \<Rightarrow> nat multiset" where
  "placed s = (\<Sum>c < MAX_CPUS. cpu_threads (g_ki_prcb s c)) + mset (s_wait_list s)"

definition cpu_inv :: "sched_state \<Rightarrow> nat \<Rightarrow> bool" where
  "cpu_inv s c \<longleftrightarrow>
     (let p = g_ki_prcb s c in
      (ready_head p \<noteq> None \<longrightarrow> online p) \<and>
      (online p \<longrightarrow> c < MAX_CPUS \<and> ready_head p \<noteq> None \<and> current_thread p \<noteq> 0 \<and> idle_thread p \<noteq> 0 \<and>
        (current_thread p = idle_thread p \<or> idle_thread p \<in> set (the (ready_head p))) \<and>
        tstate (threads s (current_thread p)) = KI_THREAD_RUNNING \<and>
        tstate (threads s (idle_thread p)) = KI_THREAD_RUNNING \<and>
        (\<forall>t \<in> set (the (ready_head p)). t \<noteq> 0 \<and>
           (tstate (threads s t) = KI_THREAD_READY \<or> t = idle_thread p))))"

definition sched_inv :: "sched_state \<Rightarrow> bool" where
  "sched_inv s \<longleftrightarrow> (\<forall>c. cpu_inv s c) \<and> (\<forall>t \<in> set (s_wait_list s). t \<noteq> 0 \<and> tstate (threads s t) = KI_THREAD_WAITING) \<and>
     (\<forall>t. count (placed s) t \<le> 1) \<and> (\<forall>t \<in># placed s. quantum (threads s t) \<le> s_quantum_default)"

lemma distinct_count_le: "(\<forall>t. count (mset xs) t \<le> 1) \<longleftrightarrow> distinct xs"
proof (induction xs)
  case (Cons x xs)
  have "(\<forall>t. count (mset (x # xs)) t \<le> 1) \<longleftrightarrow> x \<notin> set xs \<and> (\<forall>t. count (mset xs) t \<le> 1)"
  proof (intro iffI conjI allI)
    assume all: "\<forall>t. count (mset (x # xs)) t \<le> 1"
    then have "count (mset (x # xs)) x \<le> 1" by (rule spec)
    then show "x \<notin> set xs" by simp
    show "count (mset xs) t \<le> 1" for t using le_trans [OF _ all [rule_format, of t]] by simp
  next
    fix t assume "x \<notin> set xs \<and> (\<forall>t. count (mset xs) t \<le> 1)"
    then show "count (mset (x # xs)) t \<le> 1" by (cases "t = x") simp_all
  qed
  with Cons.IH show ?case by simp
qed simp

lemma sum_upd_mset:
  fixes f :: "'b \<Rightarrow> nat multiset"
  assumes "c < (n :: nat)"
  shows "(\<Sum>d < n. f ((g(c := p)) d)) + f (g c) = (\<Sum>d < n. f (g d)) + f p"
proof -
  have "(\<Sum>d < n. f ((g(c := p)) d)) = f p + (\<Sum>d \<in> {..<n} - {c}. f (g d))"
    using assms by (simp add: sum.remove [of _ c])
  moreover have "(\<Sum>d < n. f (g d)) = f (g c) + (\<Sum>d \<in> {..<n} - {c}. f (g d))"
    using assms by (simp add: sum.remove [of _ c])
  ultimately show ?thesis by (simp add: ac_simps)
qed

lemma placed_upd:
  assumes "c < MAX_CPUS" "g_ki_prcb s' = (g_ki_prcb s)(c := p)"
  shows "placed s' + cpu_threads (g_ki_prcb s c) + mset (s_wait_list s) =
    placed s + cpu_threads p + mset (s_wait_list s')"
  using sum_upd_mset [OF assms(1), of cpu_threads "g_ki_prcb s" p]
  by (simp add: placed_def assms(2) ac_simps)

lemma cpu_threads_placed:
  assumes "c < MAX_CPUS"
  shows "cpu_threads (g_ki_prcb s c) \<subseteq># placed s"
proof -
  have "placed s = cpu_threads (g_ki_prcb s c) +
      ((\<Sum>d \<in> {..<MAX_CPUS} - {c}. cpu_threads (g_ki_prcb s d)) + mset (s_wait_list s))"
    using assms by (simp add: placed_def sum.remove [of _ c] ac_simps)
  then show ?thesis by simp
qed

lemma two_cpus_placed:
  assumes "c < MAX_CPUS" "d < MAX_CPUS" "c \<noteq> d"
  shows "cpu_threads (g_ki_prcb s c) + cpu_threads (g_ki_prcb s d) \<subseteq># placed s"
proof -
  have "placed s = (cpu_threads (g_ki_prcb s c) + cpu_threads (g_ki_prcb s d)) +
      ((\<Sum>e \<in> {..<MAX_CPUS} - {c} - {d}. cpu_threads (g_ki_prcb s e)) + mset (s_wait_list s))"
    using assms by (simp add: placed_def sum.remove [of _ c] sum.remove [of _ d] ac_simps)
  then show ?thesis by simp
qed

text \<open>What the invariant says about one online CPU.\<close>

lemma sched_inv_cpu:
  assumes "sched_inv s" "online (g_ki_prcb s c)"
  shows "c < MAX_CPUS" "\<exists>q. ready_head (g_ki_prcb s c) = Some q"
    "current_thread (g_ki_prcb s c) \<noteq> 0"
    "current_thread (g_ki_prcb s c) \<notin> set (the (ready_head (g_ki_prcb s c)))"
    "distinct (the (ready_head (g_ki_prcb s c)))"
    "tstate (threads s (current_thread (g_ki_prcb s c))) = KI_THREAD_RUNNING"
    "current_thread (g_ki_prcb s c) = idle_thread (g_ki_prcb s c) \<or>
     idle_thread (g_ki_prcb s c) \<in> set (the (ready_head (g_ki_prcb s c)))"
proof -
  have c: "cpu_inv s c" using assms(1) by (simp add: sched_inv_def)
  then show l: "c < MAX_CPUS" and "\<exists>q. ready_head (g_ki_prcb s c) = Some q"
    and "current_thread (g_ki_prcb s c) \<noteq> 0"
    and "tstate (threads s (current_thread (g_ki_prcb s c))) = KI_THREAD_RUNNING"
    and "current_thread (g_ki_prcb s c) = idle_thread (g_ki_prcb s c) \<or>
     idle_thread (g_ki_prcb s c) \<in> set (the (ready_head (g_ki_prcb s c)))"
    using assms(2) by (simp_all add: cpu_inv_def Let_def)
  have "count (cpu_threads (g_ki_prcb s c)) t \<le> 1" for t
    using assms(1) mset_subset_eq_count [OF cpu_threads_placed [OF l, of s], of t] le_trans
    unfolding sched_inv_def by blast
  then have d: "distinct (current_thread (g_ki_prcb s c) # the (ready_head (g_ki_prcb s c)))"
    using assms(2) unfolding distinct_count_le [symmetric] cpu_threads_def by simp
  then show "current_thread (g_ki_prcb s c) \<notin> set (the (ready_head (g_ki_prcb s c)))"
    "distinct (the (ready_head (g_ki_prcb s c)))" by simp_all
qed

lemma sched_inv_offline:
  assumes "sched_inv s" "\<not> online (g_ki_prcb s c)"
  shows "ready_head (g_ki_prcb s c) = None"
proof -
  have "cpu_inv s c" using assms(1) by (simp add: sched_inv_def)
  then show ?thesis using assms(2) by (auto simp: cpu_inv_def Let_def)
qed

lemma sched_inv_queue:
  assumes "sched_inv s" "online (g_ki_prcb s c)"
  shows "ready_head (g_ki_prcb s c) = Some q \<Longrightarrow> t \<in> set q \<Longrightarrow>
      t \<noteq> 0 \<and> (tstate (threads s t) = KI_THREAD_READY \<or> t = idle_thread (g_ki_prcb s c))"
    and "idle_thread (g_ki_prcb s c) \<noteq> 0"
    and "tstate (threads s (idle_thread (g_ki_prcb s c))) = KI_THREAD_RUNNING"
proof -
  have "cpu_inv s c" using assms(1) by (simp add: sched_inv_def)
  then show "ready_head (g_ki_prcb s c) = Some q \<Longrightarrow> t \<in> set q \<Longrightarrow>
      t \<noteq> 0 \<and> (tstate (threads s t) = KI_THREAD_READY \<or> t = idle_thread (g_ki_prcb s c))"
    and "idle_thread (g_ki_prcb s c) \<noteq> 0"
    and "tstate (threads s (idle_thread (g_ki_prcb s c))) = KI_THREAD_RUNNING"
    using assms(2) by (simp_all add: cpu_inv_def Let_def)
qed

section \<open>The end of a quantum\<close>

lemma upd_fields [simp, frame_simps]:
  "g_ki_prcb (upd_thread t f s) = g_ki_prcb s" "s_wait_list (upd_thread t f s) = s_wait_list s"
  "threads (upd_prcb c g s) = threads s" "s_wait_list (upd_prcb c g s) = s_wait_list s"
  "threads (upd_thread t f s) = (threads s)(t := f (threads s t))"
  "g_ki_prcb (upd_prcb c g s) = (g_ki_prcb s)(c := g (g_ki_prcb s c))"
  "s_apic_to_cpu (upd_thread t f s) = s_apic_to_cpu s" "s_apic_to_cpu (upd_prcb c g s) = s_apic_to_cpu s"
  "g_ring3_active (upd_thread t f s) = g_ring3_active s" "g_ring3_active (upd_prcb c g s) = g_ring3_active s"
  by (simp_all add: upd_thread_def upd_prcb_def)

lemma swap_fields [simp, frame_simps]:
  "g_ki_prcb (ki_swap_context t r s) = g_ki_prcb s" "s_wait_list (ki_swap_context t r s) = s_wait_list s"
  "tstate (threads (ki_swap_context t r s) u) = tstate (threads s u)"
  "quantum (threads (ki_swap_context t r s) u) = quantum (threads s u)"
  "cpu_affinity (threads (ki_swap_context t r s) u) = cpu_affinity (threads s u)"
  "s_apic_to_cpu (ki_swap_context t r s) = s_apic_to_cpu s"
  by (simp_all add: ki_swap_context_def)

lemma ring3_fields [simp, frame_simps]:
  "g_ki_prcb (ki_program_ring3 c n s) = g_ki_prcb s" "s_wait_list (ki_program_ring3 c n s) = s_wait_list s"
  "threads (ki_program_ring3 c n s) = threads s" "s_apic_to_cpu (ki_program_ring3 c n s) = s_apic_to_cpu s"
  by (simp_all add: ki_program_ring3_def)

lemma dispatch_fields [simp, frame_simps]:
  "g_ki_prcb (ki_dispatch c n s) = (g_ki_prcb s)(c := (g_ki_prcb s c)\<lparr>current_thread := n\<rparr>)"
  "s_wait_list (ki_dispatch c n s) = s_wait_list s" "s_apic_to_cpu (ki_dispatch c n s) = s_apic_to_cpu s"
  "tstate (threads (ki_dispatch c n s) t) = (if t = n then KI_THREAD_RUNNING else tstate (threads s t))"
  "quantum (threads (ki_dispatch c n s) t) = quantum (threads s t)"
  "cpu_affinity (threads (ki_dispatch c n s) t) = cpu_affinity (threads s t)"
  by (simp_all add: ki_dispatch_def)

text \<open>The three outcomes: the quantum goes on, there is nothing to switch to, or the first thread of
  the ready queue takes over and the running one goes to the end of the queue, unless it waits or
  has terminated.\<close>

lemma quantum_goes_on:
  assumes "ki_current_cpu_index aid s = c" "online (g_ki_prcb s c)" "current_thread (g_ki_prcb s c) = cur"
    and "cur \<noteq> 0" "cur \<noteq> idle_thread (g_ki_prcb s c)" "1 < quantum (threads s cur)"
  shows "ki_quantum_end aid s = Some (upd_thread cur (\<lambda>x. x\<lparr>quantum := quantum (threads s cur) - 1\<rparr>) s)"
  using assms by (simp add: ki_quantum_end_def Let_def)

lemma quantum_nothing_ready:
  assumes "ki_current_cpu_index aid s = c" "online (g_ki_prcb s c)" "current_thread (g_ki_prcb s c) \<noteq> 0"
    and "current_thread (g_ki_prcb s c) = idle_thread (g_ki_prcb s c)" "ready_head (g_ki_prcb s c) = Some []"
  shows "ki_quantum_end aid s = Some s"
  using assms by (simp add: ki_quantum_end_def Let_def ki_pick_next_locked_def)

lemma quantum_switch:
  assumes "ki_current_cpu_index aid s = c" "online (g_ki_prcb s c)" "current_thread (g_ki_prcb s c) = cur"
    and "cur \<noteq> 0" "cur = idle_thread (g_ki_prcb s c) \<or> quantum (threads s cur) \<le> 1"
    and "ready_head (g_ki_prcb s c) = Some (nxt # q)" "nxt \<noteq> cur"
  shows "\<exists>s'. ki_quantum_end aid s = Some s' \<and>
    g_ki_prcb s' = (g_ki_prcb s)(c := (g_ki_prcb s c)\<lparr>
      ready_head := Some (if tstate (threads s cur) \<in> {KI_THREAD_TERMINATED, KI_THREAD_WAITING} then q else q @ [cur]),
      current_thread := nxt\<rparr>) \<and>
    s_wait_list s' = s_wait_list s \<and>
    (\<forall>t. tstate (threads s' t) =
       (if t = nxt then KI_THREAD_RUNNING
        else if t = cur \<and> cur \<noteq> idle_thread (g_ki_prcb s c) \<and>
          tstate (threads s cur) \<notin> {KI_THREAD_TERMINATED, KI_THREAD_WAITING} then KI_THREAD_READY
        else tstate (threads s t))) \<and>
    (\<forall>t. quantum (threads s' t) =
       (if t = cur \<and> cur \<noteq> idle_thread (g_ki_prcb s c) then s_quantum_default else quantum (threads s t))) \<and>
    (\<forall>t. cpu_affinity (threads s' t) = cpu_affinity (threads s t)) \<and> s_apic_to_cpu s' = s_apic_to_cpu s"
proof -
  let ?p = "g_ki_prcb s c"
  define s1 where "s1 = (if cur = idle_thread ?p then s else upd_thread cur (\<lambda>x. x\<lparr>quantum := s_quantum_default\<rparr>) s)"
  define s2 where "s2 = upd_prcb c (\<lambda>p. p\<lparr>ready_head := Some q\<rparr>) s1"
  define st where "st = tstate (threads s cur)"
  define s3 where "s3 = (if st \<noteq> KI_THREAD_TERMINATED \<and> st \<noteq> KI_THREAD_WAITING
     then upd_prcb c (\<lambda>p. p\<lparr>ready_head := Some (q @ [cur])\<rparr>)
            (if cur = idle_thread ?p then s2 else upd_thread cur (\<lambda>x. x\<lparr>tstate := KI_THREAD_READY\<rparr>) s2)
     else s2)"
  define s4 where "s4 = ki_dispatch c nxt s3"
  define s5 where "s5 = ki_program_ring3 c nxt s4"
  have pick: "ki_pick_next_locked c s1 = Some (s2, nxt)"
    using assms(6) by (simp add: ki_pick_next_locked_def s1_def s2_def)
  have st2: "tstate (threads s2 cur) = st" by (simp add: s2_def s1_def st_def)
  have r2: "ready_head (g_ki_prcb s2 c) = Some q" by (simp add: s2_def)
  have sw: "ki_switch_to c cur (cur = idle_thread ?p) nxt s2 =
      Some (ki_swap_context cur (saved_rsp (threads s5 nxt)) s5)"
    unfolding ki_switch_to_def Let_def st2 s5_def s4_def s3_def
    by (simp add: ki_ready_insert_def r2)
  have run: "ki_quantum_end aid s = Some (ki_swap_context cur (saved_rsp (threads s5 nxt)) s5)"
  proof (cases "cur = idle_thread ?p")
    case True
    then show ?thesis
      using assms(1-4,7) pick sw by (simp add: ki_quantum_end_def Let_def s1_def)
  next
    case False
    then have "quantum (threads s cur) - 1 \<le> 0" using assms(5) by simp
    then show ?thesis
      using assms(1-4,7) pick sw False by (simp add: ki_quantum_end_def Let_def s1_def)
  qed
  have g3: "g_ki_prcb s3 = (g_ki_prcb s)(c := ?p\<lparr>
      ready_head := Some (if st \<in> {KI_THREAD_TERMINATED, KI_THREAD_WAITING} then q else q @ [cur])\<rparr>)"
    unfolding s3_def s2_def s1_def by (cases st) simp_all
  have w3: "s_wait_list s3 = s_wait_list s" "s_apic_to_cpu s3 = s_apic_to_cpu s"
    unfolding s3_def s2_def s1_def by simp_all
  have g5: "g_ki_prcb s5 = (g_ki_prcb s)(c := ?p\<lparr>
      ready_head := Some (if st \<in> {KI_THREAD_TERMINATED, KI_THREAD_WAITING} then q else q @ [cur]),
      current_thread := nxt\<rparr>)"
    unfolding s5_def s4_def by (simp add: g3)
  have w5: "s_wait_list s5 = s_wait_list s" "s_apic_to_cpu s5 = s_apic_to_cpu s"
    unfolding s5_def s4_def by (simp_all add: w3)
  have st3: "tstate (threads s3 t) =
      (if t = cur \<and> cur \<noteq> idle_thread ?p \<and> st \<notin> {KI_THREAD_TERMINATED, KI_THREAD_WAITING} then KI_THREAD_READY
       else tstate (threads s t))" for t
    unfolding s3_def s2_def s1_def by (cases st) simp_all
  have q3: "quantum (threads s3 t) = (if t = cur \<and> cur \<noteq> idle_thread ?p then s_quantum_default else quantum (threads s t))"
    "cpu_affinity (threads s3 t) = cpu_affinity (threads s t)" for t
    unfolding s3_def s2_def s1_def by simp_all
  have st5: "tstate (threads s5 t) = (if t = nxt then KI_THREAD_RUNNING
        else if t = cur \<and> cur \<noteq> idle_thread ?p \<and> st \<notin> {KI_THREAD_TERMINATED, KI_THREAD_WAITING} then KI_THREAD_READY
        else tstate (threads s t))" for t
    unfolding s5_def s4_def by (simp add: st3)
  have q5: "quantum (threads s5 t) = (if t = cur \<and> cur \<noteq> idle_thread ?p then s_quantum_default else quantum (threads s t))"
    "cpu_affinity (threads s5 t) = cpu_affinity (threads s t)" for t
    unfolding s5_def s4_def by (simp_all add: q3)
  show ?thesis
    unfolding run using g5 w5 st5 q5 unfolding st_def by simp
qed

lemma sched_inv_cong:
  assumes "sched_inv s" "g_ki_prcb s' = g_ki_prcb s" "s_wait_list s' = s_wait_list s"
    and "\<And>t. tstate (threads s' t) = tstate (threads s t)"
    and "\<And>t. quantum (threads s' t) \<le> max (quantum (threads s t)) 0"
  shows "sched_inv s' \<and> placed s' = placed s"
proof -
  have p: "placed s' = placed s" by (simp add: placed_def assms(2,3))
  have "cpu_inv s' c = cpu_inv s c" for c by (simp add: cpu_inv_def assms(2,4))
  moreover have "quantum (threads s' t) \<le> s_quantum_default" if "t \<in># placed s'" for t
    using assms(1) that assms(5) [of t] unfolding p sched_inv_def s_quantum_default_def by fastforce
  ultimately show ?thesis using assms(1) by (simp add: sched_inv_def p assms(3,4))
qed

lemma placed_once:
  assumes "sched_inv s" "online (g_ki_prcb s c)" "online (g_ki_prcb s d)" "c \<noteq> d"
    and "t \<in># cpu_threads (g_ki_prcb s c)"
  shows "t \<notin># cpu_threads (g_ki_prcb s d)"
proof
  assume "t \<in># cpu_threads (g_ki_prcb s d)"
  with assms(5) have "2 \<le> count (cpu_threads (g_ki_prcb s c) + cpu_threads (g_ki_prcb s d)) t"
    by (simp add: Suc_le_eq flip: count_greater_zero_iff)
  also have "\<dots> \<le> count (placed s) t"
    by (rule mset_subset_eq_count [OF two_cpus_placed])
      (use sched_inv_cpu(1) [OF assms(1,2)] sched_inv_cpu(1) [OF assms(1,3)] assms(4) in simp_all)
  also have "\<dots> \<le> 1" using assms(1) by (simp add: sched_inv_def)
  finally show False by simp
qed

lemma idle_placed:
  assumes "sched_inv s" "online (g_ki_prcb s c)"
  shows "idle_thread (g_ki_prcb s c) \<in># cpu_threads (g_ki_prcb s c)"
    and "current_thread (g_ki_prcb s c) \<in># cpu_threads (g_ki_prcb s c)"
  using sched_inv_cpu(2,7) [OF assms] assms(2) by (auto simp: cpu_threads_def)

text \<open>
  The invariant across \<open>ki_quantum_end\<close>, for the three situations in which it is called: the timer
  (the current thread is still running), a thread that has put itself into the wait list, and one that
  has terminated.  \<open>s0\<close> is the state before the thread changed its own state.
\<close>

lemma quantum_end_inv:
  assumes inv: "sched_inv s0" and on: "online (g_ki_prcb s0 c)" and cpu: "ki_current_cpu_index aid s = c"
    and cur: "cur = current_thread (g_ki_prcb s0 c)"
    and g: "g_ki_prcb s = g_ki_prcb s0"
    and st: "\<And>t. t \<noteq> cur \<Longrightarrow> tstate (threads s t) = tstate (threads s0 t)"
    and qu: "\<And>t. quantum (threads s t) \<le> max (quantum (threads s0 t)) 0"
    and cst: "tstate (threads s cur) \<in> {KI_THREAD_RUNNING, KI_THREAD_WAITING, KI_THREAD_TERMINATED}"
    and idle: "cur = idle_thread (g_ki_prcb s0 c) \<Longrightarrow> tstate (threads s cur) = KI_THREAD_RUNNING"
    and swap: "tstate (threads s cur) \<noteq> KI_THREAD_RUNNING \<Longrightarrow> quantum (threads s cur) \<le> 1"
    and wl: "s_wait_list s = (if tstate (threads s cur) = KI_THREAD_WAITING then s_wait_list s0 @ [cur] else s_wait_list s0)"
  shows "\<exists>s'. ki_quantum_end aid s = Some s' \<and> sched_inv s' \<and> s_wait_list s' = s_wait_list s \<and>
    placed s' = (if tstate (threads s cur) = KI_THREAD_TERMINATED then placed s0 - {#cur#} else placed s0)"
proof -
  let ?p = "g_ki_prcb s0 c"
  note cpuD = sched_inv_cpu [OF inv on]
  obtain rq where rq: "ready_head ?p = Some rq" using cpuD(2) by blast
  have cur0: "cur \<noteq> 0" using cpuD(3) cur by simp
  have run0: "tstate (threads s0 cur) = KI_THREAD_RUNNING" using cpuD(6) cur by simp
  show ?thesis
  proof (cases "cur \<noteq> idle_thread ?p \<and> 1 < quantum (threads s cur)")
    case True
    then have run: "tstate (threads s cur) = KI_THREAD_RUNNING" using swap by force
    let ?s = "upd_thread cur (\<lambda>x. x\<lparr>quantum := quantum (threads s cur) - 1\<rparr>) s"
    have qe: "ki_quantum_end aid s = Some ?s"
      by (rule quantum_goes_on [OF cpu]) (use on cur cur0 g True in simp_all)
    have "tstate (threads ?s t) = tstate (threads s0 t)" for t using st [of t] run run0 by (cases "t = cur") simp_all
    moreover have "quantum (threads ?s t) \<le> max (quantum (threads s0 t)) 0" for t using qu [of t] by (cases "t = cur") simp_all
    moreover have "g_ki_prcb ?s = g_ki_prcb s0" "s_wait_list ?s = s_wait_list s0" using g wl run by simp_all
    ultimately have "sched_inv ?s \<and> placed ?s = placed s0" by (intro sched_inv_cong [OF inv])
    with qe run show ?thesis by simp
  next
    case sw: False
    show ?thesis
    proof (cases rq)
      case Nil
      then have ci: "cur = idle_thread ?p" using cpuD(7) rq cur by simp
      then have run: "tstate (threads s cur) = KI_THREAD_RUNNING" by (rule idle)
      have qe: "ki_quantum_end aid s = Some s"
        by (rule quantum_nothing_ready [OF cpu]) (use on cur cur0 g ci rq Nil in simp_all)
      have "tstate (threads s t) = tstate (threads s0 t)" for t using st [of t] run run0 by (cases "t = cur") simp_all
      then have "sched_inv s \<and> placed s = placed s0" using g wl run qu by (intro sched_inv_cong [OF inv]) simp_all
      with qe run show ?thesis by simp
    next
      case (Cons nxt q)
      have nc: "nxt \<noteq> cur" using cpuD(4) rq Cons cur by auto
      define keep where "keep = (tstate (threads s cur) \<notin> {KI_THREAD_TERMINATED, KI_THREAD_WAITING})"
      have keep: "keep \<longleftrightarrow> tstate (threads s cur) = KI_THREAD_RUNNING" using cst by (auto simp: keep_def)
      have "\<exists>s'. ki_quantum_end aid s = Some s' \<and>
        g_ki_prcb s' = (g_ki_prcb s)(c := (g_ki_prcb s c)\<lparr>
          ready_head := Some (if tstate (threads s cur) \<in> {KI_THREAD_TERMINATED, KI_THREAD_WAITING} then q else q @ [cur]),
          current_thread := nxt\<rparr>) \<and>
        s_wait_list s' = s_wait_list s \<and>
        (\<forall>t. tstate (threads s' t) =
           (if t = nxt then KI_THREAD_RUNNING
            else if t = cur \<and> cur \<noteq> idle_thread (g_ki_prcb s c) \<and>
              tstate (threads s cur) \<notin> {KI_THREAD_TERMINATED, KI_THREAD_WAITING} then KI_THREAD_READY
            else tstate (threads s t))) \<and>
        (\<forall>t. quantum (threads s' t) =
           (if t = cur \<and> cur \<noteq> idle_thread (g_ki_prcb s c) then s_quantum_default else quantum (threads s t))) \<and>
        (\<forall>t. cpu_affinity (threads s' t) = cpu_affinity (threads s t)) \<and> s_apic_to_cpu s' = s_apic_to_cpu s"
        by (rule quantum_switch [OF cpu]) (use on cur cur0 g sw rq Cons nc in auto)
      then obtain s' where qe: "ki_quantum_end aid s = Some s'" and
        g': "g_ki_prcb s' = (g_ki_prcb s0)(c := ?p\<lparr>ready_head := Some (if keep then q @ [cur] else q), current_thread := nxt\<rparr>)" and
        w': "s_wait_list s' = s_wait_list s" and
        t': "\<And>t. tstate (threads s' t) = (if t = nxt then KI_THREAD_RUNNING
            else if t = cur \<and> cur \<noteq> idle_thread ?p \<and> keep then KI_THREAD_READY else tstate (threads s t))" and
        q': "\<And>t. quantum (threads s' t) = (if t = cur \<and> cur \<noteq> idle_thread ?p then s_quantum_default else quantum (threads s t))"
        unfolding g keep_def by auto
      let ?p' = "?p\<lparr>ready_head := Some (if keep then q @ [cur] else q), current_thread := nxt\<rparr>"
      have ct: "cpu_threads ?p = add_mset cur (add_mset nxt (mset q))"
        "cpu_threads ?p' = (if keep then add_mset cur (add_mset nxt (mset q)) else add_mset nxt (mset q))"
        using on rq Cons cur by (simp_all add: cpu_threads_def add_mset_commute)
      have pl: "placed s' + cpu_threads ?p + mset (s_wait_list s0) = placed s0 + cpu_threads ?p' + mset (s_wait_list s')"
        by (rule placed_upd [OF cpuD(1) g'])
      have placed: "placed s' = (if tstate (threads s cur) = KI_THREAD_TERMINATED then placed s0 - {#cur#} else placed s0)"
      proof (cases keep)
        case True
        then show ?thesis using pl keep unfolding ct w' wl by simp
      next
        case False
        then have "tstate (threads s cur) \<in> {KI_THREAD_WAITING, KI_THREAD_TERMINATED}" using cst by (simp add: keep)
        moreover have "add_mset nxt (add_mset cur (placed s' + mset q)) + mset (s_wait_list s0) =
            add_mset nxt (placed s0 + mset q) + mset (s_wait_list s')"
          using pl False unfolding ct by (simp add: ac_simps add_mset_commute)
        ultimately show ?thesis unfolding w' wl by (auto, metis add_mset_remove_trivial)
      qed
      have le: "placed s' \<subseteq># placed s0" unfolding placed by simp
      have "cpu_inv s' d" for d
      proof (cases "d = c")
        case True
        have old: "t \<noteq> 0 \<and> (tstate (threads s0 t) = KI_THREAD_READY \<or> t = idle_thread ?p)" if "t \<in> set rq" for t
          using sched_inv_queue(1) [OF inv on rq that] .
        have i0: "idle_thread ?p \<noteq> 0" "tstate (threads s0 (idle_thread ?p)) = KI_THREAD_RUNNING"
          by (rule sched_inv_queue [OF inv on])+
        have dist: "distinct (nxt # q)" "cur \<notin> set (nxt # q)" using cpuD(4,5) rq Cons cur by simp_all
        have idle': "idle_thread ?p = cur \<or> idle_thread ?p \<in> set (nxt # q)" using cpuD(7) rq Cons cur by auto
        have ikeep: "idle_thread ?p = cur \<Longrightarrow> keep" using idle keep by simp
        have "\<forall>t \<in> set (if keep then q @ [cur] else q). t \<noteq> 0 \<and> (tstate (threads s' t) = KI_THREAD_READY \<or> t = idle_thread ?p)"
        proof
          fix t assume t: "t \<in> set (if keep then q @ [cur] else q)"
          show "t \<noteq> 0 \<and> (tstate (threads s' t) = KI_THREAD_READY \<or> t = idle_thread ?p)"
          proof (cases "t = cur")
            case True
            then have keep using t dist(2) by (auto split: if_splits)
            then show ?thesis using True cur0 nc by (simp add: t')
          next
            case False
            then have tq: "t \<in> set q" using t by (auto split: if_splits)
            then have "t \<noteq> nxt" using dist(1) by auto
            moreover have "t \<noteq> 0 \<and> (tstate (threads s0 t) = KI_THREAD_READY \<or> t = idle_thread ?p)"
              using old [of t] tq Cons by simp
            ultimately show ?thesis using False st [OF False] by (simp add: t')
          qed
        qed
        moreover have "tstate (threads s' (idle_thread ?p)) = KI_THREAD_RUNNING"
          using i0(2) st [of "idle_thread ?p"] idle by (auto simp: t')
        moreover have "nxt = idle_thread ?p \<or> idle_thread ?p \<in> set (if keep then q @ [cur] else q)"
          using idle' ikeep by auto
        moreover have "nxt \<noteq> 0" using old Cons by simp
        moreover have "tstate (threads s' nxt) = KI_THREAD_RUNNING" by (simp add: t')
        ultimately show ?thesis
          using on cpuD(1) i0 by (simp add: cpu_inv_def Let_def g' True)
      next
        case False
        show ?thesis
        proof (cases "online (g_ki_prcb s0 d)")
          case True
          have same: "tstate (threads s' t) = tstate (threads s0 t)" if "t \<in># cpu_threads (g_ki_prcb s0 d)" for t
          proof -
            have "t \<notin># cpu_threads ?p" using placed_once [OF inv True on False that] .
            then have "t \<noteq> nxt" "t \<noteq> cur" unfolding ct by auto
            then show ?thesis using st by (simp add: t')
          qed
          have "cpu_inv s0 d" using inv by (simp add: sched_inv_def)
          moreover have "t \<in># cpu_threads (g_ki_prcb s0 d)" if "t \<in> set (the (ready_head (g_ki_prcb s0 d)))" for t
            using that True by (simp add: cpu_threads_def)
          ultimately show ?thesis
            using same idle_placed [OF inv True] False by (simp add: cpu_inv_def Let_def g')
        next
          case off: False
          then show ?thesis using False sched_inv_offline [OF inv off] by (simp add: cpu_inv_def Let_def g')
        qed
      qed
      moreover have "t \<noteq> 0 \<and> tstate (threads s' t) = KI_THREAD_WAITING" if t: "t \<in> set (s_wait_list s')" for t
      proof (cases "t = cur")
        case True
        have "cur \<notin> set (s_wait_list s0)" using inv run0 by (auto simp: sched_inv_def)
        then have "tstate (threads s cur) = KI_THREAD_WAITING" using t True unfolding w' wl by (auto split: if_splits)
        then show ?thesis using True cur0 nc by (simp add: t' keep)
      next
        case False
        then have "t \<in> set (s_wait_list s0)" using t unfolding w' wl by (auto split: if_splits)
        then have w0: "t \<noteq> 0 \<and> tstate (threads s0 t) = KI_THREAD_WAITING" using inv by (simp add: sched_inv_def)
        moreover have "t \<noteq> nxt"
        proof
          assume "t = nxt"
          then have "tstate (threads s0 t) = KI_THREAD_READY \<or> t = idle_thread ?p"
            using sched_inv_queue(1) [OF inv on rq, of t] Cons by simp
          moreover have "tstate (threads s0 (idle_thread ?p)) = KI_THREAD_RUNNING"
            by (rule sched_inv_queue [OF inv on])
          ultimately show False using w0 by auto
        qed
        ultimately show ?thesis using False st by (simp add: t')
      qed
      moreover have "count (placed s') t \<le> 1" for t
        using mset_subset_eq_count [OF le, of t] inv unfolding sched_inv_def by (meson le_trans)
      moreover have "quantum (threads s' t) \<le> s_quantum_default" if "t \<in># placed s'" for t
      proof -
        have "quantum (threads s0 t) \<le> s_quantum_default"
          using mset_subset_eqD [OF le that] inv by (simp add: sched_inv_def)
        then have "quantum (threads s t) \<le> s_quantum_default"
          using qu [of t] unfolding s_quantum_default_def by linarith
        then show ?thesis by (simp add: q')
      qed
      ultimately have "sched_inv s'" by (simp add: sched_inv_def)
      with qe w' placed show ?thesis by blast
    qed
  qed
qed

section \<open>The scheduler as a transition system\<close>

text \<open>
  One step: the timer interrupt on a CPU, a thread that blocks on an object and gives up the CPU (the
  waiting code masks interrupts in between, so that this is one step on a single processor), a wake-up,
  the first readying of a new thread, and the exit of the running thread.  Where the code would insert
  into the queue of a CPU that was never initialised there is no step.
\<close>

inductive sched_step :: "sched_state \<Rightarrow> sched_state \<Rightarrow> bool" where
  tick: "ki_quantum_end aid s = Some s' \<Longrightarrow> sched_step s s'"
| sleep: "online (g_ki_prcb s (ki_current_cpu_index aid s)) \<Longrightarrow> ki_can_block aid s \<Longrightarrow>
    ki_yield_processor aid (ki_block_current aid obj s) = Some s' \<Longrightarrow> sched_step s s'"
| wake: "ki_wake obj wake_all s = Some (s', n) \<Longrightarrow> sched_step s s'"
| ready: "t \<noteq> 0 \<Longrightarrow> t \<notin># placed s \<Longrightarrow> quantum (threads s t) \<le> s_quantum_default \<Longrightarrow>
    ki_ready_thread t s = Some s' \<Longrightarrow> sched_step s s'"
| exit: "online (g_ki_prcb s (ki_current_cpu_index aid s)) \<Longrightarrow>
    ki_current_thread aid s \<noteq> idle_thread (g_ki_prcb s (ki_current_cpu_index aid s)) \<Longrightarrow>
    ki_thread_startup_end aid s = Some s' \<Longrightarrow> sched_step s s'"

inductive_cases sched_stepE: "sched_step s s'"

inductive sched_reach :: "sched_state \<Rightarrow> sched_state \<Rightarrow> bool" for s0 where
  start: "sched_reach s0 s0"
| step: "sched_reach s0 s \<Longrightarrow> sched_step s s' \<Longrightarrow> sched_reach s0 s'"

lemma tick_inv:
  assumes "sched_inv s" "ki_quantum_end aid s = Some s'"
  shows "sched_inv s' \<and> placed s' = placed s"
proof (cases "online (g_ki_prcb s (ki_current_cpu_index aid s))")
  case False
  then have "s' = s" using assms(2) by (simp add: ki_quantum_end_def Let_def)
  then show ?thesis using assms(1) by simp
next
  case True
  note c = sched_inv_cpu [OF assms(1) True]
  have "\<exists>s'. ki_quantum_end aid s = Some s' \<and> sched_inv s' \<and> s_wait_list s' = s_wait_list s \<and>
    placed s' = (if tstate (threads s (current_thread (g_ki_prcb s (ki_current_cpu_index aid s)))) = KI_THREAD_TERMINATED
      then placed s - {#current_thread (g_ki_prcb s (ki_current_cpu_index aid s))#} else placed s)"
    by (rule quantum_end_inv [OF assms(1) True refl refl refl]) (use c(6) in simp_all)
  then show ?thesis using assms(2) by (simp add: c(6))
qed

lemma sleep_inv:
  assumes "sched_inv s" "online (g_ki_prcb s (ki_current_cpu_index aid s))" "ki_can_block aid s"
    and "ki_yield_processor aid (ki_block_current aid obj s) = Some s'"
  shows "sched_inv s' \<and> placed s' = placed s \<and>
    current_thread (g_ki_prcb s (ki_current_cpu_index aid s)) \<in> set (s_wait_list s')"
proof -
  let ?c = "ki_current_cpu_index aid s"
  define cur where "cur = current_thread (g_ki_prcb s ?c)"
  note c = sched_inv_cpu [OF assms(1,2)]
  have nz: "cur \<noteq> 0" and ni: "cur \<noteq> idle_thread (g_ki_prcb s ?c)"
    using c(3) assms(3) by (simp_all add: cur_def ki_can_block_def Let_def)
  have ct: "ki_current_thread aid s = cur" by (simp add: ki_current_thread_def cur_def)
  define m where "m = upd_thread cur (\<lambda>x. x\<lparr>quantum := 0\<rparr>) (ki_block_current aid obj s)"
  have b: "g_ki_prcb m = g_ki_prcb s" "s_wait_list m = s_wait_list s @ [cur]" "s_apic_to_cpu m = s_apic_to_cpu s"
    "tstate (threads m t) = (if t = cur then KI_THREAD_WAITING else tstate (threads s t))"
    "quantum (threads m t) = (if t = cur then 0 else quantum (threads s t))" for t
    using nz by (simp_all add: m_def ki_block_current_def ct Let_def)
  have y: "ki_quantum_end aid m = Some s'"
    using assms(4) nz ct by (simp add: ki_yield_processor_def m_def Let_def ki_current_thread_def
        ki_current_cpu_index_def ki_block_current_def cur_def)
  have mc: "ki_current_cpu_index aid m = ?c" using b(3) by (simp add: ki_current_cpu_index_def)
  have "\<exists>s'. ki_quantum_end aid m = Some s' \<and> sched_inv s' \<and> s_wait_list s' = s_wait_list m \<and>
    placed s' = (if tstate (threads m cur) = KI_THREAD_TERMINATED then placed s - {#cur#} else placed s)"
    by (rule quantum_end_inv [OF assms(1,2) mc cur_def]) (use ni in \<open>auto simp: b\<close>)
  with y show ?thesis by (simp add: b cur_def)
qed

lemma exit_inv:
  assumes "sched_inv s" "online (g_ki_prcb s (ki_current_cpu_index aid s))"
    and "ki_current_thread aid s \<noteq> idle_thread (g_ki_prcb s (ki_current_cpu_index aid s))"
    and "ki_thread_startup_end aid s = Some s'"
  shows "sched_inv s' \<and> placed s' = placed s - {#ki_current_thread aid s#}"
proof -
  let ?c = "ki_current_cpu_index aid s"
  define cur where "cur = current_thread (g_ki_prcb s ?c)"
  note c = sched_inv_cpu [OF assms(1,2)]
  have ct: "ki_current_thread aid s = cur" by (simp add: ki_current_thread_def cur_def)
  have nz: "cur \<noteq> 0" and ni: "cur \<noteq> idle_thread (g_ki_prcb s ?c)"
    using c(3) assms(3) ct by (simp_all add: cur_def)
  define m where "m = upd_thread cur (\<lambda>x. x\<lparr>quantum := 0\<rparr>) (upd_thread cur (\<lambda>x. x\<lparr>tstate := KI_THREAD_TERMINATED\<rparr>) s)"
  have b: "g_ki_prcb m = g_ki_prcb s" "s_wait_list m = s_wait_list s" "s_apic_to_cpu m = s_apic_to_cpu s"
    "tstate (threads m t) = (if t = cur then KI_THREAD_TERMINATED else tstate (threads s t))"
    "quantum (threads m t) = (if t = cur then 0 else quantum (threads s t))" for t
    by (simp_all add: m_def)
  have y: "ki_quantum_end aid m = Some s'"
    using assms(4) nz ct by (simp add: ki_thread_startup_end_def ki_yield_processor_def m_def Let_def
        ki_current_thread_def ki_current_cpu_index_def cur_def)
  have mc: "ki_current_cpu_index aid m = ?c" using b(3) by (simp add: ki_current_cpu_index_def)
  have "\<exists>s'. ki_quantum_end aid m = Some s' \<and> sched_inv s' \<and> s_wait_list s' = s_wait_list m \<and>
    placed s' = (if tstate (threads m cur) = KI_THREAD_TERMINATED then placed s - {#cur#} else placed s)"
    by (rule quantum_end_inv [OF assms(1,2) mc cur_def]) (use ni in \<open>auto simp: b\<close>)
  with y show ?thesis by (simp add: b ct)
qed

text \<open>Readying a thread that is in no place puts it at the end of the queue of some online CPU.\<close>

lemma ready_inv:
  assumes "sched_inv s" "t \<noteq> 0" "t \<notin># placed s" "quantum (threads s t) \<le> s_quantum_default"
    and "ki_ready_thread t s = Some s'"
  shows "sched_inv s' \<and> placed s' = add_mset t (placed s) \<and> s_wait_list s' = s_wait_list s \<and>
    (\<forall>u. u \<noteq> t \<longrightarrow> threads s' u = threads s u) \<and>
    (\<exists>c q. online (g_ki_prcb s c) \<and> ready_head (g_ki_prcb s c) = Some q \<and>
       g_ki_prcb s' = (g_ki_prcb s)(c := (g_ki_prcb s c)\<lparr>ready_head := Some (q @ [t])\<rparr>))"
proof -
  define c where "c = (if cpu_affinity (threads s t) < 0 \<or> cpu_affinity (threads s t) \<ge> int MAX_CPUS
    then (case ki_rr_find s (s_rr_cpu s) 0 (g_ki_cpu_count s) of None \<Rightarrow> 0 | Some i \<Rightarrow> i)
    else nat (cpu_affinity (threads s t)))"
  obtain q where q: "ready_head (g_ki_prcb s c) = Some q"
    and g': "g_ki_prcb s' = (g_ki_prcb s)(c := (g_ki_prcb s c)\<lparr>ready_head := Some (q @ [t])\<rparr>)"
    and w': "s_wait_list s' = s_wait_list s"
    and t': "threads s' = (threads s)(t := (threads s t)\<lparr>cpu_current := int c, tstate := KI_THREAD_READY\<rparr>)"
    using assms(2,5)
    by (auto simp: ki_ready_thread_def Let_def ki_ready_insert_def c_def split: option.splits if_splits)
  have on: "online (g_ki_prcb s c)" using q sched_inv_offline [OF assms(1), of c] by auto
  note cpu = sched_inv_cpu [OF assms(1) on]
  let ?p' = "(g_ki_prcb s c)\<lparr>ready_head := Some (q @ [t])\<rparr>"
  have "placed s' + cpu_threads (g_ki_prcb s c) + mset (s_wait_list s) = placed s + cpu_threads ?p' + mset (s_wait_list s')"
    by (rule placed_upd [OF cpu(1) g'])
  moreover have "cpu_threads ?p' = add_mset t (cpu_threads (g_ki_prcb s c))"
    using on q by (simp add: cpu_threads_def add_mset_commute)
  ultimately have placed: "placed s' = add_mset t (placed s)" by (simp add: w')
  have fresh: "t \<notin># cpu_threads (g_ki_prcb s d)" if "online (g_ki_prcb s d)" for d
    using mset_subset_eqD [OF cpu_threads_placed [OF sched_inv_cpu(1) [OF assms(1) that]]] assms(3) by blast
  have "cpu_inv s' d" for d
  proof (cases "online (g_ki_prcb s d)")
    case True
    have ne: "t \<noteq> current_thread (g_ki_prcb s d)" "t \<noteq> idle_thread (g_ki_prcb s d)"
        "t \<notin> set (the (ready_head (g_ki_prcb s d)))"
      using fresh [OF True] idle_placed [OF assms(1) True] True by (auto simp: cpu_threads_def)
    have old: "cpu_inv s d" using assms(1) by (simp add: sched_inv_def)
    have other: "threads s' u = threads s u" if "u \<noteq> t" for u using that by (simp add: t')
    have tt: "tstate (threads s' t) = KI_THREAD_READY" by (simp add: t')
    show ?thesis
    proof (cases "d = c")
      case dc: True
      have "ready_head (g_ki_prcb s' d) = Some (q @ [t])" "current_thread (g_ki_prcb s' d) = current_thread (g_ki_prcb s d)"
        "idle_thread (g_ki_prcb s' d) = idle_thread (g_ki_prcb s d)" by (simp_all add: g' dc)
      moreover have "threads s' u = threads s u" if "u \<in> set q" for u using that ne q dc by (intro other) auto
      moreover have "online (g_ki_prcb s' d)" using on by (simp add: g' dc)
      ultimately show ?thesis using old True ne q dc assms(2) tt
        by (auto simp: cpu_inv_def Let_def other)
    next
      case False
      then have "g_ki_prcb s' d = g_ki_prcb s d" by (simp add: g')
      moreover have "threads s' u = threads s u" if "u \<in> set (the (ready_head (g_ki_prcb s d)))" for u
        using that ne by (intro other) auto
      ultimately show ?thesis using old ne by (simp add: cpu_inv_def Let_def other)
    qed
  next
    case False
    then have "d \<noteq> c" using on by auto
    then show ?thesis using False sched_inv_offline [OF assms(1) False] by (simp add: cpu_inv_def Let_def g')
  qed
  moreover have "u \<noteq> 0 \<and> tstate (threads s' u) = KI_THREAD_WAITING" if "u \<in> set (s_wait_list s')" for u
  proof -
    have "u \<in># placed s" using that by (simp add: placed_def w')
    then have "u \<noteq> t" using assms(3) by auto
    then show ?thesis using that assms(1) by (simp add: t' w' sched_inv_def)
  qed
  moreover have "count (placed s') u \<le> 1" for u
  proof (cases "u = t")
    case True
    then show ?thesis using assms(3) by (simp add: placed not_in_iff)
  next
    case False
    then show ?thesis using assms(1) by (simp add: placed sched_inv_def)
  qed
  moreover have "quantum (threads s' u) \<le> s_quantum_default" if "u \<in># placed s'" for u
    using that assms(1,4) by (auto simp: placed t' sched_inv_def)
  ultimately have "sched_inv s'" by (simp add: sched_inv_def)
  moreover have "\<forall>u. u \<noteq> t \<longrightarrow> threads s' u = threads s u" by (simp add: t')
  ultimately show ?thesis using placed w' g' q on by blast
qed

lemma wake_scan_mset:
  "ki_wake_scan th obj wa n ts = (b, r) \<Longrightarrow> mset ts = mset b + mset r \<and> n + length b \<le> max n 16"
proof (induction th obj wa n ts arbitrary: b r rule: ki_wake_scan.induct)
  case (2 th obj wa n t ts)
  show ?case
  proof (cases "n \<ge> 16")
    case True
    with 2(3) show ?thesis by auto
  next
    case small: False
    show ?thesis
    proof (cases "wait_object (th t) = obj")
      case True
      show ?thesis
      proof (cases wa)
        case True
        obtain b' r' where e: "ki_wake_scan th obj wa (Suc n) ts = (b', r')" by fastforce
        then have "b = t # b'" "r = r'" using 2(3) small \<open>wait_object (th t) = obj\<close> True by auto
        then show ?thesis using 2(1) [OF small \<open>wait_object (th t) = obj\<close> _ e] True small by auto
      next
        case False
        then show ?thesis using 2(3) small \<open>wait_object (th t) = obj\<close> by auto
      qed
    next
      case False
      obtain b' r' where e: "ki_wake_scan th obj wa n ts = (b', r')" by fastforce
      then have "b = b'" "r = t # r'" using 2(3) small False by auto
      then show ?thesis using 2(2) [OF small False e] by auto
    qed
  qed
qed simp

lemma ready_all_inv:
  assumes "sched_inv s" "ki_ready_all ts s = Some s'" "distinct ts" "\<forall>t \<in> set ts. t \<noteq> 0 \<and> t \<notin># placed s \<and>
    quantum (threads s t) \<le> s_quantum_default"
  shows "sched_inv s' \<and> placed s' = placed s + mset ts"
  using assms
proof (induction ts arbitrary: s)
  case (Cons t ts)
  from Cons.prems(2) obtain s1 where s1: "ki_ready_thread t s = Some s1" "ki_ready_all ts s1 = Some s'"
    by (auto split: option.splits)
  have "t \<noteq> 0" "t \<notin># placed s" "quantum (threads s t) \<le> s_quantum_default" using Cons.prems(4) by simp_all
  note r = ready_inv [OF Cons.prems(1) this s1(1)]
  have "sched_inv s' \<and> placed s' = placed s1 + mset ts"
  proof (rule Cons.IH [OF _ s1(2)])
    show "sched_inv s1" "distinct ts" using r Cons.prems(3) by simp_all
    show "\<forall>u \<in> set ts. u \<noteq> 0 \<and> u \<notin># placed s1 \<and> quantum (threads s1 u) \<le> s_quantum_default"
      using r Cons.prems(3,4) by auto
  qed
  then show ?case using r by simp
qed simp

lemma wake_inv:
  assumes "sched_inv s" "ki_wake obj wa s = Some (s', n)"
  shows "sched_inv s' \<and> placed s' = placed s \<and> n \<le> 16"
proof -
  obtain b r where sc: "ki_wake_scan (threads s) obj wa 0 (s_wait_list s) = (b, r)" by fastforce
  have ms: "mset (s_wait_list s) = mset b + mset r" "length b \<le> 16" using wake_scan_mset [OF sc] by auto
  define m where "m = s\<lparr>s_wait_list := r,
      threads := (\<lambda>t. if t \<in> set b then (threads s t)\<lparr>wait_object := 0\<rparr> else threads s t)\<rparr>"
  have run: "ki_ready_all b m = Some s'" "n = length b"
    using assms(2) sc by (auto simp: ki_wake_def m_def)
  have ts: "tstate (threads m t) = tstate (threads s t)" "quantum (threads m t) = quantum (threads s t)" for t
    by (simp_all add: m_def)
  have g: "g_ki_prcb m = g_ki_prcb s" and w: "s_wait_list m = r" by (simp_all add: m_def)
  have pl: "placed s = placed m + mset b" by (simp add: placed_def g w ms ac_simps)
  have once: "count (placed s) t \<le> 1" for t using assms(1) by (simp add: sched_inv_def)
  have sub: "set r \<subseteq> set (s_wait_list s)" "set b \<subseteq> set (s_wait_list s)"
    using ms(1) by (metis mset_subset_eq_add_left mset_subset_eq_add_right set_mset_mono set_mset_mset)+
  have "cpu_inv m c = cpu_inv s c" for c by (simp add: cpu_inv_def g ts)
  moreover have "count (placed m) t \<le> 1" for t using once [of t] pl by simp
  moreover have "quantum (threads m t) \<le> s_quantum_default" if "t \<in># placed m" for t
    using assms(1) that pl by (simp add: sched_inv_def ts)
  ultimately have minv: "sched_inv m"
    using assms(1) sub by (auto simp: sched_inv_def ts w)
  have once': "count (placed m) t + count (mset b) t \<le> 1" for t using once [of t] pl by simp
  have "distinct b" using once' by (simp add: distinct_count_le [symmetric]) (meson add_leD2)
  moreover have "t \<notin># placed m" if "t \<in> set b" for t
  proof -
    have "0 < count (mset b) t" using that by simp
    with once' [of t] have "count (placed m) t = 0" by linarith
    then show ?thesis by (simp add: not_in_iff)
  qed
  moreover have "t \<noteq> 0 \<and> quantum (threads m t) \<le> s_quantum_default" if "t \<in> set b" for t
    using that sub(2) assms(1) pl by (auto simp: sched_inv_def ts)
  ultimately have "sched_inv s' \<and> placed s' = placed m + mset b"
    by (intro ready_all_inv [OF minv run(1)]) auto
  then show ?thesis using pl run(2) ms(2) by simp
qed

lemma sched_step_inv:
  assumes "sched_step s s'" "sched_inv s"
  shows "sched_inv s'"
  using assms
proof (induction rule: sched_step.induct)
  case (tick aid s s')
  then show ?case using tick_inv by blast
next
  case (sleep s aid obj s')
  then show ?case using sleep_inv by blast
next
  case (wake obj wa s s' n)
  then show ?case using wake_inv by blast
next
  case (ready t s s')
  then show ?case using ready_inv by blast
next
  case (exit s aid s')
  then show ?case using exit_inv by blast
qed

lemma sched_reach_inv: "sched_reach s0 s \<Longrightarrow> sched_inv s0 \<Longrightarrow> sched_inv s"
  by (induction rule: sched_reach.induct) (auto intro: sched_step_inv)

definition thread_zero :: ki_thread_t where
  "thread_zero = \<lparr>saved_rsp = 0, tstate = KI_THREAD_NEW, priority = 0, cpu_affinity = 0, cpu_current = -1,
     tid = 0, stack_base = 0, stack_size = 0, tentry = 0, targ = 0, wait_object = 0, quantum = 0,
     is_ring3 = False, user_teb = 0, kstack_top = 0\<rparr>"


text \<open>A machine of one CPU right after the initialisation: only the idle thread, at address 4096.\<close>

definition sched_boot :: "ki_thread_t \<Rightarrow> sched_state" where
  "sched_boot t0 = ki_init_processor 0 0 \<lparr>threads = (\<lambda>_. t0),
     g_ki_prcb = (\<lambda>_. \<lparr>current_thread = 0, idle_thread = 0, ready_head = None, apic_id = 0, cpu_index = 0, online = False\<rparr>),
     g_ki_cpu_count = 0, g_ring3_active = False, g_p4_active = True, s_wait_list = [], s_apic_to_cpu = (\<lambda>_. 0),
     s_idle_pool = (\<lambda>c. 4096 * (c + 1)), s_next_tid = 100, s_rr_cpu = 0, sheap = heap_init, stack_mem = (\<lambda>_. 0),
     cpu_rsp = 0, tss_rsp0 = 0, gs_base = 0, kpcr_addr = 0\<rparr>"

lemma sched_boot_simps [simp]:
  "g_ki_prcb (sched_boot t0) c = (if c = 0
     then \<lparr>current_thread = 4096, idle_thread = 4096, ready_head = Some [], apic_id = 0, cpu_index = 0, online = True\<rparr>
     else \<lparr>current_thread = 0, idle_thread = 0, ready_head = None, apic_id = 0, cpu_index = 0, online = False\<rparr>)"
  "s_wait_list (sched_boot t0) = []" "g_ki_cpu_count (sched_boot t0) = 1"
  "tstate (threads (sched_boot t0) t) = (if t = 4096 then KI_THREAD_RUNNING else tstate t0)"
  "quantum (threads (sched_boot t0) t) = (if t = 4096 then 4 else quantum t0)"
  "ki_current_cpu_index aid (sched_boot t0) = 0"
  by (simp_all add: sched_boot_def ki_init_processor_def Let_def MAX_CPUS_def s_quantum_default_def
      ki_current_cpu_index_def upd_thread_def upd_prcb_def)

lemma sched_boot_placed: "placed (sched_boot t0) = {#4096#}"
  by (simp add: placed_def MAX_CPUS_def cpu_threads_def lessThan_Suc numeral_eq_Suc)

lemma sched_boot_inv: "sched_inv (sched_boot t0)"
  by (simp add: sched_inv_def sched_boot_placed cpu_inv_def MAX_CPUS_def s_quantum_default_def)


section \<open>Every ready thread runs\<close>

fun sched_ticks :: "u32 \<Rightarrow> nat \<Rightarrow> sched_state \<Rightarrow> sched_state option" where
  "sched_ticks aid 0 s = Some s"
| "sched_ticks aid (Suc n) s = (case ki_quantum_end aid s of None \<Rightarrow> None | Some s1 \<Rightarrow> sched_ticks aid n s1)"

lemma sched_ticks_add:
  "sched_ticks aid m s = Some s1 \<Longrightarrow> sched_ticks aid (m + n) s = sched_ticks aid n s1"
  by (induction m arbitrary: s) (auto split: option.splits)

text \<open>Within the quantum of the running thread the first ready thread takes over.\<close>

lemma next_takes_over:
  assumes "sched_inv s" "ki_current_cpu_index aid s = c" "online (g_ki_prcb s c)"
    and "ready_head (g_ki_prcb s c) = Some (nxt # q)"
    and "current_thread (g_ki_prcb s c) = idle_thread (g_ki_prcb s c) \<or>
         quantum (threads s (current_thread (g_ki_prcb s c))) \<le> int (Suc k)"
  shows "\<exists>n s'. n \<le> Suc k \<and> sched_ticks aid n s = Some s' \<and> sched_inv s' \<and> ki_current_cpu_index aid s' = c \<and>
    online (g_ki_prcb s' c) \<and> current_thread (g_ki_prcb s' c) = nxt \<and>
    ready_head (g_ki_prcb s' c) = Some (q @ [current_thread (g_ki_prcb s c)])"
  using assms
proof (induction k arbitrary: s)
  case (0 s)
  let ?cur = "current_thread (g_ki_prcb s c)"
  note cpu = sched_inv_cpu [OF 0(1,3)]
  have "nxt \<noteq> ?cur" using cpu(4) 0(4) by auto
  with quantum_switch [OF 0(2,3) refl cpu(3) _ 0(4)] 0(5) cpu(6) obtain s' where
    "ki_quantum_end aid s = Some s'" "g_ki_prcb s' = (g_ki_prcb s)(c := (g_ki_prcb s c)\<lparr>
      ready_head := Some (q @ [?cur]), current_thread := nxt\<rparr>)" "s_apic_to_cpu s' = s_apic_to_cpu s" by auto
  then show ?case using tick_inv [OF 0(1)] 0(2,3)
    by (intro exI [of _ 1] exI [of _ s']) (simp add: ki_current_cpu_index_def)
next
  case (Suc k s)
  let ?cur = "current_thread (g_ki_prcb s c)"
  show ?case
  proof (cases "?cur = idle_thread (g_ki_prcb s c) \<or> quantum (threads s ?cur) \<le> int (Suc k)")
    case True
    from Suc.IH [OF Suc.prems(1-4) True] obtain n s' where "n \<le> Suc k" "sched_ticks aid n s = Some s' \<and> sched_inv s' \<and>
      ki_current_cpu_index aid s' = c \<and> online (g_ki_prcb s' c) \<and> current_thread (g_ki_prcb s' c) = nxt \<and>
      ready_head (g_ki_prcb s' c) = Some (q @ [?cur])" by blast
    then show ?thesis by (intro exI [of _ n] exI [of _ s'] conjI) simp_all
  next
    case False
    let ?s = "upd_thread ?cur (\<lambda>x. x\<lparr>quantum := quantum (threads s ?cur) - 1\<rparr>) s"
    have qe: "ki_quantum_end aid s = Some ?s"
      by (rule quantum_goes_on [OF Suc.prems(2,3) refl sched_inv_cpu(3) [OF Suc.prems(1,3)]]) (use False in auto)
    have "sched_inv ?s" using tick_inv [OF Suc.prems(1) qe] by blast
    moreover have "ki_current_cpu_index aid ?s = c" using Suc.prems(2) by (simp add: ki_current_cpu_index_def)
    moreover have "quantum (threads ?s ?cur) \<le> int (Suc k)" using Suc.prems(5) False by simp
    ultimately obtain n s' where "n \<le> Suc k" "sched_ticks aid n ?s = Some s'" "sched_inv s'"
      "ki_current_cpu_index aid s' = c" "online (g_ki_prcb s' c)" "current_thread (g_ki_prcb s' c) = nxt"
      "ready_head (g_ki_prcb s' c) = Some (q @ [?cur])"
      using Suc.IH [of ?s] Suc.prems(3,4) by (auto simp: upd_thread_def)
    then show ?thesis using qe by (intro exI [of _ "Suc n"] exI [of _ s']) simp
  qed
qed

lemma ready_thread_runs:
  assumes "sched_inv s" "ki_current_cpu_index aid s = c" "online (g_ki_prcb s c)"
    and "ready_head (g_ki_prcb s c) = Some (q1 @ t # q2)"
  shows "\<exists>n s'. n \<le> 4 * Suc (length q1) \<and> sched_ticks aid n s = Some s' \<and> current_thread (g_ki_prcb s' c) = t"
  using assms
proof (induction q1 arbitrary: s q2)
  have q4: "quantum (threads s (current_thread (g_ki_prcb s c))) \<le> int (Suc 3)"
    if "sched_inv s" "online (g_ki_prcb s c)" for s
    using mset_subset_eqD [OF cpu_threads_placed [OF sched_inv_cpu(1) [OF that]] idle_placed(2) [OF that]] that(1)
    by (simp add: sched_inv_def s_quantum_default_def)
  case (Nil s q2)
  from next_takes_over [OF Nil(1-3), of t q2 3] Nil(4) q4 [OF Nil(1,3)] show ?case by fastforce
next
  have q4: "quantum (threads s (current_thread (g_ki_prcb s c))) \<le> int (Suc 3)"
    if "sched_inv s" "online (g_ki_prcb s c)" for s
    using mset_subset_eqD [OF cpu_threads_placed [OF sched_inv_cpu(1) [OF that]] idle_placed(2) [OF that]] that(1)
    by (simp add: sched_inv_def s_quantum_default_def)
  case (Cons u q1 s q2)
  from next_takes_over [OF Cons.prems(1-3), of u "q1 @ t # q2" 3] Cons.prems(4) q4 [OF Cons.prems(1,3)]
  obtain n s1 where s1: "n \<le> 4" "sched_ticks aid n s = Some s1" "sched_inv s1" "ki_current_cpu_index aid s1 = c"
      "online (g_ki_prcb s1 c)" "ready_head (g_ki_prcb s1 c) = Some (q1 @ t # (q2 @ [current_thread (g_ki_prcb s c)]))"
    by auto
  from Cons.IH [OF s1(3-6)] obtain m s' where "m \<le> 4 * Suc (length q1)" "sched_ticks aid m s1 = Some s'"
      "current_thread (g_ki_prcb s' c) = t" by blast
  then show ?case using s1(1) sched_ticks_add [OF s1(2), of m] by (intro exI [of _ "n + m"] exI [of _ s']) simp
qed

text \<open>C24: No ready thread starves: a thread with \<open>k\<close> threads ahead of it in the ready queue of a CPU is
  running on that CPU after at most \<open>4 (k + 1)\<close> timer ticks.\<close>
theorem sched_no_starvation:
  assumes "sched_inv s0" "sched_reach s0 s" "online (g_ki_prcb s (ki_current_cpu_index aid s))"
    and "ready_head (g_ki_prcb s (ki_current_cpu_index aid s)) = Some (q1 @ t # q2)"
  shows "\<exists>n s'. n \<le> 4 * (length q1 + 1) \<and> sched_ticks aid n s = Some s' \<and>
    current_thread (g_ki_prcb s' (ki_current_cpu_index aid s)) = t"
  using ready_thread_runs [OF sched_reach_inv [OF assms(2,1)] refl assms(3,4)] by simp

lemma sched_boot_ready:
  assumes "cpu_affinity t0 = 0" "quantum t0 = 4"
  shows "\<exists>s. ki_ready_thread 8192 (sched_boot t0) = Some s \<and> sched_step (sched_boot t0) s \<and>
    ready_head (g_ki_prcb s 0) = Some [8192] \<and> online (g_ki_prcb s 0) \<and> ki_current_cpu_index 0 s = 0"
proof -
  have aff: "cpu_affinity (threads (sched_boot t0) 8192) = 0"
    using assms(1) by (simp add: sched_boot_def ki_init_processor_def Let_def MAX_CPUS_def upd_thread_def upd_prcb_def)
  define s where "s = upd_prcb 0 (\<lambda>p. p\<lparr>ready_head := Some [8192]\<rparr>)
    (upd_thread 8192 (\<lambda>x. x\<lparr>cpu_current := 0, tstate := KI_THREAD_READY\<rparr>) (sched_boot t0))"
  have run: "ki_ready_thread 8192 (sched_boot t0) = Some s"
    by (simp add: ki_ready_thread_def aff MAX_CPUS_def ki_ready_insert_def s_def)
  moreover have "sched_step (sched_boot t0) s"
    by (rule sched_step.ready [OF _ _ _ run])
      (simp_all add: sched_boot_placed assms(2) s_quantum_default_def)
  moreover have "ki_current_cpu_index 0 s = ki_current_cpu_index 0 (sched_boot t0)"
    by (simp add: s_def ki_current_cpu_index_def)
  ultimately show ?thesis by (simp add: s_def)
qed

theorem sched_no_starvation_witness:
  "\<exists>s n s'. ki_ready_thread 8192 (sched_boot \<lparr>saved_rsp = 0, tstate = KI_THREAD_NEW, priority = 8,
      cpu_affinity = 0, cpu_current = -1, tid = 101, stack_base = 0, stack_size = 0, tentry = 0, targ = 0,
      wait_object = 0, quantum = 4, is_ring3 = False, user_teb = 0, kstack_top = 0\<rparr>) = Some s \<and>
    sched_ticks 0 n s = Some s' \<and> current_thread (g_ki_prcb s' 0) = 8192"
proof -
  let ?t = "\<lparr>saved_rsp = 0, tstate = KI_THREAD_NEW, priority = 8,
      cpu_affinity = 0, cpu_current = -1, tid = 101, stack_base = 0, stack_size = 0, tentry = 0, targ = 0,
      wait_object = 0, quantum = 4, is_ring3 = False, user_teb = 0, kstack_top = 0\<rparr>"
  obtain s where s: "ki_ready_thread 8192 (sched_boot ?t) = Some s" "sched_step (sched_boot ?t) s"
      "ready_head (g_ki_prcb s 0) = Some [8192]" "online (g_ki_prcb s 0)" "ki_current_cpu_index 0 s = 0"
    using sched_boot_ready [of ?t] by auto
  have r: "sched_reach (sched_boot ?t) s" by (rule sched_reach.step [OF sched_reach.start s(2)])
  have "ready_head (g_ki_prcb s (ki_current_cpu_index 0 s)) = Some ([] @ 8192 # [])" using s(3,5) by simp
  from sched_no_starvation [OF sched_boot_inv r _ this] s show ?thesis by auto
qed

section \<open>Limits\<close>

lemma wake_scan_all:
  "\<forall>t \<in> set ts. wait_object (th t) = obj \<Longrightarrow> n \<le> 16 \<Longrightarrow>
     ki_wake_scan th obj True n ts = (take (16 - n) ts, drop (16 - n) ts)"
proof (induction ts arbitrary: n)
  case (Cons t ts)
  show ?case
  proof (cases "n = 16")
    case False
    then have "16 - n = Suc (16 - Suc n)" using Cons.prems(2) by simp
    then show ?thesis using Cons False by simp
  qed simp
qed simp

text \<open>A wake-up of all waiters releases at most 16: when more than 16 threads wait on the object the
  others stay in the wait list.\<close>
theorem ki_wake_all_limit:
  assumes "\<forall>t \<in> set (s_wait_list s). wait_object (threads s t) = obj" "16 < length (s_wait_list s)"
    and "ki_wake obj True s = Some (s', n)"
  shows "n = 16 \<and> s_wait_list s' = drop 16 (s_wait_list s) \<and> s_wait_list s' \<noteq> []"
proof -
  let ?w = "s_wait_list s"
  have sc: "ki_wake_scan (threads s) obj True 0 ?w = (take 16 ?w, drop 16 ?w)"
    using wake_scan_all [OF assms(1), of 0] by simp
  have keep: "ki_ready_all ts m = Some m' \<Longrightarrow> s_wait_list m' = s_wait_list m" for ts m m'
  proof (induction ts arbitrary: m)
    case (Cons t ts)
    then obtain m1 where m1: "ki_ready_thread t m = Some m1" "ki_ready_all ts m1 = Some m'"
      by (auto split: option.splits)
    have "s_wait_list m1 = s_wait_list m"
      using m1(1) by (auto simp: ki_ready_thread_def Let_def ki_ready_insert_def split: if_splits option.splits)
    then show ?case using Cons.IH [OF m1(2)] by simp
  qed simp
  show ?thesis
    using assms(2,3) sc by (auto simp: ki_wake_def dest!: keep)
qed

text \<open>Blocking is safe on one processor only.  If another processor wakes the waiters between
  \<open>ki_block_current\<close> and the switch, the thread is put into a ready queue while it is still running, so
  that two processors can run it at once: the consistency of the queues is lost.\<close>
theorem block_wake_race:
  assumes "sched_inv s" "online (g_ki_prcb s (ki_current_cpu_index aid s))" "ki_can_block aid s"
    and "s_wait_list s = []" "cpu_affinity (threads s (ki_current_thread aid s)) = int d"
    and "online (g_ki_prcb s d)"
  shows "\<exists>s2. ki_wake obj False (ki_block_current aid obj s) = Some (s2, 1) \<and>
    ki_current_thread aid s2 = ki_current_thread aid s \<and>
    ki_current_thread aid s \<in> set (the (ready_head (g_ki_prcb s2 d))) \<and>
    count (placed s2) (ki_current_thread aid s) = 2 \<and> \<not> sched_inv s2"
proof -
  let ?c = "ki_current_cpu_index aid s"
  define cur where "cur = ki_current_thread aid s"
  have cc: "current_thread (g_ki_prcb s ?c) = cur" by (simp add: cur_def ki_current_thread_def)
  have nz: "cur \<noteq> 0" using sched_inv_cpu(3) [OF assms(1,2)] cc by simp
  define b where "b = ki_block_current aid obj s"
  have b: "s_wait_list b = [cur]" "g_ki_prcb b = g_ki_prcb s" "wait_object (threads b cur) = obj"
    "cpu_affinity (threads b cur) = int d" "s_apic_to_cpu b = s_apic_to_cpu s"
    using nz assms(4,5) by (simp_all add: b_def ki_block_current_def cur_def [symmetric] Let_def)
  have sc: "ki_wake_scan (threads b) obj False 0 (s_wait_list b) = ([cur], [])" by (simp add: b)
  obtain q where q: "ready_head (g_ki_prcb s d) = Some q" using sched_inv_cpu(2) [OF assms(1,6)] by blast
  have d: "d < MAX_CPUS" by (rule sched_inv_cpu(1) [OF assms(1,6)])
  define m where "m = b\<lparr>s_wait_list := [],
      threads := (\<lambda>t. if t \<in> set [cur] then (threads b t)\<lparr>wait_object := 0\<rparr> else threads b t)\<rparr>"
  define s2 where "s2 = upd_prcb d (\<lambda>p. p\<lparr>ready_head := Some (q @ [cur])\<rparr>)
    (upd_thread cur (\<lambda>x. x\<lparr>cpu_current := int d, tstate := KI_THREAD_READY\<rparr>) m)"
  have m: "cpu_affinity (threads m cur) = int d" "g_ki_prcb m = g_ki_prcb s" using b by (simp_all add: m_def)
  have "ki_ready_thread cur m = Some s2"
    using nz d q by (simp add: ki_ready_thread_def m ki_ready_insert_def s2_def)
  then have run: "ki_wake obj False b = Some (s2, 1)" by (simp add: ki_wake_def sc m_def)
  have s2: "g_ki_prcb s2 = (g_ki_prcb s)(d := (g_ki_prcb s d)\<lparr>ready_head := Some (q @ [cur])\<rparr>)"
    "s_wait_list s2 = []" "s_apic_to_cpu s2 = s_apic_to_cpu s"
    by (simp_all add: s2_def m) (simp_all add: m_def b)
  have ct2: "ki_current_thread aid s2 = cur"
    using cc by (auto simp: ki_current_thread_def ki_current_cpu_index_def s2)
  have "placed s2 + cpu_threads (g_ki_prcb s d) + mset (s_wait_list s) =
      placed s + cpu_threads ((g_ki_prcb s d)\<lparr>ready_head := Some (q @ [cur])\<rparr>) + mset (s_wait_list s2)"
    by (rule placed_upd [OF d s2(1)])
  moreover have "cpu_threads ((g_ki_prcb s d)\<lparr>ready_head := Some (q @ [cur])\<rparr>) = add_mset cur (cpu_threads (g_ki_prcb s d))"
    using assms(6) q by (simp add: cpu_threads_def add_mset_commute)
  ultimately have p2: "placed s2 = add_mset cur (placed s)" by (simp add: s2 assms(4))
  have "cur \<in># placed s"
    using mset_subset_eqD [OF cpu_threads_placed [OF sched_inv_cpu(1) [OF assms(1,2)]] idle_placed(2) [OF assms(1,2)]] cc
    by simp
  moreover have "count (placed s) cur \<le> 1" using assms(1) by (simp add: sched_inv_def)
  ultimately have "count (placed s) cur = 1" by (metis One_nat_def Suc_leI count_greater_zero_iff le_antisym)
  then have "count (placed s2) cur = 2" by (simp add: p2)
  moreover have "\<not> sched_inv s2"
  proof
    assume "sched_inv s2"
    then have "count (placed s2) cur \<le> 1" by (simp add: sched_inv_def)
    with calculation show False by simp
  qed
  ultimately show ?thesis using run ct2 s2(1) unfolding b_def cur_def [symmetric] by simp
qed

definition sched_two :: sched_state where
  "sched_two = (let t0 = \<lparr>saved_rsp = 0, tstate = KI_THREAD_RUNNING, priority = 8,
      cpu_affinity = 0, cpu_current = 0, tid = 101, stack_base = 0, stack_size = 0, tentry = 0, targ = 0,
      wait_object = 0, quantum = 4, is_ring3 = False, user_teb = 0, kstack_top = 0\<rparr>
    in (sched_boot t0)\<lparr>g_ki_prcb := (g_ki_prcb (sched_boot t0))(0 := \<lparr>current_thread = 8192, idle_thread = 4096,
      ready_head = Some [4096], apic_id = 0, cpu_index = 0, online = True\<rparr>)\<rparr>)"

lemma sched_two_inv: "sched_inv sched_two"
proof -
  have "placed sched_two = {#8192, 4096#}"
    by (simp add: sched_two_def Let_def placed_def MAX_CPUS_def cpu_threads_def lessThan_Suc numeral_eq_Suc)
  then show ?thesis
    by (auto simp: sched_inv_def cpu_inv_def sched_two_def Let_def MAX_CPUS_def s_quantum_default_def)
qed

theorem block_wake_race_witness:
  "\<exists>s2. ki_wake 777 False (ki_block_current 0 777 sched_two) = Some (s2, 1) \<and>
     count (placed s2) (ki_current_thread 0 sched_two) = 2"
proof -
  have idx: "ki_current_cpu_index 0 sched_two = 0"
    using sched_boot_simps(6) [of 0] by (simp add: sched_two_def Let_def ki_current_cpu_index_def)
  have "g_p4_active sched_two"
    by (simp add: sched_two_def Let_def sched_boot_def ki_init_processor_def MAX_CPUS_def upd_thread_def upd_prcb_def)
  then have "online (g_ki_prcb sched_two (ki_current_cpu_index 0 sched_two))" "ki_can_block 0 sched_two"
    "s_wait_list sched_two = []" "online (g_ki_prcb sched_two 0)"
    unfolding ki_can_block_def idx by (simp_all add: sched_two_def Let_def)
  moreover have "cpu_affinity (threads sched_two (ki_current_thread 0 sched_two)) = int 0"
    unfolding ki_current_thread_def idx
    by (simp add: sched_two_def Let_def sched_boot_def ki_init_processor_def MAX_CPUS_def upd_thread_def upd_prcb_def)
  ultimately show ?thesis using block_wake_race [OF sched_two_inv, of 0 0 777] by blast
qed

lemma ready_all_cpu0:
  "\<forall>t \<in> set ts. cpu_affinity (threads s t) = 0 \<Longrightarrow> ready_head (g_ki_prcb s 0) \<noteq> None \<Longrightarrow> \<exists>s'. ki_ready_all ts s = Some s'"
proof (induction ts arbitrary: s)
  case (Cons t ts)
  show ?case
  proof (cases "t = 0")
    case True
    then show ?thesis using Cons by (simp add: ki_ready_thread_def)
  next
    case False
    obtain q where q: "ready_head (g_ki_prcb s 0) = Some q" using Cons.prems(2) by blast
    let ?s = "upd_prcb 0 (\<lambda>p. p\<lparr>ready_head := Some (q @ [t])\<rparr>)
      (upd_thread t (\<lambda>x. x\<lparr>cpu_current := 0, tstate := KI_THREAD_READY\<rparr>) s)"
    have "ki_ready_thread t s = Some ?s"
      using Cons.prems(1) False q by (simp add: ki_ready_thread_def MAX_CPUS_def ki_ready_insert_def)
    moreover have "\<exists>s'. ki_ready_all ts ?s = Some s'" using Cons.prems(1) by (intro Cons.IH) simp_all
    ultimately show ?thesis by auto
  qed
qed simp

theorem ki_wake_all_limit_witness:
  "\<exists>s s' n. length (s_wait_list s) = 17 \<and> ki_wake 0 True s = Some (s', n) \<and> n = 16 \<and> s_wait_list s' \<noteq> []"
proof -
  define s where "s = sched_two\<lparr>s_wait_list := [1..<18]\<rparr>"
  have t: "wait_object (threads s u) = 0" "cpu_affinity (threads s u) = 0" for u
    by (simp_all add: s_def sched_two_def Let_def sched_boot_def ki_init_processor_def MAX_CPUS_def upd_thread_def upd_prcb_def)
  have w: "\<forall>t \<in> set (s_wait_list s). wait_object (threads s t) = 0" "16 < length (s_wait_list s)"
    using t by (simp_all add: s_def)
  obtain b r where sc: "ki_wake_scan (threads s) 0 True 0 (s_wait_list s) = (b, r)" by fastforce
  have "ready_head (g_ki_prcb s 0) \<noteq> None" by (simp add: s_def sched_two_def Let_def)
  then have "\<exists>s'. ki_ready_all b (s\<lparr>s_wait_list := r,
      threads := (\<lambda>t. if t \<in> set b then (threads s t)\<lparr>wait_object := 0\<rparr> else threads s t)\<rparr>) = Some s'"
    by (intro ready_all_cpu0) (simp_all add: t)
  then obtain s' where run: "ki_wake 0 True s = Some (s', length b)" by (auto simp: ki_wake_def sc)
  from ki_wake_all_limit [OF w run] run have "length (s_wait_list s) = 17 \<and> ki_wake 0 True s = Some (s', length b) \<and>
      length b = 16 \<and> s_wait_list s' \<noteq> []" by (simp add: s_def)
  then show ?thesis by blast
qed

end
