(* ===== verification/Dpc.thy ===== *)
theory Dpc
  imports Prelude
begin

text \<open>
  Interrupt request levels, spinlocks (\<open>src/ntos/ke/sync.c\<close>) and deferred procedure calls
  (\<open>src/ntos/ke/dpc.c\<close>).  The two depend on each other: lowering the level below
  \<open>DISPATCH_LEVEL\<close> drains the queue of the executing CPU, and queueing below
  \<open>DISPATCH_LEVEL\<close> raises and lowers the level so that the call runs at once.  The executing CPU is
  an argument.  A deferred routine is driver code: the parameter \<open>run\<close> gives what the routine at an
  address does to the state, \<open>None\<close> when it does not return.  \<open>world\<close> is the rest of
  the system, which only the routines touch.  The per-CPU queue locks delimit atomic steps.
\<close>

record KDPC =
  DpcType :: u8
  Importance :: u8
  Number :: u16
  DeferredRoutine :: nat
  DeferredContext :: nat
  SystemArgument1 :: nat
  SystemArgument2 :: nat
  DpcData :: nat

record 'w dpc_state =
  dpcs :: "nat \<Rightarrow> KDPC"
  s_q :: "nat \<Rightarrow> nat list"
  s_pending :: "nat \<Rightarrow> bool"
  s_ready :: bool
  irql :: "nat \<Rightarrow> u8"
  cr8 :: "nat \<Rightarrow> u64"
  spin :: "nat \<Rightarrow> u64"
  world :: 'w

type_synonym 'w routines =
  "nat \<Rightarrow> nat \<Rightarrow> nat \<Rightarrow> nat \<Rightarrow> nat \<Rightarrow> 'w dpc_state \<Rightarrow> 'w dpc_state option"

definition DPC_MAX_CPUS :: nat where "DPC_MAX_CPUS = 8"
definition DISPATCH_LEVEL :: u8 where "DISPATCH_LEVEL = 2"

definition cur_cpu :: "nat \<Rightarrow> nat" where
  "cur_cpu c = (if c \<ge> DPC_MAX_CPUS then 0 else c)"

definition KiInitializeDpcSubsystem :: "'w dpc_state \<Rightarrow> 'w dpc_state" where
  "KiInitializeDpcSubsystem s =
     s\<lparr>s_q := (\<lambda>i. if i < DPC_MAX_CPUS then [] else s_q s i),
       s_pending := (\<lambda>i. if i < DPC_MAX_CPUS then False else s_pending s i), s_ready := True\<rparr>"

definition KeInitializeDpc_k :: "nat \<Rightarrow> nat \<Rightarrow> nat \<Rightarrow> 'w dpc_state \<Rightarrow> 'w dpc_state" where
  "KeInitializeDpc_k d routine ctx s =
     (if d = 0 then s
      else s\<lparr>dpcs := (dpcs s)(d := \<lparr>DpcType = 0x13, Importance = 1, Number = 0xFFFF,
             DeferredRoutine = routine, DeferredContext = ctx, SystemArgument1 = 0, SystemArgument2 = 0, DpcData = 0\<rparr>)\<rparr>)"

definition KeSetImportanceDpc_k :: "nat \<Rightarrow> int \<Rightarrow> 'w dpc_state \<Rightarrow> 'w dpc_state" where
  "KeSetImportanceDpc_k d i s =
     (if d = 0 then s else s\<lparr>dpcs := (dpcs s)(d := (dpcs s d)\<lparr>Importance := word_of_int i\<rparr>)\<rparr>)"

text \<open>The loop of \<open>KiRetireDpcList\<close>.  A routine may queue further calls, so the loop need not end.\<close>

partial_function (option) retire_loop :: "'w routines \<Rightarrow> nat \<Rightarrow> 'w dpc_state \<Rightarrow> 'w dpc_state option" where
  "retire_loop run c s =
     (case s_q s c of
        [] \<Rightarrow> Some (s\<lparr>s_pending := (s_pending s)(c := False)\<rparr>)
      | e # q \<Rightarrow>
          (let d = dpcs s e;
               s1 = s\<lparr>dpcs := (dpcs s)(e := d\<lparr>Number := 0xFFFF\<rparr>), s_q := (s_q s)(c := q)\<rparr>
           in if DeferredRoutine d \<noteq> 0
              then Option.bind
                (run (DeferredRoutine d) e (DeferredContext d) (SystemArgument1 d) (SystemArgument2 d) s1)
                (retire_loop run c)
              else retire_loop run c s1))"

definition KiRetireDpcList :: "'w routines \<Rightarrow> nat \<Rightarrow> 'w dpc_state \<Rightarrow> 'w dpc_state option" where
  "KiRetireDpcList run c s =
     (if c \<ge> DPC_MAX_CPUS \<or> \<not> s_ready s then Some s else retire_loop run c s)"

definition KiCheckDpcDrain :: "'w routines \<Rightarrow> nat \<Rightarrow> 'w dpc_state \<Rightarrow> 'w dpc_state option" where
  "KiCheckDpcDrain run cpu s =
     (if \<not> s_ready s then Some s
      else (let c = cur_cpu cpu in if s_pending s c then KiRetireDpcList run c s else Some s))"

section \<open>Interrupt request levels\<close>

definition KeGetCurrentIrql_k :: "nat \<Rightarrow> 'w dpc_state \<Rightarrow> u8" where
  "KeGetCurrentIrql_k cpu s = irql s cpu"

definition ki_irql_write :: "nat \<Rightarrow> u8 \<Rightarrow> 'w dpc_state \<Rightarrow> 'w dpc_state" where
  "ki_irql_write cpu v s = s\<lparr>irql := (irql s)(cpu := v), cr8 := (cr8 s)(cpu := ucast v)\<rparr>"

definition KeRaiseIrql_k :: "nat \<Rightarrow> u8 \<Rightarrow> 'w dpc_state \<Rightarrow> 'w dpc_state \<times> u8" where
  "KeRaiseIrql_k cpu new s =
     (let old = KeGetCurrentIrql_k cpu s in (if new > old then ki_irql_write cpu new s else s, old))"

definition KfRaiseIrql_k :: "nat \<Rightarrow> u8 \<Rightarrow> 'w dpc_state \<Rightarrow> 'w dpc_state \<times> u8" where
  "KfRaiseIrql_k cpu new s = KeRaiseIrql_k cpu new s"

definition KeRaiseIrqlToDpcLevel_k :: "nat \<Rightarrow> 'w dpc_state \<Rightarrow> 'w dpc_state \<times> u8" where
  "KeRaiseIrqlToDpcLevel_k cpu s = KeRaiseIrql_k cpu DISPATCH_LEVEL s"

definition KeLowerIrql_k :: "'w routines \<Rightarrow> nat \<Rightarrow> u8 \<Rightarrow> 'w dpc_state \<Rightarrow> 'w dpc_state option" where
  "KeLowerIrql_k run cpu new s =
     (let cur = KeGetCurrentIrql_k cpu s
      in map_option (ki_irql_write cpu new)
           (if cur \<ge> DISPATCH_LEVEL \<and> new < DISPATCH_LEVEL then KiCheckDpcDrain run cpu s else Some s))"

definition KfLowerIrql_k :: "'w routines \<Rightarrow> nat \<Rightarrow> u8 \<Rightarrow> 'w dpc_state \<Rightarrow> 'w dpc_state option" where
  "KfLowerIrql_k run cpu new s = KeLowerIrql_k run cpu new s"

section \<open>The queue\<close>

definition KeInsertQueueDpc_k ::
  "'w routines \<Rightarrow> nat \<Rightarrow> nat \<Rightarrow> nat \<Rightarrow> nat \<Rightarrow> 'w dpc_state \<Rightarrow> ('w dpc_state \<times> bool) option" where
  "KeInsertQueueDpc_k run cpu d a1 a2 s =
     (if d = 0 \<or> \<not> s_ready s then Some (s, False)
      else
        (let c = cur_cpu cpu in
         if Number (dpcs s d) \<noteq> 0xFFFF then Some (s, False)
         else
           (let s1 = s\<lparr>dpcs := (dpcs s)(d := (dpcs s d)\<lparr>Number := of_nat c, SystemArgument1 := a1, SystemArgument2 := a2\<rparr>),
                       s_q := (s_q s)(c := s_q s c @ [d]), s_pending := (s_pending s)(c := True)\<rparr>
            in if irql s1 cpu < DISPATCH_LEVEL
               then (let (s2, old) = KeRaiseIrql_k cpu DISPATCH_LEVEL s1
                     in map_option (\<lambda>s3. (s3, True)) (KeLowerIrql_k run cpu old s2))
               else Some (s1, True))))"

definition KeRemoveQueueDpc_k :: "nat \<Rightarrow> 'w dpc_state \<Rightarrow> 'w dpc_state \<times> bool" where
  "KeRemoveQueueDpc_k d s =
     (if d = 0 \<or> \<not> s_ready s then (s, False)
      else
        (let c = unat (Number (dpcs s d)) in
         if c \<ge> DPC_MAX_CPUS then (s, False)
         else (s\<lparr>s_q := (s_q s)(c := remove1 d (s_q s c)),
                 dpcs := (dpcs s)(d := (dpcs s d)\<lparr>Number := 0xFFFF\<rparr>)\<rparr>, True)))"

section \<open>Spinlocks\<close>

text \<open>Acquiring spins until the word is 0: on a held lock the executing CPU does not get past it, the
  result \<open>None\<close>.  A null lock pointer is accepted and ignored.\<close>

definition KeInitializeSpinLock_k :: "nat \<Rightarrow> 'w dpc_state \<Rightarrow> 'w dpc_state" where
  "KeInitializeSpinLock_k L s = (if L = 0 then s else s\<lparr>spin := (spin s)(L := 0)\<rparr>)"

definition ki_spin_acquire :: "nat \<Rightarrow> 'w dpc_state \<Rightarrow> 'w dpc_state option" where
  "ki_spin_acquire L s = (if spin s L = 0 then Some (s\<lparr>spin := (spin s)(L := 1)\<rparr>) else None)"

definition ki_spin_release :: "nat \<Rightarrow> 'w dpc_state \<Rightarrow> 'w dpc_state" where
  "ki_spin_release L s = s\<lparr>spin := (spin s)(L := 0)\<rparr>"

definition KeAcquireSpinLockRaiseToDpc_k :: "nat \<Rightarrow> nat \<Rightarrow> 'w dpc_state \<Rightarrow> ('w dpc_state \<times> u8) option" where
  "KeAcquireSpinLockRaiseToDpc_k cpu L s =
     (let (s1, old) = KeRaiseIrql_k cpu DISPATCH_LEVEL s
      in map_option (\<lambda>s2. (s2, old)) (if L \<noteq> 0 then ki_spin_acquire L s1 else Some s1))"

definition KeReleaseSpinLock_k :: "'w routines \<Rightarrow> nat \<Rightarrow> nat \<Rightarrow> u8 \<Rightarrow> 'w dpc_state \<Rightarrow> 'w dpc_state option" where
  "KeReleaseSpinLock_k run cpu L old s =
     KeLowerIrql_k run cpu old (if L \<noteq> 0 then ki_spin_release L s else s)"

definition KeAcquireSpinLockAtDpcLevel_k :: "nat \<Rightarrow> 'w dpc_state \<Rightarrow> 'w dpc_state option" where
  "KeAcquireSpinLockAtDpcLevel_k L s = (if L \<noteq> 0 then ki_spin_acquire L s else Some s)"

definition KeReleaseSpinLockFromDpcLevel_k :: "nat \<Rightarrow> 'w dpc_state \<Rightarrow> 'w dpc_state" where
  "KeReleaseSpinLockFromDpcLevel_k L s = (if L \<noteq> 0 then ki_spin_release L s else s)"

section \<open>The queues are consistent\<close>

text \<open>A call is linked at most once, in the queue of the CPU its \<open>Number\<close> names, and a non-empty queue
  is flagged.\<close>

definition dpc_inv :: "'w dpc_state \<Rightarrow> bool" where
  "dpc_inv s \<longleftrightarrow> (\<forall>c. distinct (s_q s c) \<and> (s_q s c \<noteq> [] \<longrightarrow> c < DPC_MAX_CPUS \<and> s_pending s c)) \<and>
     (\<forall>c d. d \<in> set (s_q s c) \<longleftrightarrow> c < DPC_MAX_CPUS \<and> Number (dpcs s d) = of_nat c)"

lemma cpu_number:
  assumes "c < DPC_MAX_CPUS"
  shows "unat (of_nat c :: u16) = c" "(of_nat c :: u16) \<noteq> 0xFFFF"
proof -
  show u: "unat (of_nat c :: u16) = c"
    using assms by (intro unat_of_nat_small) (simp add: DPC_MAX_CPUS_def)
  have "unat (0xFFFF :: u16) = 65535" by simp
  then show "(of_nat c :: u16) \<noteq> 0xFFFF" using u assms by (auto simp: DPC_MAX_CPUS_def)
qed

lemma cur_cpu_less: "cur_cpu c < DPC_MAX_CPUS"
  by (simp add: cur_cpu_def DPC_MAX_CPUS_def)

lemma dpc_inv_init:
  assumes "\<forall>c \<ge> DPC_MAX_CPUS. s_q s c = []" "\<forall>d. Number (dpcs s d) = 0xFFFF"
  shows "dpc_inv (KiInitializeDpcSubsystem s)"
proof -
  have "s_q (KiInitializeDpcSubsystem s) c = []" for c
    using assms(1) by (simp add: KiInitializeDpcSubsystem_def)
  moreover have "Number (dpcs (KiInitializeDpcSubsystem s) d) = 0xFFFF" for d
    using assms(2) by (simp add: KiInitializeDpcSubsystem_def)
  ultimately show ?thesis
    using cpu_number(2) by (auto simp add: dpc_inv_def)
qed

lemma dpc_invD:
  assumes "dpc_inv s"
  shows "distinct (s_q s c)" "s_q s c \<noteq> [] \<Longrightarrow> c < DPC_MAX_CPUS" "s_q s c \<noteq> [] \<Longrightarrow> s_pending s c"
    "d \<in> set (s_q s c) \<longleftrightarrow> c < DPC_MAX_CPUS \<and> Number (dpcs s d) = of_nat c"
  using assms unfolding dpc_inv_def by blast+

lemma dpc_invI:
  assumes "\<And>c. distinct (s_q s c)" "\<And>c. s_q s c \<noteq> [] \<Longrightarrow> c < DPC_MAX_CPUS"
    "\<And>c. s_q s c \<noteq> [] \<Longrightarrow> s_pending s c"
    "\<And>c d. d \<in> set (s_q s c) \<longleftrightarrow> c < DPC_MAX_CPUS \<and> Number (dpcs s d) = of_nat c"
  shows "dpc_inv s"
  using assms unfolding dpc_inv_def by blast

lemma cpu_number_inj:
  assumes "c < DPC_MAX_CPUS" "c' < DPC_MAX_CPUS" "(of_nat c :: u16) = of_nat c'"
  shows "c = c'"
proof -
  have "unat (of_nat c :: u16) = unat (of_nat c' :: u16)" by (rule arg_cong [OF assms(3)])
  then show ?thesis unfolding cpu_number(1) [OF assms(1)] cpu_number(1) [OF assms(2)] .
qed

text \<open>Unqueueing: whoever leaves a queue has its \<open>Number\<close> reset in the same step.\<close>

lemma dpc_inv_unlink:
  assumes "dpc_inv s" "d \<in> set (s_q s c)"
    "s_q s' = (s_q s)(c := remove1 d (s_q s c))" "s_pending s' = s_pending s"
    "dpcs s' = (dpcs s)(d := (dpcs s d)\<lparr>Number := 0xFFFF\<rparr>)"
  shows "dpc_inv s'"
proof (rule dpc_invI)
  note I = dpc_invD [OF assms(1)]
  have c: "c < DPC_MAX_CPUS" "Number (dpcs s d) = of_nat c" using I(4) assms(2) by blast+
  show "distinct (s_q s' b)" for b using I(1) by (simp add: assms(3))
  show "b < DPC_MAX_CPUS" "s_pending s' b" if "s_q s' b \<noteq> []" for b
  proof -
    have "s_q s b \<noteq> []" using that by (auto simp: assms(3) split: if_splits)
    then show "b < DPC_MAX_CPUS" "s_pending s' b" using I(2,3) [of b] by (simp_all add: assms(4))
  qed
  show "e \<in> set (s_q s' b) \<longleftrightarrow> b < DPC_MAX_CPUS \<and> Number (dpcs s' e) = of_nat b" for b e
  proof (cases "e = d")
    case True
    have "d \<notin> set (s_q s b)" if "b \<noteq> c"
      using I(4) [of d b] c cpu_number_inj [OF c(1)] that by metis
    then have "d \<notin> set (s_q s' b)" using I(1) [of c] by (simp add: assms(3))
    moreover have "b < DPC_MAX_CPUS \<Longrightarrow> (0xFFFF :: u16) \<noteq> of_nat b" using cpu_number(2) by metis
    ultimately show ?thesis using True by (simp add: assms(5))
  next
    case False
    then show ?thesis using I(1) [of c] I(4) [of e b] I(4) [of e c] by (simp add: assms(3,5))
  qed
qed

lemma dpc_inv_remove:
  assumes "dpc_inv s"
  shows "dpc_inv (fst (KeRemoveQueueDpc_k d s))"
proof (cases "d = 0 \<or> \<not> s_ready s \<or> unat (Number (dpcs s d)) \<ge> DPC_MAX_CPUS")
  case False
  let ?c = "unat (Number (dpcs s d))"
  have "d \<in> set (s_q s ?c)" using False dpc_invD(4) [OF assms] by (simp add: not_le)
  moreover have "KeRemoveQueueDpc_k d s = (s\<lparr>s_q := (s_q s)(?c := remove1 d (s_q s ?c)),
      dpcs := (dpcs s)(d := (dpcs s d)\<lparr>Number := 0xFFFF\<rparr>)\<rparr>, True)"
    using False by (simp add: KeRemoveQueueDpc_k_def Let_def)
  ultimately show ?thesis by (intro dpc_inv_unlink [OF assms, where c = ?c and d = d]) simp_all
qed (use assms in \<open>auto simp: KeRemoveQueueDpc_k_def Let_def\<close>)

text \<open>Queueing at \<open>DISPATCH_LEVEL\<close> or above: at the tail of the executing CPU's queue, or refused when
  the call is already queued.\<close>

lemma insert_high:
  assumes "s_ready s" "d \<noteq> 0" "irql s cpu \<ge> DISPATCH_LEVEL" "Number (dpcs s d) = 0xFFFF"
  shows "KeInsertQueueDpc_k run cpu d a1 a2 s = Some (s\<lparr>
      dpcs := (dpcs s)(d := (dpcs s d)\<lparr>Number := of_nat (cur_cpu cpu), SystemArgument1 := a1, SystemArgument2 := a2\<rparr>),
      s_q := (s_q s)(cur_cpu cpu := s_q s (cur_cpu cpu) @ [d]),
      s_pending := (s_pending s)(cur_cpu cpu := True)\<rparr>, True)"
  using assms by (simp add: KeInsertQueueDpc_k_def Let_def not_less [symmetric])

lemma dpc_inv_link:
  assumes "dpc_inv s" "c < DPC_MAX_CPUS" "Number (dpcs s d) = 0xFFFF"
    "s_q s' = (s_q s)(c := s_q s c @ [d])" "s_pending s' = (s_pending s)(c := True)"
    "dpcs s' = (dpcs s)(d := (dpcs s d)\<lparr>Number := of_nat c, SystemArgument1 := a1, SystemArgument2 := a2\<rparr>)"
  shows "dpc_inv s'"
proof (rule dpc_invI)
  note I = dpc_invD [OF assms(1)]
  have nin: "d \<notin> set (s_q s b)" for b
    using I(4) [of d b] assms(3) cpu_number(2) [of b] by auto
  show "distinct (s_q s' b)" for b using I(1) nin by (simp add: assms(4))
  show "b < DPC_MAX_CPUS" "s_pending s' b" if "s_q s' b \<noteq> []" for b
    using that I(2,3) [of b] assms(2,4,5) by (auto split: if_splits)
  show "e \<in> set (s_q s' b) \<longleftrightarrow> b < DPC_MAX_CPUS \<and> Number (dpcs s' e) = of_nat b" for b e
  proof (cases "e = d")
    case True
    then show ?thesis using nin [of b] assms(2) cpu_number_inj [of b c]
      by (auto simp: assms(4,6))
  next
    case False
    then show ?thesis using I(4) [of e b] I(4) [of e c] by (auto simp: assms(4,6))
  qed
qed

section \<open>Draining\<close>

text \<open>A routine that returns and only touches the rest of the system; \<open>f\<close> is what it does, the
  levels of the CPUs being visible to it.\<close>

definition quiet :: "'w routines \<Rightarrow> (nat \<Rightarrow> nat \<Rightarrow> nat \<Rightarrow> nat \<Rightarrow> nat \<Rightarrow> (nat \<Rightarrow> u8) \<Rightarrow> 'w \<Rightarrow> 'w) \<Rightarrow> bool" where
  "quiet run f \<longleftrightarrow> (\<forall>r d c a1 a2 s. run r d c a1 a2 s = Some (s\<lparr>world := f r d c a1 a2 (irql s) (world s)\<rparr>))"

definition dpc_call :: "(nat \<Rightarrow> nat \<Rightarrow> nat \<Rightarrow> nat \<Rightarrow> nat \<Rightarrow> (nat \<Rightarrow> u8) \<Rightarrow> 'w \<Rightarrow> 'w) \<Rightarrow>
    (nat \<Rightarrow> u8) \<Rightarrow> (nat \<Rightarrow> KDPC) \<Rightarrow> nat \<Rightarrow> 'w \<Rightarrow> 'w" where
  "dpc_call f lv D d w =
     (if DeferredRoutine (D d) = 0 then w
      else f (DeferredRoutine (D d)) d (DeferredContext (D d)) (SystemArgument1 (D d)) (SystemArgument2 (D d)) lv w)"

definition unqueue :: "nat list \<Rightarrow> (nat \<Rightarrow> KDPC) \<Rightarrow> nat \<Rightarrow> KDPC" where
  "unqueue ds D = (\<lambda>d. if d \<in> set ds then (D d)\<lparr>Number := 0xFFFF\<rparr> else D d)"

lemma unqueue_Nil [simp]: "unqueue [] D = D"
  by (simp add: unqueue_def)

lemma unqueue_Cons: "unqueue ds (D(d := (D d)\<lparr>Number := 0xFFFF\<rparr>)) = unqueue (d # ds) D"
  by (auto simp: unqueue_def)

lemma dpc_call_unqueue:
  "dpc_call f lv (D(e := (D e)\<lparr>Number := n\<rparr>)) = dpc_call f lv D"
  by (intro ext) (simp add: dpc_call_def)

text \<open>The loop drains the queue in order, calls every routine once and ends.\<close>

lemma retire_loop_quiet:
  assumes "quiet run f"
  shows "s_q s c = ds \<Longrightarrow> retire_loop run c s = Some (s\<lparr>dpcs := unqueue ds (dpcs s), s_q := (s_q s)(c := []),
     s_pending := (s_pending s)(c := False),
     world := fold (dpc_call f (irql s) (dpcs s)) ds (world s)\<rparr>)"
proof (induction ds arbitrary: s)
  case Nil
  have "(s_q s)(c := []) = s_q s" using Nil by (simp add: fun_upd_idem)
  then show ?case by (subst retire_loop.simps) (simp add: Nil)
next
  case (Cons e q)
  let ?s1 = "s\<lparr>dpcs := (dpcs s)(e := (dpcs s e)\<lparr>Number := 0xFFFF\<rparr>), s_q := (s_q s)(c := q)\<rparr>"
  let ?s2 = "?s1\<lparr>world := dpc_call f (irql s) (dpcs s) e (world s)\<rparr>"
  have "retire_loop run c s = retire_loop run c ?s2"
    using assms by (subst retire_loop.simps) (simp add: Cons.prems Let_def quiet_def dpc_call_def)
  also have "\<dots> = Some (?s2\<lparr>dpcs := unqueue q (dpcs ?s2), s_q := (s_q ?s2)(c := []),
     s_pending := (s_pending ?s2)(c := False), world := fold (dpc_call f (irql ?s2) (dpcs ?s2)) q (world ?s2)\<rparr>)"
    by (rule Cons.IH) simp
  finally show ?case
    by (elim trans, intro arg_cong [of _ _ Some] dpc_state.equality)
      (auto simp: unqueue_Cons dpc_call_unqueue fun_eq_iff)
qed

lemma drain_quiet:
  assumes "quiet run f" "s_ready s" "dpc_inv s"
  shows "KiCheckDpcDrain run cpu s = Some (s\<lparr>
     dpcs := unqueue (s_q s (cur_cpu cpu)) (dpcs s), s_q := (s_q s)(cur_cpu cpu := []),
     s_pending := (s_pending s)(cur_cpu cpu := False),
     world := fold (dpc_call f (irql s) (dpcs s)) (s_q s (cur_cpu cpu)) (world s)\<rparr>)"
proof (cases "s_pending s (cur_cpu cpu)")
  case True
  have "\<not> DPC_MAX_CPUS \<le> cur_cpu cpu" using cur_cpu_less [of cpu] by simp
  then show ?thesis using True assms(2) retire_loop_quiet [OF assms(1) refl, of "cur_cpu cpu" s]
    by (simp add: KiCheckDpcDrain_def KiRetireDpcList_def Let_def)
next
  case False
  then have e: "s_q s (cur_cpu cpu) = []" using dpc_invD(3) [OF assms(3)] by blast
  have "(s_q s)(cur_cpu cpu := []) = s_q s" "(s_pending s)(cur_cpu cpu := False) = s_pending s"
    using e False by (simp_all add: fun_upd_idem)
  then show ?thesis using False assms(2) by (simp add: KiCheckDpcDrain_def e)
qed

lemma dpc_inv_drained:
  assumes "dpc_inv s" "c < DPC_MAX_CPUS" "s_q s' = (s_q s)(c := [])" "s_pending s' = (s_pending s)(c := False)"
    "dpcs s' = unqueue (s_q s c) (dpcs s)"
  shows "dpc_inv s'"
proof (rule dpc_invI)
  note I = dpc_invD [OF assms(1)]
  show "distinct (s_q s' b)" for b using I(1) by (simp add: assms(3))
  show "b < DPC_MAX_CPUS" "s_pending s' b" if "s_q s' b \<noteq> []" for b
    using that I(2,3) [of b] by (auto simp: assms(3,4) split: if_splits)
  show "e \<in> set (s_q s' b) \<longleftrightarrow> b < DPC_MAX_CPUS \<and> Number (dpcs s' e) = of_nat b" for b e
  proof (cases "e \<in> set (s_q s c)")
    case True
    then have n: "Number (dpcs s e) = of_nat c" using I(4) by blast
    have "e \<notin> set (s_q s b)" if "b \<noteq> c"
      using I(4) [of e b] n cpu_number_inj [OF assms(2)] that by metis
    then show ?thesis using True cpu_number(2) [of b] by (auto simp: assms(3,5) unqueue_def)
  next
    case False
    then show ?thesis using I(4) [of e b] by (cases "b = c") (auto simp: assms(3,5) unqueue_def assms(2) I(4))
  qed
qed


text \<open>A boot state with one call queued by CPU 0 at \<open>DISPATCH_LEVEL\<close>, and routines that log their run.\<close>

definition dpc_boot :: "(nat \<times> nat \<times> u8) list dpc_state" where
  "dpc_boot = \<lparr>dpcs = (\<lambda>_. \<lparr>DpcType = 0x13, Importance = 1, Number = 0xFFFF, DeferredRoutine = 9,
      DeferredContext = 0, SystemArgument1 = 0, SystemArgument2 = 0, DpcData = 0\<rparr>), s_q = (\<lambda>_. []), s_pending = (\<lambda>_. False),
     s_ready = True, irql = (\<lambda>_. 2), cr8 = (\<lambda>_. 2), spin = (\<lambda>_. 0), world = []\<rparr>"

definition log_call :: "nat \<Rightarrow> nat \<Rightarrow> nat \<Rightarrow> nat \<Rightarrow> nat \<Rightarrow> (nat \<Rightarrow> u8) \<Rightarrow> (nat \<times> nat \<times> u8) list \<Rightarrow> (nat \<times> nat \<times> u8) list" where
  "log_call r d c a1 a2 lv w = w @ [(r, d, lv 0)]"

definition log_run :: "(nat \<times> nat \<times> u8) list routines" where
  "log_run r d c a1 a2 s = Some (s\<lparr>world := log_call r d c a1 a2 (irql s) (world s)\<rparr>)"

definition dpc_queued :: "(nat \<times> nat \<times> u8) list dpc_state" where
  "dpc_queued = (case KeInsertQueueDpc_k log_run 0 4096 5 6 dpc_boot of Some (s, b) \<Rightarrow> s | None \<Rightarrow> dpc_boot)"

lemma dpc_boot_inv: "dpc_inv dpc_boot"
proof (rule dpc_invI)
  show "d \<in> set (s_q dpc_boot c) \<longleftrightarrow> c < DPC_MAX_CPUS \<and> Number (dpcs dpc_boot d) = of_nat c" for c d
    using cpu_number(2) [of c] by (auto simp: dpc_boot_def)
qed (simp_all add: dpc_boot_def)

lemma dpc_queued_eq: "dpc_queued = dpc_boot\<lparr>
      dpcs := (dpcs dpc_boot)(4096 := (dpcs dpc_boot 4096)\<lparr>Number := 0, SystemArgument1 := 5, SystemArgument2 := 6\<rparr>),
      s_q := (s_q dpc_boot)(0 := [4096]), s_pending := (s_pending dpc_boot)(0 := True)\<rparr>"
proof -
  have "s_ready dpc_boot" "(4096 :: nat) \<noteq> 0" "irql dpc_boot 0 \<ge> DISPATCH_LEVEL" "Number (dpcs dpc_boot 4096) = 0xFFFF"
    by (simp_all add: dpc_boot_def DISPATCH_LEVEL_def)
  note r = insert_high [OF this, of log_run 5 6]
  have "cur_cpu 0 = 0" "s_q dpc_boot 0 = []" by (simp_all add: cur_cpu_def dpc_boot_def)
  then show ?thesis unfolding dpc_queued_def r by simp
qed


end
