(* ===== verification/Sync.thy ===== *)
theory Sync
  imports Sched
begin

text \<open>
  Dispatcher objects and waiting, \<open>src/ntos/ke/sync.c\<close>, over the scheduler.  Objects are known by the
  address of their header.  \<open>ke_legacy_active\<close> is the field \<open>legacy\<close>.  A wait that blocks is cut
  at the context switch: \<open>Switched\<close> says that the thread was put on the wait list and switched away,
  and that it runs the pass again when it is resumed.  \<open>None\<close> is the scheduler's access through a
  null pointer.  Trace output is not modelled.
\<close>

type_synonym i32 = "32 word"
type_synonym i64 = "64 word"

record DISPATCHER_HEADER =
  HdrType :: u8
  SignalState :: i32
  WaitListFlink :: nat
  WaitListBlink :: nat

record KMUTEX =
  MtxOwner :: nat
  Abandoned :: u8
  ApcDisable :: u8

record ke_state =
  sched :: sched_state
  hdr :: "nat \<Rightarrow> DISPATCHER_HEADER"
  mutexes :: "nat \<Rightarrow> KMUTEX"
  SemLimit :: "nat \<Rightarrow> i32"
  g_ticks :: u64
  legacy :: bool

datatype wait_out = Returned NTSTATUS | Switched

definition NotificationEvent :: u8 where "NotificationEvent = 0"
definition SynchronizationEvent :: u8 where "SynchronizationEvent = 1"

definition set_signal :: "nat \<Rightarrow> i32 \<Rightarrow> ke_state \<Rightarrow> ke_state" where
  "set_signal h v s = s\<lparr>hdr := (hdr s)(h := (hdr s h)\<lparr>SignalState := v\<rparr>)\<rparr>"

definition sc_consume :: "nat \<Rightarrow> ke_state \<Rightarrow> ke_state" where
  "sc_consume h s =
     (if HdrType (hdr s h) = NotificationEvent \<or> HdrType (hdr s h) = 8 then s
      else if HdrType (hdr s h) = 5
      then (if 0 <s SignalState (hdr s h) then set_signal h (SignalState (hdr s h) - 1) s else s)
      else set_signal h 0 s)"

definition wake :: "nat \<Rightarrow> bool \<Rightarrow> ke_state \<Rightarrow> ke_state option" where
  "wake h all s = (if legacy s then Some s else map_option (\<lambda>(k, n). s\<lparr>sched := k\<rparr>) (ki_wake h all (sched s)))"

section \<open>Events\<close>

definition KeInitializeEvent_k :: "nat \<Rightarrow> u32 \<Rightarrow> bool \<Rightarrow> ke_state \<Rightarrow> ke_state" where
  "KeInitializeEvent_k e ty st s =
     (if e = 0 then s
      else s\<lparr>hdr := (hdr s)(e := \<lparr>HdrType = ucast ty, SignalState = (if st then 1 else 0),
             WaitListFlink = e + 8, WaitListBlink = e + 8\<rparr>)\<rparr>)"

definition KeSetEvent_k :: "nat \<Rightarrow> ke_state \<Rightarrow> (ke_state \<times> i32) option" where
  "KeSetEvent_k e s =
     (if e = 0 then Some (s, 0)
      else map_option (\<lambda>s'. (s', SignalState (hdr s e)))
        (wake e (HdrType (hdr s e) = NotificationEvent) (set_signal e 1 s)))"

definition KeResetEvent_k :: "nat \<Rightarrow> ke_state \<Rightarrow> ke_state \<times> i32" where
  "KeResetEvent_k e s = (if e = 0 then (s, 0) else (set_signal e 0 s, SignalState (hdr s e)))"

definition KeClearEvent_k :: "nat \<Rightarrow> ke_state \<Rightarrow> ke_state \<times> i32" where
  "KeClearEvent_k e s = KeResetEvent_k e s"

definition KeReadStateEvent_k :: "nat \<Rightarrow> ke_state \<Rightarrow> i32" where
  "KeReadStateEvent_k e s = (if e = 0 then 0 else SignalState (hdr s e))"

section \<open>Waiting\<close>

text \<open>One pass of the loop of \<open>KeWaitForSingleObject\<close>; \<open>timeout\<close> is \<open>None\<close> for the null pointer.\<close>

definition KeWaitForSingleObject_k :: "u32 \<Rightarrow> nat \<Rightarrow> i64 option \<Rightarrow> ke_state \<Rightarrow> (ke_state \<times> wait_out) option" where
  "KeWaitForSingleObject_k aid h timeout s =
     (if h = 0 then Some (s, Returned STATUS_INVALID_PARAMETER)
      else if SignalState (hdr s h) \<noteq> 0 then Some (sc_consume h s, Returned STATUS_SUCCESS)
      else if timeout = Some 0 then Some (s, Returned STATUS_TIMEOUT)
      else if legacy s \<or> timeout \<noteq> None \<or> \<not> ki_can_block aid (sched s)
      then Some (s, Returned STATUS_SUCCESS)
      else map_option (\<lambda>k. (s\<lparr>sched := k\<rparr>, Switched))
        (ki_yield_processor aid (ki_block_current aid h (sched s))))"

fun wait_any :: "nat list \<Rightarrow> ke_state \<Rightarrow> ke_state" where
  "wait_any [] s = s"
| "wait_any (h # hs) s = (if h \<noteq> 0 \<and> SignalState (hdr s h) \<noteq> 0 then sc_consume h s else wait_any hs s)"

definition wait_all :: "nat list \<Rightarrow> ke_state \<Rightarrow> ke_state" where
  "wait_all hs s =
     (if length (filter (\<lambda>h. h \<noteq> 0 \<and> SignalState (hdr s h) \<noteq> 0) hs) = length hs
      then fold sc_consume hs s else s)"

definition KeWaitForMultipleObjects_k :: "nat list \<Rightarrow> bool \<Rightarrow> ke_state \<Rightarrow> ke_state \<times> NTSTATUS" where
  "KeWaitForMultipleObjects_k objs any s =
     (if legacy s then (s, STATUS_SUCCESS)
      else (if any then wait_any objs s else wait_all objs s, STATUS_SUCCESS))"

text \<open>The number of timer ticks a relative delay waits for; 0 when it returns at once.\<close>

definition KeDelayExecutionThread_ticks :: "i64 option \<Rightarrow> u64" where
  "KeDelayExecutionThread_ticks interval =
     (case interval of None \<Rightarrow> 0 | Some v \<Rightarrow> if 0 \<le>s v then 0 else (- v) div 100000)"

section \<open>Mutexes and semaphores\<close>

definition KeInitializeMutex_k :: "nat \<Rightarrow> ke_state \<Rightarrow> ke_state" where
  "KeInitializeMutex_k m s =
     (if m = 0 then s
      else s\<lparr>hdr := (hdr s)(m := (hdr s m)\<lparr>HdrType := 2, SignalState := 1\<rparr>),
             mutexes := (mutexes s)(m := \<lparr>MtxOwner = 0, Abandoned = 0, ApcDisable = 0\<rparr>)\<rparr>)"

definition KeReleaseMutex_k :: "nat \<Rightarrow> ke_state \<Rightarrow> (ke_state \<times> i32) option" where
  "KeReleaseMutex_k m s =
     (if m = 0 then Some (s, 0)
      else map_option (\<lambda>s'. (s', SignalState (hdr s m)))
        (wake m False ((set_signal m 1 s)\<lparr>mutexes := (mutexes s)(m := (mutexes s m)\<lparr>MtxOwner := 0\<rparr>)\<rparr>)))"

definition KeInitializeSemaphore_k :: "nat \<Rightarrow> i32 \<Rightarrow> i32 \<Rightarrow> ke_state \<Rightarrow> ke_state" where
  "KeInitializeSemaphore_k m cnt limit s =
     (if m = 0 then s
      else s\<lparr>hdr := (hdr s)(m := (hdr s m)\<lparr>HdrType := 5, SignalState := cnt\<rparr>),
             SemLimit := (SemLimit s)(m := limit)\<rparr>)"

definition KeReleaseSemaphore_k :: "nat \<Rightarrow> i32 \<Rightarrow> ke_state \<Rightarrow> (ke_state \<times> i32) option" where
  "KeReleaseSemaphore_k m adj s =
     (if m = 0 then Some (s, 0)
      else map_option (\<lambda>s'. (s', SignalState (hdr s m)))
        (wake m True (set_signal m (SignalState (hdr s m) + adj) s)))"

section \<open>Time\<close>

definition EPOCH_2026 :: u64 where "EPOCH_2026 = 132934176000000000"

definition KeQuerySystemTime_k :: "ke_state \<Rightarrow> i64" where
  "KeQuerySystemTime_k s = EPOCH_2026 + g_ticks s * 100000"

definition KeQueryInterruptTime_k :: "ke_state \<Rightarrow> u64" where
  "KeQueryInterruptTime_k s = g_ticks s * 100000"

definition KeQueryTimeIncrement_k :: u32 where "KeQueryTimeIncrement_k = 100000"

section \<open>What the operations leave alone\<close>

lemma set_signal_simps [simp]:
  "hdr (set_signal h v s) = (hdr s)(h := (hdr s h)\<lparr>SignalState := v\<rparr>)"
  "legacy (set_signal h v s) = legacy s" "sched (set_signal h v s) = sched s"
  by (simp_all add: set_signal_def)

lemma sc_consume_simps [simp]:
  "legacy (sc_consume h s) = legacy s" "sched (sc_consume h s) = sched s"
  "h' \<noteq> h \<Longrightarrow> hdr (sc_consume h s) h' = hdr s h'"
  "HdrType (hdr (sc_consume h s) h) = HdrType (hdr s h)"
  by (simp_all add: sc_consume_def)

lemma sc_consume_auto_reset:
  assumes "HdrType (hdr s h) \<noteq> NotificationEvent" "HdrType (hdr s h) \<noteq> 8" "HdrType (hdr s h) \<noteq> 5"
  shows "hdr (sc_consume h s) h = (hdr s h)\<lparr>SignalState := 0\<rparr>"
  using assms by (simp add: sc_consume_def)

lemma wake_fields:
  assumes "wake h all s = Some s'"
  shows "hdr s' = hdr s" "legacy s' = legacy s" "mutexes s' = mutexes s" "SemLimit s' = SemLimit s"
    "g_ticks s' = g_ticks s"
  using assms by (auto simp: wake_def split: if_splits)

lemma set_event_hdr:
  assumes "KeSetEvent_k e s = Some (s', n)" "e \<noteq> 0"
  shows "hdr s' = (hdr s)(e := (hdr s e)\<lparr>SignalState := 1\<rparr>)" "legacy s' = legacy s"
  using assms by (auto simp: KeSetEvent_k_def dest: wake_fields)

text \<open>The outcomes of a waiting pass.\<close>

lemma wait_pass_cases:
  assumes "KeWaitForSingleObject_k aid h t s = Some (s', out)" "h \<noteq> 0"
  obtains (signalled) "SignalState (hdr s h) \<noteq> 0" "s' = sc_consume h s" "out = Returned STATUS_SUCCESS"
  | (poll) "SignalState (hdr s h) = 0" "t = Some 0" "s' = s" "out = Returned STATUS_TIMEOUT"
  | (pass) "SignalState (hdr s h) = 0" "legacy s \<or> t \<noteq> None \<or> \<not> ki_can_block aid (sched s)" "s' = s"
      "out = Returned STATUS_SUCCESS"
  | (blocked) k where "SignalState (hdr s h) = 0" "\<not> legacy s" "ki_can_block aid (sched s)" "s' = s\<lparr>sched := k\<rparr>"
      "ki_yield_processor aid (ki_block_current aid h (sched s)) = Some k" "out = Switched"
proof (cases "SignalState (hdr s h) = 0")
  case False
  then have "s' = sc_consume h s \<and> out = Returned STATUS_SUCCESS"
    using assms by (simp add: KeWaitForSingleObject_k_def)
  then show thesis using signalled False by blast
next
  case sig: True
  show thesis
  proof (cases "t = Some 0")
    case True
    then have "s' = s \<and> out = Returned STATUS_TIMEOUT" using assms sig by (simp add: KeWaitForSingleObject_k_def)
    then show thesis using poll sig True by blast
  next
    case nt: False
    show thesis
    proof (cases "legacy s \<or> t \<noteq> None \<or> \<not> ki_can_block aid (sched s)")
      case True
      then have "s' = s \<and> out = Returned STATUS_SUCCESS"
        using assms sig nt by (simp add: KeWaitForSingleObject_k_def)
      then show thesis using pass sig True by blast
    next
      case False
      then have "map_option (\<lambda>k. (s\<lparr>sched := k\<rparr>, Switched))
          (ki_yield_processor aid (ki_block_current aid h (sched s))) = Some (s', out)"
        using assms sig nt by (simp add: KeWaitForSingleObject_k_def)
      then obtain k where "ki_yield_processor aid (ki_block_current aid h (sched s)) = Some k"
        "s' = s\<lparr>sched := k\<rparr>" "out = Switched" by blast
      then show thesis using blocked sig False by blast
    qed
  qed
qed

section \<open>Semaphores count\<close>

lemma sint_of_int32:
  assumes "- (2 ^ 31) \<le> k" "k < 2 ^ 31"
  shows "sint (word_of_int k :: i32) = k"
  using assms by (simp add: signed_of_int signed_take_bit_int_eq_self)

text \<open>Activity around a semaphore, with the number of waits that have been satisfied and of units that have
  been released as ghost state.  Waits are infinite and by threads that can block.\<close>

inductive sem_step :: "nat \<Rightarrow> ke_state \<times> nat \<times> nat \<Rightarrow> ke_state \<times> nat \<times> nat \<Rightarrow> bool" for m where
  wait_now: "ki_can_block aid (sched s) \<Longrightarrow> KeWaitForSingleObject_k aid m None s = Some (s', Returned r) \<Longrightarrow>
    sem_step m (s, a, n) (s', Suc a, n)"
| wait_sleep: "ki_can_block aid (sched s) \<Longrightarrow> KeWaitForSingleObject_k aid m None s = Some (s', Switched) \<Longrightarrow>
    sem_step m (s, a, n) (s', a, n)"
| release: "KeReleaseSemaphore_k m (of_nat d) s = Some (s', p) \<Longrightarrow> n + d < 2 ^ 31 \<Longrightarrow>
    sem_step m (s, a, n) (s', a, n + d)"
| other: "hdr s' m = hdr s m \<Longrightarrow> legacy s' = legacy s \<Longrightarrow> sem_step m (s, a, n) (s', a, n)"

inductive sem_reach :: "nat \<Rightarrow> ke_state \<times> nat \<times> nat \<Rightarrow> ke_state \<times> nat \<times> nat \<Rightarrow> bool" for m x where
  start: "sem_reach m x x"
| step: "sem_reach m x y \<Longrightarrow> sem_step m y z \<Longrightarrow> sem_reach m x z"

definition sem_inv :: "nat \<Rightarrow> ke_state \<times> nat \<times> nat \<Rightarrow> bool" where
  "sem_inv m x = (case x of (s, a, n) \<Rightarrow> m \<noteq> 0 \<and> \<not> legacy s \<and> HdrType (hdr s m) = 5 \<and>
     a \<le> n \<and> n < 2 ^ 31 \<and> SignalState (hdr s m) = word_of_int (int (n - a)))"

lemma sem_inv_step:
  assumes "sem_step m x y" "sem_inv m x"
  shows "sem_inv m y"
  using assms
proof (induction rule: sem_step.induct)
  case (wait_now aid s s' r a n)
  then have I: "m \<noteq> 0" "\<not> legacy s" "HdrType (hdr s m) = 5" "a \<le> n" "n < 2 ^ 31"
    "SignalState (hdr s m) = word_of_int (int (n - a))" by (simp_all add: sem_inv_def)
  from wait_now.hyps(2) I(1) show ?case
  proof (cases rule: wait_pass_cases)
    case signalled
    have lt: "a < n" using signalled(1) I(4,6) by (cases "a = n") simp_all
    have "sint (word_of_int (int (n - a)) :: i32) = int (n - a)"
      using I(5) by (intro sint_of_int32) auto
    then have "0 <s SignalState (hdr s m)" using lt by (simp only: I(6) word_sless_alt signed_0)
    then have "s' = set_signal m (SignalState (hdr s m) - 1) s"
      using signalled(2) I(3) by (simp add: sc_consume_def NotificationEvent_def)
    moreover have "SignalState (hdr s m) - 1 = word_of_int (int (n - Suc a))"
      using lt by (simp add: I(6) of_nat_diff)
    ultimately show ?thesis using I lt by (simp add: sem_inv_def)
  next
    case pass
    then show ?thesis using I(2) wait_now.hyps(1) by simp
  qed simp_all
next
  case (wait_sleep aid s s' a n)
  then have I: "m \<noteq> 0" by (simp add: sem_inv_def)
  from wait_sleep.hyps(2) I show ?case
  proof (cases rule: wait_pass_cases)
    case (blocked k)
    then show ?thesis using wait_sleep.prems by (simp add: sem_inv_def)
  qed simp_all
next
  case (release d s s' p n a)
  then have I: "m \<noteq> 0" "\<not> legacy s" "HdrType (hdr s m) = 5" "a \<le> n" "n + d < 2 ^ 31"
    "SignalState (hdr s m) = word_of_int (int (n - a))" by (simp_all add: sem_inv_def)
  obtain s1 where w: "wake m True (set_signal m (SignalState (hdr s m) + of_nat d) s) = Some s1" "s' = s1"
    using release.hyps(1) I(1) by (auto simp: KeReleaseSemaphore_k_def)
  have "SignalState (hdr s m) + of_nat d = word_of_int (int (n + d - a))"
    using I(4) by (simp add: I(6) of_nat_diff)
  then show ?case using I wake_fields [OF w(1)] w(2) by (simp add: sem_inv_def)
next
  case (other s' s a n)
  then show ?case by (simp add: sem_inv_def)
qed

lemma sem_reach_inv: "sem_reach m x y \<Longrightarrow> sem_inv m x \<Longrightarrow> sem_inv m y"
  by (induction rule: sem_reach.induct) (auto intro: sem_inv_step)


definition ke_boot :: ke_state where
  "ke_boot = \<lparr>sched = sched_two, hdr = (\<lambda>_. \<lparr>HdrType = 0, SignalState = 0, WaitListFlink = 0, WaitListBlink = 0\<rparr>),
      mutexes = (\<lambda>_. \<lparr>MtxOwner = 0, Abandoned = 0, ApcDisable = 0\<rparr>), SemLimit = (\<lambda>_. 0), g_ticks = 0, legacy = False\<rparr>"

lemma sched_two_fields: "s_wait_list sched_two = []" "ki_current_cpu_index 0 sched_two = 0"
  "g_ki_prcb sched_two 0 = \<lparr>current_thread = 8192, idle_thread = 4096,
      ready_head = Some [4096], apic_id = 0, cpu_index = 0, online = True\<rparr>"
  "s_apic_to_cpu sched_two 0 = 0"
proof -
  show a: "ki_current_cpu_index 0 sched_two = 0"
    using sched_boot_simps(6) [of 0] by (simp add: sched_two_def Let_def ki_current_cpu_index_def)
  then show "s_apic_to_cpu sched_two 0 = 0" by (simp add: ki_current_cpu_index_def)
  show "g_ki_prcb sched_two 0 = \<lparr>current_thread = 8192, idle_thread = 4096,
      ready_head = Some [4096], apic_id = 0, cpu_index = 0, online = True\<rparr>" by (simp add: sched_two_def Let_def)
  show "s_wait_list sched_two = []" by (simp add: sched_two_def Let_def)
qed

lemma wake_nobody: "s_wait_list k = [] \<Longrightarrow> ki_wake h b k = Some (k, 0)"
  by (simp add: ki_wake_def)

lemma sched_two_block: "\<exists>sk. ki_yield_processor 0 (ki_block_current 0 obj sched_two) = Some sk"
proof -
  define b where "b = ki_block_current 0 obj sched_two"
  have b: "g_ki_prcb b = g_ki_prcb sched_two" "s_apic_to_cpu b = s_apic_to_cpu sched_two" "tstate (threads b 8192) = KI_THREAD_WAITING"
    by (simp_all add: b_def ki_block_current_def ki_current_thread_def sched_two_fields Let_def)
  have "ki_current_thread 0 b = 8192" "ki_current_cpu_index 0 b = 0"
    by (simp_all add: ki_current_thread_def ki_current_cpu_index_def b sched_two_fields)
  then have "ki_yield_processor 0 b = ki_quantum_end 0 (upd_thread 8192 (\<lambda>x. x\<lparr>quantum := 0\<rparr>) b)"
    by (simp add: ki_yield_processor_def)
  then show ?thesis unfolding b_def [symmetric]
    by (simp add: ki_quantum_end_def ki_current_cpu_index_def b sched_two_fields Let_def ki_pick_next_locked_def ki_switch_to_def)
qed

lemma sched_two_can_block: "ki_can_block 0 sched_two"
proof -
  have idx: "ki_current_cpu_index 0 sched_two = 0"
    using sched_boot_simps(6) [of 0] by (simp add: sched_two_def Let_def ki_current_cpu_index_def)
  have "g_p4_active sched_two"
    by (simp add: sched_two_def Let_def sched_boot_def ki_init_processor_def MAX_CPUS_def upd_thread_def upd_prcb_def)
  then show ?thesis unfolding ki_can_block_def idx by (simp add: sched_two_def Let_def)
qed


text \<open>The limit of a semaphore is stored and never enforced: a release beyond it succeeds, reports no
  error and lets the count exceed the limit.\<close>
theorem semaphore_limit_ignored:
  "\<exists>s'. KeReleaseSemaphore_k 4096 5 (KeInitializeSemaphore_k 4096 1 1 (ke_boot\<lparr>legacy := True\<rparr>)) = Some (s', 1) \<and>
     SemLimit s' 4096 = 1 \<and> SignalState (hdr s' 4096) = 6"
  by (simp add: KeReleaseSemaphore_k_def KeInitializeSemaphore_k_def wake_def ke_boot_def set_signal_def)

text \<open>A wait with a finite timeout does not wait: on an object that is not signalled it reports success
  at once, without acquiring anything.\<close>

lemma finite_timeout_reports_success:
  assumes "h \<noteq> 0" "SignalState (hdr s h) = 0" "t \<noteq> 0"
  shows "KeWaitForSingleObject_k aid h (Some t) s = Some (s, Returned STATUS_SUCCESS)"
  using assms by (simp add: KeWaitForSingleObject_k_def)

end
