(* ===== verification/ExSync.thy ===== *)
theory ExSync
  imports Sync Dpc
begin

text \<open>
  The executive's locks, \<open>src/ntos/ex/ex_sync.c\<close>: fast mutexes and resources over the
  dispatcher objects, lookaside lists over the heap.  An acquisition that has to wait is cut at the context
  switch like the wait it is built on, and continued by the \<open>_resume\<close> operation; the retry loops of
  the resources are cut the same way.  The compare-and-exchange on one processor always succeeds after
  the load that precedes it.  Memory behind pointers is a function from addresses.
\<close>

record FAST_MUTEX =
  FmCount :: i32
  FmOwner :: nat
  Contention :: u32

record ERESOURCE =
  ActiveCount :: i32
  ExclusiveWaiters :: i32
  SharedWaiters :: i32
  ResOwner :: nat

record ex_state =
  ke :: ke_state
  fms :: "nat \<Rightarrow> FAST_MUTEX"
  ress :: "nat \<Rightarrow> ERESOURCE"

text \<open>The embedded events: at offset 24 of a fast mutex and of a resource, the semaphore at 48.\<close>

definition fm_event :: "nat \<Rightarrow> nat" where "fm_event M = M + 24"
definition res_event :: "nat \<Rightarrow> nat" where "res_event R = R + 24"
definition res_sem :: "nat \<Rightarrow> nat" where "res_sem R = R + 48"

definition ExInitializeFastMutex_k :: "nat \<Rightarrow> ex_state \<Rightarrow> ex_state" where
  "ExInitializeFastMutex_k M s =
     (if M = 0 then s
      else s\<lparr>fms := (fms s)(M := \<lparr>FmCount = 1, FmOwner = 0, Contention = 0\<rparr>),
             ke := KeInitializeEvent_k (fm_event M) 1 False (ke s)\<rparr>)"

definition fm_own :: "u32 \<Rightarrow> nat \<Rightarrow> ex_state \<Rightarrow> ex_state" where
  "fm_own aid M s = s\<lparr>fms := (fms s)(M := (fms s M)\<lparr>FmOwner := ki_current_thread aid (sched (ke s))\<rparr>)\<rparr>"

text \<open>The wait on the event and what follows it: also what a thread runs when it is resumed.\<close>

definition ExAcquireFastMutex_resume :: "u32 \<Rightarrow> nat \<Rightarrow> ex_state \<Rightarrow> (ex_state \<times> wait_out) option" where
  "ExAcquireFastMutex_resume aid M s =
     (case KeWaitForSingleObject_k aid (fm_event M) None (ke s) of
        None \<Rightarrow> None
      | Some (k, Switched) \<Rightarrow> Some (s\<lparr>ke := k\<rparr>, Switched)
      | Some (k, Returned r) \<Rightarrow> Some (fm_own aid M (s\<lparr>ke := k\<rparr>), Returned STATUS_SUCCESS))"

definition ExAcquireFastMutex_k :: "u32 \<Rightarrow> nat \<Rightarrow> ex_state \<Rightarrow> (ex_state \<times> wait_out) option" where
  "ExAcquireFastMutex_k aid M s =
     (if M = 0 \<or> legacy (ke s) then Some (s, Returned STATUS_SUCCESS)
      else
        (let n = FmCount (fms s M) - 1;
             s1 = s\<lparr>fms := (fms s)(M := (fms s M)\<lparr>FmCount := n\<rparr>)\<rparr>
         in if n <s 0
            then ExAcquireFastMutex_resume aid M
              (s1\<lparr>fms := (fms s1)(M := (fms s1 M)\<lparr>Contention := Contention (fms s1 M) + 1\<rparr>)\<rparr>)
            else Some (fm_own aid M s1, Returned STATUS_SUCCESS)))"

definition ExReleaseFastMutex_k :: "nat \<Rightarrow> ex_state \<Rightarrow> ex_state option" where
  "ExReleaseFastMutex_k M s =
     (if M = 0 \<or> legacy (ke s) then Some s
      else
        (let n = FmCount (fms s M) + 1;
             s1 = s\<lparr>fms := (fms s)(M := (fms s M)\<lparr>FmOwner := 0, FmCount := n\<rparr>)\<rparr>
         in if n \<le>s 0 then map_option (\<lambda>(k, p). s1\<lparr>ke := k\<rparr>) (KeSetEvent_k (fm_event M) (ke s1))
            else Some s1))"

definition ExTryToAcquireFastMutex_k :: "nat \<Rightarrow> ex_state \<Rightarrow> ex_state \<times> bool" where
  "ExTryToAcquireFastMutex_k M s =
     (if M = 0 then (s, False)
      else if legacy (ke s) then (s, True)
      else if FmCount (fms s M) = 1
      then (s\<lparr>fms := (fms s)(M := (fms s M)\<lparr>FmCount := 0\<rparr>)\<rparr>, True)
      else (s, False))"

section \<open>Resources\<close>

definition ExInitializeResourceLite_k :: "nat \<Rightarrow> ex_state \<Rightarrow> ex_state" where
  "ExInitializeResourceLite_k R s =
     (if R = 0 then s
      else s\<lparr>ress := (ress s)(R := \<lparr>ActiveCount = 0, ExclusiveWaiters = 0, SharedWaiters = 0, ResOwner = 0\<rparr>),
             ke := KeInitializeSemaphore_k (res_sem R) 0 0x7FFFFFFF
               (KeInitializeEvent_k (res_event R) 1 False (ke s))\<rparr>)"

datatype res_out = Acquired | Refused | Asleep | Retry

definition res_wait :: "u32 \<Rightarrow> nat \<Rightarrow> ex_state \<Rightarrow> (ex_state \<times> res_out) option" where
  "res_wait aid R s =
     (case KeWaitForSingleObject_k aid (res_event R) None (ke s) of
        None \<Rightarrow> None
      | Some (k, Switched) \<Rightarrow> Some (s\<lparr>ke := k\<rparr>, Asleep)
      | Some (k, Returned r) \<Rightarrow> Some (s\<lparr>ke := k\<rparr>, Retry))"

text \<open>One round of the acquisition loops; \<open>Retry\<close> asks for another.\<close>

definition ExAcquireResourceExclusiveLite_k :: "u32 \<Rightarrow> nat \<Rightarrow> bool \<Rightarrow> ex_state \<Rightarrow> (ex_state \<times> res_out) option" where
  "ExAcquireResourceExclusiveLite_k aid R wt s =
     (if R = 0 \<or> legacy (ke s) then Some (s, Refused)
      else if ActiveCount (ress s R) = 0
      then Some (s\<lparr>ress := (ress s)(R := (ress s R)\<lparr>ActiveCount := - 1,
                   ResOwner := ki_current_thread aid (sched (ke s))\<rparr>)\<rparr>, Acquired)
      else if \<not> wt then Some (s, Refused)
      else res_wait aid R s)"

definition ExAcquireResourceSharedLite_k :: "u32 \<Rightarrow> nat \<Rightarrow> bool \<Rightarrow> ex_state \<Rightarrow> (ex_state \<times> res_out) option" where
  "ExAcquireResourceSharedLite_k aid R wt s =
     (if R = 0 \<or> legacy (ke s) then Some (s, Refused)
      else if 0 \<le>s ActiveCount (ress s R)
      then Some (s\<lparr>ress := (ress s)(R := (ress s R)\<lparr>ActiveCount := ActiveCount (ress s R) + 1\<rparr>)\<rparr>, Acquired)
      else if \<not> wt then Some (s, Refused)
      else res_wait aid R s)"

definition ExReleaseResourceLite_k :: "nat \<Rightarrow> ex_state \<Rightarrow> ex_state option" where
  "ExReleaseResourceLite_k R s =
     (if R = 0 \<or> legacy (ke s) then Some s
      else
        (let a = ActiveCount (ress s R);
             r = (if a = - 1 then (ress s R)\<lparr>ResOwner := 0, ActiveCount := 0\<rparr>
                  else if 0 <s a then (ress s R)\<lparr>ActiveCount := a - 1\<rparr> else ress s R);
             s1 = s\<lparr>ress := (ress s)(R := r)\<rparr>
         in map_option (\<lambda>(k, p). s1\<lparr>ke := k\<rparr>) (KeSetEvent_k (res_event R) (ke s1))))"

section \<open>Lookaside lists\<close>

record LOOKASIDE =
  ListHead :: nat
  LaSize :: u32
  LaTag :: u32
  LaDepth :: u32

record la_state =
  la :: LOOKASIDE
  links :: "nat \<Rightarrow> nat"
  la_heap :: heap

definition ExInitializeNPagedLookasideList_k :: "u64 \<Rightarrow> u32 \<Rightarrow> la_state \<Rightarrow> la_state" where
  "ExInitializeNPagedLookasideList_k sz tag s =
     s\<lparr>la := \<lparr>ListHead = 0, LaSize = ucast sz, LaTag = tag, LaDepth = 0\<rparr>\<rparr>"

definition ExAllocateFromNPagedLookasideList_k :: "la_state \<Rightarrow> la_state \<times> nat" where
  "ExAllocateFromNPagedLookasideList_k s =
     (let p = ListHead (la s) in
      if p \<noteq> 0
      then (s\<lparr>la := (la s)\<lparr>ListHead := links s p,
              LaDepth := (if LaDepth (la s) \<noteq> 0 then LaDepth (la s) - 1 else LaDepth (la s))\<rparr>\<rparr>, p)
      else case kmalloc (if LaSize (la s) \<noteq> 0 then ucast (LaSize (la s)) else 16) (la_heap s) of
             (h, q) \<Rightarrow> (s\<lparr>la_heap := h\<rparr>, q))"

definition ExFreeToNPagedLookasideList_k :: "nat \<Rightarrow> la_state \<Rightarrow> la_state" where
  "ExFreeToNPagedLookasideList_k e s =
     (if e = 0 then s
      else s\<lparr>links := (links s)(e := ListHead (la s)),
             la := (la s)\<lparr>ListHead := e, LaDepth := LaDepth (la s) + 1\<rparr>\<rparr>)"

text \<open>Deletion follows the links; on a cyclic list it does not end.\<close>

partial_function (option) la_delete_loop :: "nat \<Rightarrow> (nat \<Rightarrow> nat) \<Rightarrow> heap \<Rightarrow> heap option" where
  "la_delete_loop p lk h =
     (if p = 0 then Some h
      else case kfree p h of None \<Rightarrow> None | Some h' \<Rightarrow> la_delete_loop (lk p) lk h')"

definition ExDeleteNPagedLookasideList_k :: "la_state \<Rightarrow> la_state option" where
  "ExDeleteNPagedLookasideList_k s =
     map_option (\<lambda>h. s\<lparr>la_heap := h, la := (la s)\<lparr>ListHead := 0\<rparr>\<rparr>)
       (la_delete_loop (ListHead (la s)) (links s) (la_heap s))"

section \<open>Interlocked lists\<close>

text \<open>A list head and its entries; linking an entry that is already linked is not checked.\<close>

definition ExInterlockedInsertTailList_k :: "nat \<Rightarrow> nat list \<Rightarrow> nat list" where
  "ExInterlockedInsertTailList_k e q = q @ [e]"

definition ExInterlockedInsertHeadList_k :: "nat \<Rightarrow> nat list \<Rightarrow> nat list" where
  "ExInterlockedInsertHeadList_k e q = e # q"

definition ExInterlockedRemoveHeadList_k :: "nat list \<Rightarrow> nat list \<times> nat" where
  "ExInterlockedRemoveHeadList_k q = (case q of [] \<Rightarrow> ([], 0) | e # q' \<Rightarrow> (q', e))"

section \<open>Mutual exclusion of the fast mutex\<close>

text \<open>What the threads of the system do with a fast mutex \<open>M\<close>, with the threads that hold it and the
  threads that wait for it as ghost state: acquisition and resumption (by a thread that can block),
  release by a holder, a try, and anything else, which leaves the mutex and its event alone.\<close>

inductive fm_step :: "nat \<Rightarrow> ex_state \<times> nat set \<times> nat set \<Rightarrow> ex_state \<times> nat set \<times> nat set \<Rightarrow> bool" for M where
  acquire_now: "t \<notin> H \<union> W \<Longrightarrow> card H + card W < 2 ^ 31 - 1 \<Longrightarrow> ki_can_block aid (sched (ke s)) \<Longrightarrow>
    ExAcquireFastMutex_k aid M s = Some (s', Returned r) \<Longrightarrow> fm_step M (s, H, W) (s', insert t H, W)"
| acquire_sleep: "t \<notin> H \<union> W \<Longrightarrow> card H + card W < 2 ^ 31 - 1 \<Longrightarrow> ki_can_block aid (sched (ke s)) \<Longrightarrow>
    ExAcquireFastMutex_k aid M s = Some (s', Switched) \<Longrightarrow> fm_step M (s, H, W) (s', H, insert t W)"
| resume_now: "t \<in> W \<Longrightarrow> ki_can_block aid (sched (ke s)) \<Longrightarrow>
    ExAcquireFastMutex_resume aid M s = Some (s', Returned r) \<Longrightarrow> fm_step M (s, H, W) (s', insert t H, W - {t})"
| resume_sleep: "t \<in> W \<Longrightarrow> ki_can_block aid (sched (ke s)) \<Longrightarrow>
    ExAcquireFastMutex_resume aid M s = Some (s', Switched) \<Longrightarrow> fm_step M (s, H, W) (s', H, W)"
| release: "t \<in> H \<Longrightarrow> ExReleaseFastMutex_k M s = Some s' \<Longrightarrow> fm_step M (s, H, W) (s', H - {t}, W)"
| attempt: "t \<notin> H \<union> W \<Longrightarrow> card H + card W < 2 ^ 31 - 1 \<Longrightarrow> ExTryToAcquireFastMutex_k M s = (s', b) \<Longrightarrow>
    fm_step M (s, H, W) (s', if b then insert t H else H, W)"
| other: "fms s' M = fms s M \<Longrightarrow> hdr (ke s') (fm_event M) = hdr (ke s) (fm_event M) \<Longrightarrow>
    legacy (ke s') = legacy (ke s) \<Longrightarrow> fm_step M (s, H, W) (s', H, W)"

inductive fm_reach :: "nat \<Rightarrow> ex_state \<times> nat set \<times> nat set \<Rightarrow> ex_state \<times> nat set \<times> nat set \<Rightarrow> bool" for M x where
  start: "fm_reach M x x"
| step: "fm_reach M x y \<Longrightarrow> fm_step M y z \<Longrightarrow> fm_reach M x z"

definition fm_signal :: "nat \<Rightarrow> ex_state \<Rightarrow> nat" where
  "fm_signal M s = (if SignalState (hdr (ke s) (fm_event M)) = 0 then 0 else 1)"

definition fm_inv :: "nat \<Rightarrow> ex_state \<times> nat set \<times> nat set \<Rightarrow> bool" where
  "fm_inv M x = (case x of (s, H, W) \<Rightarrow>
     M \<noteq> 0 \<and> \<not> legacy (ke s) \<and> HdrType (hdr (ke s) (fm_event M)) = 1 \<and> finite H \<and> finite W \<and> H \<inter> W = {} \<and>
     card H + card W < 2 ^ 31 \<and> FmCount (fms s M) = word_of_int (1 - int (card H + card W)) \<and>
     card H + fm_signal M s = (if card H + card W = 0 then 0 else 1))"

lemma sint_small:
  assumes "- (2 ^ 31) \<le> k" "k < 2 ^ 31"
  shows "sint (word_of_int k :: i32) = k"
  using assms by (simp add: signed_of_int signed_take_bit_int_eq_self)

lemma small_sless:
  assumes "- (2 ^ 31) \<le> k" "k < 2 ^ 31"
  shows "(word_of_int k :: i32) <s 0 \<longleftrightarrow> k < 0" "(word_of_int k :: i32) \<le>s 0 \<longleftrightarrow> k \<le> 0"
    "(word_of_int k :: i32) = 1 \<longleftrightarrow> k = 1"
proof -
  note s = sint_small [OF assms]
  show "(word_of_int k :: i32) <s 0 \<longleftrightarrow> k < 0" by (simp only: word_sless_alt s signed_0)
  show "(word_of_int k :: i32) \<le>s 0 \<longleftrightarrow> k \<le> 0" by (simp only: word_sle_eq s signed_0)
  have "sint (1 :: i32) = 1" by simp
  then show "(word_of_int k :: i32) = 1 \<longleftrightarrow> k = 1" using s by (metis of_int_1)
qed

text \<open>The wait on the event, for a thread that can block: it returns exactly when the event is signalled and
  takes the signal.\<close>

lemma fm_resume_cases:
  assumes "ExAcquireFastMutex_resume aid M s = Some (s', out)" "M \<noteq> 0" "\<not> legacy (ke s)"
    "HdrType (hdr (ke s) (fm_event M)) = 1" "ki_can_block aid (sched (ke s))"
  shows "legacy (ke s') = legacy (ke s) \<and> HdrType (hdr (ke s') (fm_event M)) = 1 \<and>
    FmCount (fms s' M) = FmCount (fms s M) \<and>
    (case out of Returned r \<Rightarrow> fm_signal M s = 1 \<and> fm_signal M s' = 0
     | Switched \<Rightarrow> fm_signal M s = 0 \<and> fm_signal M s' = 0)"
proof -
  have nz: "fm_event M \<noteq> 0" by (simp add: fm_event_def)
  obtain k o1 where w: "KeWaitForSingleObject_k aid (fm_event M) None (ke s) = Some (k, o1)"
    using assms(1) by (auto simp: ExAcquireFastMutex_resume_def split: option.splits)
  show ?thesis
    using w nz
  proof (cases rule: wait_pass_cases)
    case signalled
    have h: "HdrType (hdr (ke s) (fm_event M)) \<noteq> NotificationEvent" "HdrType (hdr (ke s) (fm_event M)) \<noteq> 8"
      "HdrType (hdr (ke s) (fm_event M)) \<noteq> 5" by (simp_all add: assms(4) NotificationEvent_def)
    have "s' = fm_own aid M (s\<lparr>ke := k\<rparr>) \<and> out = Returned STATUS_SUCCESS"
      using assms(1) w signalled(3) by (simp add: ExAcquireFastMutex_resume_def)
    then show ?thesis using signalled sc_consume_auto_reset [OF h] assms(4)
      by (simp add: fm_own_def fm_signal_def)
  next
    case pass
    then show ?thesis using assms(3,5) by simp
  next
    case (blocked k')
    have "s' = s\<lparr>ke := k\<rparr> \<and> out = Switched"
      using assms(1) w blocked(6) by (simp add: ExAcquireFastMutex_resume_def)
    then show ?thesis using blocked assms(4) by (simp add: fm_signal_def)
  qed simp_all
qed

lemma fm_acquire_cases:
  assumes "ExAcquireFastMutex_k aid M s = Some (s', out)" "M \<noteq> 0" "\<not> legacy (ke s)"
    "HdrType (hdr (ke s) (fm_event M)) = 1" "ki_can_block aid (sched (ke s))"
    "FmCount (fms s M) = word_of_int (1 - int c)" "c < 2 ^ 31 - 1"
  shows "legacy (ke s') = legacy (ke s) \<and> HdrType (hdr (ke s') (fm_event M)) = 1 \<and>
    FmCount (fms s' M) = word_of_int (1 - int (Suc c)) \<and>
    (case out of Returned r \<Rightarrow> (if c = 0 then fm_signal M s' = fm_signal M s else fm_signal M s = 1 \<and> fm_signal M s' = 0)
     | Switched \<Rightarrow> c > 0 \<and> fm_signal M s = 0 \<and> fm_signal M s' = 0)"
proof -
  define n where "n = FmCount (fms s M) - 1"
  have n: "n = word_of_int (1 - int (Suc c))" by (simp add: n_def assms(6))
  have sl: "n <s 0 \<longleftrightarrow> 0 < c" unfolding n using assms(7) by (subst small_sless(1)) auto
  let ?s1 = "s\<lparr>fms := (fms s)(M := (fms s M)\<lparr>FmCount := n\<rparr>)\<rparr>"
  show ?thesis
  proof (cases "c = 0")
    case True
    then have "s' = fm_own aid M ?s1 \<and> out = Returned STATUS_SUCCESS"
      using assms(1-3) sl by (simp add: ExAcquireFastMutex_k_def n_def Let_def)
    then show ?thesis using True n assms(4) by (simp add: fm_own_def fm_signal_def)
  next
    case False
    define s2 where "s2 = ?s1\<lparr>fms := (fms ?s1)(M := (fms ?s1 M)\<lparr>Contention := Contention (fms ?s1 M) + 1\<rparr>)\<rparr>"
    have s2: "ke s2 = ke s" "FmCount (fms s2 M) = n" by (simp_all add: s2_def)
    have "ExAcquireFastMutex_resume aid M s2 = Some (s', out)"
      using assms(1-3) sl False by (simp add: ExAcquireFastMutex_k_def n_def Let_def s2_def)
    from fm_resume_cases [OF this assms(2)] assms(3-5)
    have "legacy (ke s') = legacy (ke s) \<and> HdrType (hdr (ke s') (fm_event M)) = 1 \<and> FmCount (fms s' M) = n \<and>
      (case out of Returned r \<Rightarrow> fm_signal M s2 = 1 \<and> fm_signal M s' = 0
       | Switched \<Rightarrow> fm_signal M s2 = 0 \<and> fm_signal M s' = 0)" by (simp add: s2)
    moreover have "fm_signal M s2 = fm_signal M s" by (simp add: fm_signal_def s2)
    ultimately show ?thesis using False n by (cases out) simp_all
  qed
qed

lemma fm_release_cases:
  assumes "ExReleaseFastMutex_k M s = Some s'" "M \<noteq> 0" "\<not> legacy (ke s)"
    "HdrType (hdr (ke s) (fm_event M)) = 1"
    "FmCount (fms s M) = word_of_int (1 - int c)" "0 < c" "c < 2 ^ 31"
  shows "legacy (ke s') = legacy (ke s) \<and> HdrType (hdr (ke s') (fm_event M)) = 1 \<and>
    FmCount (fms s' M) = word_of_int (1 - int (c - 1)) \<and>
    fm_signal M s' = (if c = 1 then fm_signal M s else 1)"
proof -
  define n where "n = FmCount (fms s M) + 1"
  have n: "n = word_of_int (1 - int (c - 1))" using assms(6) by (simp add: n_def assms(5) of_nat_diff)
  have sl: "n \<le>s 0 \<longleftrightarrow> 1 < c" unfolding n using assms(6,7) by (subst small_sless(2)) auto
  let ?s1 = "s\<lparr>fms := (fms s)(M := (fms s M)\<lparr>FmOwner := 0, FmCount := n\<rparr>)\<rparr>"
  show ?thesis
  proof (cases "c = 1")
    case True
    then have "s' = ?s1" using assms(1-3) sl by (simp add: ExReleaseFastMutex_k_def n_def Let_def)
    then show ?thesis using True n assms(4) by (simp add: fm_signal_def)
  next
    case False
    then have "1 < c" using assms(6) by simp
    then obtain k p where k: "KeSetEvent_k (fm_event M) (ke s) = Some (k, p)" "s' = ?s1\<lparr>ke := k\<rparr>"
      using assms(1-3) sl by (auto simp: ExReleaseFastMutex_k_def n_def Let_def)
    have "fm_event M \<noteq> 0" by (simp add: fm_event_def)
    note e = set_event_hdr [OF k(1) this]
    show ?thesis using False n assms(4) by (simp add: k(2) e fm_signal_def)
  qed
qed

lemma fm_inv_step:
  assumes "fm_step M x y" "fm_inv M x"
  shows "fm_inv M y"
  using assms
proof (induction rule: fm_step.induct)
  case (acquire_now t H W aid s s' r)
  note I = acquire_now.prems [unfolded fm_inv_def prod.case]
  have "FmCount (fms s M) = word_of_int (1 - int (card H + card W))" using I by blast
  note A = fm_acquire_cases [OF acquire_now.hyps(4) _ _ _ acquire_now.hyps(3) this acquire_now.hyps(2)]
  have ins: "card (insert t H) = Suc (card H)" using I acquire_now.hyps(1) by simp
  show ?case unfolding fm_inv_def prod.case ins
    using A I acquire_now.hyps(1,2) by (auto split: if_splits)
next
  case (acquire_sleep t H W aid s s')
  note I = acquire_sleep.prems [unfolded fm_inv_def prod.case]
  have "FmCount (fms s M) = word_of_int (1 - int (card H + card W))" using I by blast
  note A = fm_acquire_cases [OF acquire_sleep.hyps(4) _ _ _ acquire_sleep.hyps(3) this acquire_sleep.hyps(2)]
  have ins: "card (insert t W) = Suc (card W)" using I acquire_sleep.hyps(1) by simp
  show ?case unfolding fm_inv_def prod.case ins
    using A I acquire_sleep.hyps(1,2) by (auto split: if_splits)
next
  case (resume_now t W aid s s' r H)
  note I = resume_now.prems [unfolded fm_inv_def prod.case]
  note A = fm_resume_cases [OF resume_now.hyps(3) _ _ _ resume_now.hyps(2)]
  have "t \<notin> H" using I resume_now.hyps(1) by blast
  then have ins: "card (insert t H) = Suc (card H)" using I by simp
  have del: "card W = Suc (card (W - {t}))" using I resume_now.hyps(1) by (metis card_Suc_Diff1)
  show ?case unfolding fm_inv_def prod.case ins
    using A I \<open>t \<notin> H\<close> by (auto simp: del split: if_splits)
next
  case (resume_sleep t W aid s s' H)
  note I = resume_sleep.prems [unfolded fm_inv_def prod.case]
  note A = fm_resume_cases [OF resume_sleep.hyps(3) _ _ _ resume_sleep.hyps(2)]
  show ?case unfolding fm_inv_def prod.case using A I by (auto split: if_splits)
next
  case (release t H s s' W)
  note I = release.prems [unfolded fm_inv_def prod.case]
  have del: "card H = Suc (card (H - {t}))" using I release.hyps(1) by (metis card_Suc_Diff1)
  have "FmCount (fms s M) = word_of_int (1 - int (card H + card W))" using I by blast
  note A = fm_release_cases [OF release.hyps(2) _ _ _ this]
  show ?case unfolding fm_inv_def prod.case using A I by (auto simp: del split: if_splits)
next
  case (attempt t H W s s' b)
  note I = attempt.prems [unfolded fm_inv_def prod.case]
  have f: "FmCount (fms s M) = word_of_int (1 - int (card H + card W))" and b: "card H + card W < 2 ^ 31"
    using I by blast+
  have c: "FmCount (fms s M) = 1 \<longleftrightarrow> card H + card W = 0"
    unfolding f using b by (subst small_sless(3)) auto
  show ?case
    using attempt.hyps I c by (cases b)
      (auto simp: fm_inv_def ExTryToAcquireFastMutex_k_def fm_signal_def split: if_splits)
next
  case (other s' s H W)
  then show ?case by (simp add: fm_inv_def fm_signal_def)
qed

lemma fm_reach_inv: "fm_reach M x y \<Longrightarrow> fm_inv M x \<Longrightarrow> fm_inv M y"
  by (induction rule: fm_reach.induct) (auto intro: fm_inv_step)

lemma fm_init_inv:
  assumes "M \<noteq> 0" "\<not> legacy (ke s)"
  shows "fm_inv M (ExInitializeFastMutex_k M s, {}, {})"
proof -
  have "fm_event M \<noteq> 0" by (simp add: fm_event_def)
  then show ?thesis using assms
    by (simp add: fm_inv_def ExInitializeFastMutex_k_def KeInitializeEvent_k_def fm_signal_def)
qed


definition ex_boot :: ex_state where
  "ex_boot = \<lparr>ke = \<lparr>sched = sched_two, hdr = (\<lambda>_. \<lparr>HdrType = 0, SignalState = 0, WaitListFlink = 0, WaitListBlink = 0\<rparr>),
      mutexes = (\<lambda>_. \<lparr>MtxOwner = 0, Abandoned = 0, ApcDisable = 0\<rparr>), SemLimit = (\<lambda>_. 0), g_ticks = 0, legacy = False\<rparr>,
     fms = (\<lambda>_. \<lparr>FmCount = 0, FmOwner = 0, Contention = 0\<rparr>),
     ress = (\<lambda>_. \<lparr>ActiveCount = 0, ExclusiveWaiters = 0, SharedWaiters = 0, ResOwner = 0\<rparr>)\<rparr>"


end
