(* ===== verification/Timer.thy ===== *)
theory Timer
  imports Sync Dpc
begin

text \<open>
  Kernel timers, \<open>src/ntos/ke/timer.c\<close>: the list of armed timers, due times in ticks, and the tick
  handler, which signals the expired timers, queues their deferred calls and re-arms the periodic
  ones.  The state is that of the deferred calls with the kernel objects as the rest of the system; a
  timer's header is the dispatcher object at its address.  A timer is linked exactly when its
  \<open>Flink\<close> is not null, the field \<open>linked\<close>.
\<close>

record KTIMER =
  DueTime :: u64
  linked :: bool
  TmDpc :: nat
  Period :: i32

record tm_state =
  tms :: "nat \<Rightarrow> KTIMER"
  s_timers :: "nat list"
  tm_ready :: bool
  kd :: "ke_state dpc_state"

abbreviation kobj :: "tm_state \<Rightarrow> ke_state" where "kobj s \<equiv> world (kd s)"

definition upd_kobj :: "(ke_state \<Rightarrow> ke_state) \<Rightarrow> tm_state \<Rightarrow> tm_state" where
  "upd_kobj f s = s\<lparr>kd := (kd s)\<lparr>world := f (world (kd s))\<rparr>\<rparr>"

definition KiInitializeTimerSubsystem :: "tm_state \<Rightarrow> tm_state" where
  "KiInitializeTimerSubsystem s = s\<lparr>s_timers := [], tm_ready := True\<rparr>"

text \<open>A due time in units of 100 ns, negative when relative; the result is a tick.\<close>

definition due_to_tick :: "i64 \<Rightarrow> u64 \<Rightarrow> u64" where
  "due_to_tick due now =
     (if due <s 0
      then (let t = (- due) div 100000 in now + (if t \<noteq> 0 then t else 1))
      else if due \<le> EPOCH_2026 then now else now + (due - EPOCH_2026) div 100000)"

definition timer_unlink :: "nat \<Rightarrow> tm_state \<Rightarrow> tm_state" where
  "timer_unlink t s =
     (if linked (tms s t)
      then s\<lparr>s_timers := remove1 t (s_timers s), tms := (tms s)(t := (tms s t)\<lparr>linked := False\<rparr>)\<rparr>
      else s)"

definition timer_link :: "nat \<Rightarrow> tm_state \<Rightarrow> tm_state" where
  "timer_link t s = s\<lparr>s_timers := s_timers s @ [t], tms := (tms s)(t := (tms s t)\<lparr>linked := True\<rparr>)\<rparr>"

definition KeInitializeTimerEx_k :: "nat \<Rightarrow> bool \<Rightarrow> tm_state \<Rightarrow> tm_state" where
  "KeInitializeTimerEx_k t synch s =
     (if t = 0 then s
      else
        (let s1 = upd_kobj (\<lambda>k. k\<lparr>hdr := (hdr k)(t := \<lparr>HdrType = 0, SignalState = 0, WaitListFlink = 0, WaitListBlink = 0\<rparr>)\<rparr>)
               (s\<lparr>tms := (tms s)(t := \<lparr>DueTime = 0, linked = False, TmDpc = 0, Period = 0\<rparr>)\<rparr>)
         in if legacy (kobj s) then s1
            else upd_kobj (\<lambda>k. k\<lparr>hdr := (hdr k)(t := (hdr k t)\<lparr>HdrType := (if synch then 9 else 8),
                   WaitListFlink := t + 8, WaitListBlink := t + 8\<rparr>)\<rparr>) s1))"

definition KeSetTimerEx_k :: "nat \<Rightarrow> i64 \<Rightarrow> i32 \<Rightarrow> nat \<Rightarrow> tm_state \<Rightarrow> tm_state \<times> bool" where
  "KeSetTimerEx_k t due period dpc s =
     (if t = 0 \<or> legacy (kobj s) \<or> \<not> tm_ready s then (s, False)
      else
        (let was_set = linked (tms s t);
             s1 = timer_unlink t s;
             s2 = s1\<lparr>tms := (tms s1)(t := (tms s1 t)\<lparr>DueTime := due_to_tick due (g_ticks (kobj s)), TmDpc := dpc,
                     Period := period\<rparr>)\<rparr>
         in (timer_link t (upd_kobj (set_signal t 0) s2), was_set)))"

definition KeSetTimer_k :: "nat \<Rightarrow> i64 \<Rightarrow> nat \<Rightarrow> tm_state \<Rightarrow> tm_state \<times> bool" where
  "KeSetTimer_k t due dpc s = KeSetTimerEx_k t due 0 dpc s"

definition KeCancelTimer_k :: "nat \<Rightarrow> tm_state \<Rightarrow> tm_state \<times> bool" where
  "KeCancelTimer_k t s =
     (if t = 0 then (s, False)
      else if legacy (kobj s) \<or> \<not> tm_ready s then (s, True)
      else (timer_unlink t s, linked (tms s t)))"

definition KeReadStateTimer_k :: "nat \<Rightarrow> tm_state \<Rightarrow> bool" where
  "KeReadStateTimer_k t s \<longleftrightarrow> t \<noteq> 0 \<and> SignalState (hdr (kobj s) t) \<noteq> 0"

text \<open>The scan of the tick handler over the list as it was on entry: the expired timers, at most 16, are
  unlinked and collected.\<close>

fun tick_scan :: "nat list \<Rightarrow> nat \<Rightarrow> tm_state \<Rightarrow> tm_state \<times> nat list" where
  "tick_scan [] n s = (s, [])"
| "tick_scan (t # ts) n s =
     (if n \<ge> 16 then (s, [])
      else if DueTime (tms s t) \<le> g_ticks (kobj s)
      then (case tick_scan ts (Suc n) (timer_unlink t s) of (s', b) \<Rightarrow> (s', t # b))
      else tick_scan ts n s)"

definition tick_rearm :: "nat \<Rightarrow> tm_state \<Rightarrow> tm_state" where
  "tick_rearm t s =
     (if 0 <s Period (tms s t)
      then (let ticks = ucast (Period (tms s t)) div 10;
                s1 = s\<lparr>tms := (tms s)(t := (tms s t)\<lparr>DueTime := g_ticks (kobj s) + (if ticks \<noteq> 0 then ticks else 1)\<rparr>)\<rparr>
            in timer_link t (upd_kobj (set_signal t 0) s1))
      else s)"

definition tick_fire :: "ke_state routines \<Rightarrow> nat \<Rightarrow> nat \<Rightarrow> tm_state \<Rightarrow> tm_state option" where
  "tick_fire run cpu t s =
     (let k1 = set_signal t 1 (kobj s) in
      case ki_wake t (HdrType (hdr k1 t) \<noteq> 9) (sched k1) of
        None \<Rightarrow> None
      | Some (sc, n) \<Rightarrow>
          (let s1 = upd_kobj (\<lambda>_. k1\<lparr>sched := sc\<rparr>) s;
               r = (if TmDpc (tms s t) \<noteq> 0
                    then map_option (\<lambda>(d, b). s1\<lparr>kd := d\<rparr>) (KeInsertQueueDpc_k run cpu (TmDpc (tms s t)) 0 0 (kd s1))
                    else Some s1)
           in map_option (tick_rearm t) r))"

fun tick_fire_all :: "ke_state routines \<Rightarrow> nat \<Rightarrow> nat list \<Rightarrow> tm_state \<Rightarrow> tm_state option" where
  "tick_fire_all run cpu [] s = Some s"
| "tick_fire_all run cpu (t # ts) s =
     (case tick_fire run cpu t s of None \<Rightarrow> None | Some s' \<Rightarrow> tick_fire_all run cpu ts s')"

definition KiTimerTick :: "ke_state routines \<Rightarrow> nat \<Rightarrow> tm_state \<Rightarrow> tm_state option" where
  "KiTimerTick run cpu s =
     (if \<not> tm_ready s then Some s
      else (case tick_scan (s_timers s) 0 s of (s1, batch) \<Rightarrow> tick_fire_all run cpu batch s1))"

section \<open>The armed timers\<close>

definition tm_inv :: "tm_state \<Rightarrow> bool" where
  "tm_inv s \<longleftrightarrow> distinct (s_timers s) \<and> (\<forall>t. linked (tms s t) \<longleftrightarrow> t \<in> set (s_timers s))"

lemma tm_inv_unlink:
  assumes "tm_inv s"
  shows "tm_inv (timer_unlink t s)" "s_timers (timer_unlink t s) = filter (\<lambda>u. u \<noteq> t) (s_timers s)"
    "tms (timer_unlink t s) = (tms s)(t := (tms s t)\<lparr>linked := False\<rparr>)" "kd (timer_unlink t s) = kd s"
proof -
  have d: "distinct (s_timers s)" and l: "linked (tms s u) \<longleftrightarrow> u \<in> set (s_timers s)" for u
    using assms by (simp_all add: tm_inv_def)
  have "(tms s)(t := (tms s t)\<lparr>linked := False\<rparr>) = tms s" if "\<not> linked (tms s t)"
    using that by (intro fun_upd_idem) simp
  then show ts: "tms (timer_unlink t s) = (tms s)(t := (tms s t)\<lparr>linked := False\<rparr>)"
    by (simp add: timer_unlink_def)
  have "filter (\<lambda>u. u \<noteq> t) (s_timers s) = s_timers s" if "\<not> linked (tms s t)"
    using that l [of t] by (simp add: filter_id_conv) metis
  then show tl: "s_timers (timer_unlink t s) = filter (\<lambda>u. u \<noteq> t) (s_timers s)"
    using d by (simp add: timer_unlink_def distinct_remove1_removeAll removeAll_filter_not_eq eq_commute)
  show "kd (timer_unlink t s) = kd s" by (simp add: timer_unlink_def)
  show "tm_inv (timer_unlink t s)" using d l by (auto simp: tm_inv_def ts tl)
qed

lemma tm_inv_link:
  assumes "tm_inv s" "t \<notin> set (s_timers s)"
  shows "tm_inv (timer_link t s)"
  using assms by (auto simp: tm_inv_def timer_link_def)

lemma tick_scan_spec:
  assumes "tm_inv s" "distinct ts" "tick_scan ts n s = (s', b)"
  shows "b = take (16 - n) (filter (\<lambda>t. DueTime (tms s t) \<le> g_ticks (kobj s)) ts) \<and> tm_inv s' \<and>
    s_timers s' = filter (\<lambda>t. t \<notin> set b) (s_timers s) \<and> kd s' = kd s \<and> tm_ready s' = tm_ready s"
  using assms
proof (induction ts arbitrary: n s b)
  case (Cons t ts)
  show ?case
  proof (cases "n \<ge> 16")
    case True
    then show ?thesis using Cons.prems by auto
  next
    case n: False
    show ?thesis
    proof (cases "DueTime (tms s t) \<le> g_ticks (kobj s)")
      case False
      then show ?thesis using Cons.IH [of s n b] Cons.prems n by simp
    next
      case True
      let ?s1 = "timer_unlink t s"
      note u = tm_inv_unlink [OF Cons.prems(1), of t]
      obtain b1 where b1: "tick_scan ts (Suc n) ?s1 = (s', b1)" "b = t # b1"
        using Cons.prems(3) n True by (auto split: prod.splits)
      have ih: "b1 = take (16 - Suc n) (filter (\<lambda>v. DueTime (tms ?s1 v) \<le> g_ticks (kobj ?s1)) ts) \<and> tm_inv s' \<and>
        s_timers s' = filter (\<lambda>v. v \<notin> set b1) (s_timers ?s1) \<and> kd s' = kd ?s1 \<and> tm_ready s' = tm_ready ?s1"
        using Cons.prems(2) by (intro Cons.IH [OF u(1) _ b1(1)]) simp
      have "filter (\<lambda>v. DueTime (tms ?s1 v) \<le> g_ticks (kobj ?s1)) ts = filter (\<lambda>v. DueTime (tms s v) \<le> g_ticks (kobj s)) ts"
        using Cons.prems(2) by (intro filter_cong) (auto simp: u)
      moreover have "16 - n = Suc (16 - Suc n)" using n by simp
      moreover have "tm_ready ?s1 = tm_ready s" by (simp add: timer_unlink_def)
      ultimately show ?thesis using ih True by (simp add: b1(2) u filter_filter conj_commute)
    qed
  qed
qed simp


lemma fire_all_Nil: "tick_fire_all run cpu [] s = Some s" by simp

definition tm_boot :: tm_state where
  "tm_boot = \<lparr>tms = (\<lambda>t. \<lparr>DueTime = 5, linked = (t = 4096), TmDpc = 0, Period = 0\<rparr>), s_timers = [4096], tm_ready = True,
     kd = \<lparr>dpcs = dpcs dpc_boot, s_q = (\<lambda>_. []), s_pending = (\<lambda>_. False), s_ready = True, irql = (\<lambda>_. 0), cr8 = (\<lambda>_. 0),
       spin = (\<lambda>_. 0), world = ke_boot\<rparr>\<rparr>"


text \<open>The signal of a periodic timer is lost: the tick that signals the timer and wakes its waiters
  re-arms it and clears the signal before any of them runs, so a waiter that wakes up finds the
  timer unsignalled and goes back to sleep; an infinite wait on a periodic timer never returns.\<close>
theorem periodic_timer_signal_lost:
  assumes "tick_fire run cpu t s = Some s'" "0 <s Period (tms s t)" "TmDpc (tms s t) = 0" "t \<noteq> 0"
    "\<not> legacy (kobj s)" "ki_can_block aid (sched (kobj s'))"
    "KeWaitForSingleObject_k aid t None (kobj s') = Some (k, out)"
  shows "out = Switched \<and> SignalState (hdr k t) = 0 \<and> SignalState (hdr (kobj s') t) = 0 \<and> linked (tms s' t)"
proof -
  obtain sc n where "s' = tick_rearm t (upd_kobj (\<lambda>_. (set_signal t 1 (kobj s))\<lparr>sched := sc\<rparr>) s)"
    using assms(1,3) by (auto simp: tick_fire_def Let_def split: option.splits)
  then have s': "SignalState (hdr (kobj s') t) = 0" "legacy (kobj s') = legacy (kobj s)" "linked (tms s' t)"
    using assms(2) by (simp_all add: tick_rearm_def upd_kobj_def timer_link_def Let_def)
  from assms(7,4) show ?thesis
    by (cases rule: wait_pass_cases) (use s' assms(5,6) in simp_all)
qed

theorem periodic_timer_signal_lost_witness:
  "\<exists>s' k. tick_fire (\<lambda>_ _ _ _ _ _. None) 0 4096 (tm_boot\<lparr>tms := (\<lambda>t. \<lparr>DueTime = 5, linked = False, TmDpc = 0, Period = 100\<rparr>)\<rparr>) = Some s' \<and>
     KeWaitForSingleObject_k 0 4096 None (kobj s') = Some (k, Switched)"
proof -
  let ?s = "tm_boot\<lparr>tms := (\<lambda>t. \<lparr>DueTime = 5, linked = False, TmDpc = 0, Period = 100\<rparr>)\<rparr>"
  let ?r = "(\<lambda>_ _ _ _ _ _. None) :: ke_state routines"
  have k: "ki_wake 4096 b (sched (set_signal 4096 1 (kobj ?s))) = Some (sched ke_boot, 0)" for b
    using wake_nobody [OF sched_two_fields(1)] by (simp add: tm_boot_def ke_boot_def)
  obtain s' where s': "tick_fire ?r 0 4096 ?s = Some s'" "sched (kobj s') = sched_two" "hdr (kobj s') 4096 = (hdr ke_boot 4096)"
    "\<not> legacy (kobj s')"
    using k by (simp add: tick_fire_def Let_def tick_rearm_def upd_kobj_def timer_link_def tm_boot_def ke_boot_def word_sless_alt)
  have cb: "ki_can_block 0 (sched (kobj s'))" unfolding s'(2) by (rule sched_two_can_block)
  obtain sk where y: "ki_yield_processor 0 (ki_block_current 0 4096 sched_two) = Some sk"
    using sched_two_block by blast
  have "KeWaitForSingleObject_k 0 4096 None (kobj s') = Some ((kobj s')\<lparr>sched := sk\<rparr>, Switched)"
    using s' y cb by (simp add: KeWaitForSingleObject_k_def ke_boot_def)
  moreover note periodic_timer_signal_lost [OF s'(1) _ _ _ _ cb this]
  ultimately show ?thesis using s'(1) by blast
qed

end
