(* ===== verification/Bytes.thy ===== *)
theory Bytes
  imports Prelude
begin

text \<open>
  Memory as bytes: little-endian fields read and written at an offset, as the helpers at the top
  of \<open>src/drivers/filesystems/ntfs/ntfs.c\<close> do it, which is also how the processor loads and stores
  the 64-bit entries of a page table.  A buffer is a function from offsets to bytes.  The lemmas
  say which bits a field is made of, that a field that is written is read back, and that a write
  leaves the fields next to it alone.
\<close>

type_synonym buf = "nat \<Rightarrow> u8"

section \<open>Little-endian fields\<close>

definition rd16 :: "buf \<Rightarrow> nat \<Rightarrow> u16" where
  "rd16 b p = ucast (b p) OR push_bit 8 (ucast (b (p + 1)))"

definition rd32 :: "buf \<Rightarrow> nat \<Rightarrow> u32" where
  "rd32 b p = ucast (b p) OR push_bit 8 (ucast (b (p + 1))) OR
     push_bit 16 (ucast (b (p + 2))) OR push_bit 24 (ucast (b (p + 3)))"

definition rd64 :: "buf \<Rightarrow> nat \<Rightarrow> u64" where
  "rd64 b p = ucast (rd32 b p) OR push_bit 32 (ucast (rd32 b (p + 4)))"

text \<open>\<open>v |= p[i] << (i * 8)\<close> for \<open>i\<close> from 0 to \<open>n - 1\<close>.\<close>

definition rd_le :: "buf \<Rightarrow> nat \<Rightarrow> nat \<Rightarrow> u64" where
  "rd_le b p n = fold (\<lambda>i v. v OR push_bit (i * 8) (ucast (b (p + i)))) [0..<n] 0"

definition rd_signed :: "buf \<Rightarrow> nat \<Rightarrow> nat \<Rightarrow> u64" where
  "rd_signed b p n =
     (if 0 < n \<and> n < 8 \<and> b (p + n - 1) AND 0x80 \<noteq> 0
      then rd_le b p n OR push_bit (n * 8) (- 1) else rd_le b p n)"

definition wr_le :: "nat \<Rightarrow> u64 \<Rightarrow> nat \<Rightarrow> buf \<Rightarrow> buf" where
  "wr_le p v n b = (\<lambda>i. if p \<le> i \<and> i < p + n then ucast (drop_bit ((i - p) * 8) v AND 0xFF) else b i)"

text \<open>\<open>memcpy(b + o, src, n)\<close> and \<open>memset(b + o, 0, n)\<close>.\<close>

definition put_bytes :: "nat \<Rightarrow> nat \<Rightarrow> buf \<Rightarrow> buf \<Rightarrow> buf" where
  "put_bytes n off src b = (\<lambda>i. if off \<le> i \<and> i < off + n then src (i - off) else b i)"

definition put_zero :: "nat \<Rightarrow> nat \<Rightarrow> buf \<Rightarrow> buf" where
  "put_zero n off b = (\<lambda>i. if off \<le> i \<and> i < off + n then 0 else b i)"

section \<open>Fields that are written are read back\<close>

lemma rd_le_0 [simp]: "rd_le b p 0 = 0"
  by (simp add: rd_le_def)

lemma rd_le_Suc: "rd_le b p (Suc n) = rd_le b p n OR push_bit (n * 8) (ucast (b (p + n)))"
  by (simp add: rd_le_def)

lemma bit_byte: "bit (x :: u8) j \<Longrightarrow> j < 8"
  using bit_imp_le_length [of x j] by simp

lemma bit_push_byte:
  "bit (push_bit (n * 8) (ucast (x :: u8)) :: u64) k \<longleftrightarrow> n * 8 \<le> k \<and> k < 64 \<and> bit x (k - n * 8)"
  using bit_byte [of x "k - n * 8"] by (auto simp: bit_push_bit_iff possible_bit_def bit_ucast_iff)

lemma div_mod_byte:
  fixes k n :: nat
  assumes "n * 8 \<le> k" "k < n * 8 + 8"
  shows "k div 8 = n" "k mod 8 = k - n * 8"
proof -
  obtain r where r: "k = n * 8 + r" using assms(1) le_Suc_ex by blast
  have r8: "r < 8" using assms(2) unfolding r by simp
  show "k div 8 = n" unfolding r using r8 by simp
  show "k mod 8 = k - n * 8" unfolding r using r8 by simp
qed

lemma bit_rd_le:
  "n \<le> 8 \<Longrightarrow> bit (rd_le b p n) k \<longleftrightarrow> k < n * 8 \<and> bit (b (p + k div 8)) (k mod 8)"
proof (induction n)
  case (Suc n)
  have step: "bit (rd_le b p (Suc n)) k \<longleftrightarrow>
      bit (rd_le b p n) k \<or> (n * 8 \<le> k \<and> k < 64 \<and> bit (b (p + n)) (k - n * 8))"
    by (simp only: rd_le_Suc bit_or_iff bit_push_byte)
  have ih: "bit (rd_le b p n) k \<longleftrightarrow> k < n * 8 \<and> bit (b (p + k div 8)) (k mod 8)"
    using Suc by simp
  consider "k < n * 8" | "n * 8 \<le> k" "k < n * 8 + 8" | "n * 8 + 8 \<le> k" by linarith
  then show ?case
  proof cases
    case 1
    then show ?thesis using step ih by simp
  next
    case 2
    have k: "k < 64" "\<not> k < n * 8" using 2 Suc.prems by linarith+
    have k': "k < Suc n * 8" using 2(2) by simp
    have "bit (b (p + k div 8)) (k mod 8) \<longleftrightarrow> bit (b (p + n)) (k - n * 8)"
      by (simp only: div_mod_byte [OF 2])
    with k k' 2(1) show ?thesis unfolding step ih by blast
  next
    case 3
    then have "\<not> k - n * 8 < 8" "\<not> k < n * 8" "\<not> k < Suc n * 8" by simp_all
    then show ?thesis unfolding step ih using bit_byte by blast
  qed
qed simp

lemma rd16_bit: "bit (rd16 b p) k \<longleftrightarrow> k < 16 \<and> bit (b (p + k div 8)) (k mod 8)"
proof -
  have "bit (rd16 b p) k \<longleftrightarrow> (k < 16 \<and> bit (b p) k) \<or> (8 \<le> k \<and> k < 16 \<and> bit (b (p + 1)) (k - 8))"
    using bit_byte [of "b (p + 1)" "k - 8"]
    by (auto simp: rd16_def bit_or_iff bit_push_bit_iff possible_bit_def bit_ucast_iff)
  then show ?thesis
    using div_mod_byte [of 0 k] div_mod_byte [of 1 k] bit_byte [of "b p" k]
    by (cases "k < 8") auto
qed

lemma rd16_le: "rd16 b p = ucast (rd_le b p 2)"
  by (rule bit_word_eqI) (auto simp: rd16_bit bit_ucast_iff bit_rd_le)

lemma bit_push_byte32:
  "bit (push_bit n (ucast (x :: u8)) :: u32) k \<longleftrightarrow> n \<le> k \<and> k < 32 \<and> k < n + 8 \<and> bit x (k - n)"
  using bit_byte [of x "k - n"] by (auto simp: bit_push_bit_iff possible_bit_def bit_ucast_iff)

lemma rd32_bit: "bit (rd32 b p) k \<longleftrightarrow> k < 32 \<and> bit (b (p + k div 8)) (k mod 8)"
proof -
  have "bit (ucast (b p) :: u32) k \<longleftrightarrow> k < 8 \<and> bit (b p) k"
    using bit_push_byte32 [of 0 "b p" k] by auto
  then have e: "bit (rd32 b p) k \<longleftrightarrow> (k < 8 \<and> bit (b p) k) \<or>
      (8 \<le> k \<and> k < 32 \<and> k < 16 \<and> bit (b (p + 1)) (k - 8)) \<or>
      (16 \<le> k \<and> k < 32 \<and> k < 24 \<and> bit (b (p + 2)) (k - 16)) \<or>
      (24 \<le> k \<and> k < 32 \<and> k < 32 \<and> bit (b (p + 3)) (k - 24))"
    by (simp add: rd32_def bit_or_iff bit_push_byte32)
  consider "k < 8" | "8 \<le> k" "k < 16" | "16 \<le> k" "k < 24" | "24 \<le> k" "k < 32" | "32 \<le> k" by linarith
  then show ?thesis
  proof cases
    case 1
    then have "k div 8 = 0" "k mod 8 = k" by simp_all
    then show ?thesis unfolding e using 1 by simp
  next
    case 2
    then have "k div 8 = 1" "k mod 8 = k - 8" using div_mod_byte [of 1 k] by simp_all
    then show ?thesis unfolding e using 2 by simp
  next
    case 3
    then have "k div 8 = 2" "k mod 8 = k - 16" using div_mod_byte [of 2 k] by simp_all
    then show ?thesis unfolding e using 3 by simp
  next
    case 4
    then have "k div 8 = 3" "k mod 8 = k - 24" using div_mod_byte [of 3 k] by simp_all
    then show ?thesis unfolding e using 4 by simp
  next
    case 5
    then show ?thesis unfolding e by simp
  qed
qed

lemma wr_le_bit:
  assumes "n \<le> 8" "k < n * 8"
  shows "bit (wr_le p v n b (p + k div 8)) (k mod 8) \<longleftrightarrow> bit v k"
proof -
  have "k div 8 < n" using assms(2) by (simp add: less_mult_imp_div_less)
  moreover have "bit (ucast (drop_bit (k div 8 * 8) v AND 0xFF) :: u8) (k mod 8) \<longleftrightarrow> bit v (k div 8 * 8 + k mod 8)"
  proof -
    have ff: "(0xFF :: u64) = mask 8" by (simp add: mask_eq_exp_minus_1)
    have "k mod 8 < 64" by (rule less_trans [of _ 8]) simp_all
    then show ?thesis unfolding ff
      by (simp add: bit_ucast_iff bit_and_iff bit_drop_bit_eq bit_mask_iff possible_bit_def)
  qed
  ultimately show ?thesis by (simp add: wr_le_def)
qed

lemma rd_le_wr_le: "n \<le> 8 \<Longrightarrow> rd_le (wr_le p v n b) p n = take_bit (n * 8) v"
  by (rule bit_word_eqI) (auto simp: bit_rd_le wr_le_bit bit_take_bit_iff)

lemma rd32_wr_le: "rd32 (wr_le p v 4 b) p = ucast v"
  by (rule bit_word_eqI) (auto simp: rd32_bit wr_le_bit bit_ucast_iff)

lemma rd16_wr_le: "rd16 (wr_le p v 2 b) p = ucast v"
  by (rule bit_word_eqI) (auto simp: rd16_bit wr_le_bit bit_ucast_iff)

lemma wr_le_other: "x < p \<or> p + n \<le> x \<Longrightarrow> wr_le p v n b x = b x"
  by (auto simp: wr_le_def)

lemma rd_cong:
  "(\<And>i. i < 2 \<Longrightarrow> b (p + i) = b' (p + i)) \<Longrightarrow> rd16 b p = rd16 b' p"
  "(\<And>i. i < 4 \<Longrightarrow> b (p + i) = b' (p + i)) \<Longrightarrow> rd32 b p = rd32 b' p"
  "(\<And>i. i < n \<Longrightarrow> b (p + i) = b' (p + i)) \<Longrightarrow> rd_le b p n = rd_le b' p n"
proof -
  show "rd16 b p = rd16 b' p" if "\<And>i. i < 2 \<Longrightarrow> b (p + i) = b' (p + i)"
    using that [of 0] that [of 1] by (simp add: rd16_def)
  show "rd32 b p = rd32 b' p" if "\<And>i. i < 4 \<Longrightarrow> b (p + i) = b' (p + i)"
    using that [of 0] that [of 1] that [of 2] that [of 3] by (simp add: rd32_def)
  show "rd_le b p n = rd_le b' p n" if "\<And>i. i < n \<Longrightarrow> b (p + i) = b' (p + i)"
    using that by (induction n) (simp_all add: rd_le_Suc)
qed

lemma rd64_bit: "bit (rd64 b p) k \<longleftrightarrow> k < 64 \<and> bit (b (p + k div 8)) (k mod 8)"
proof (cases "k < 32")
  case True
  then show ?thesis using rd32_bit [of b p k]
    by (auto simp: rd64_def bit_or_iff bit_push_bit_iff bit_ucast_iff possible_bit_def)
next
  case False
  then obtain m where k: "k = m + 4 * 8" by (intro that [of "k - 32"]) simp
  have d: "(m + 4 * 8) div 8 = m div 8 + 4" "(m + 4 * 8) mod 8 = m mod 8"
    by (simp_all only: div_mult_self3 mod_mult_self1 numeral_neq_zero not_False_eq_True)
  have lo: "\<not> bit (rd32 b p) (m + 32)" using rd32_bit [of b p "m + 32"] by simp
  have "bit (rd64 b p) (m + 32) \<longleftrightarrow> m < 32 \<and> bit (rd32 b (p + 4)) m"
    using lo by (auto simp: rd64_def bit_or_iff bit_push_bit_iff bit_ucast_iff possible_bit_def)
  then show ?thesis using rd32_bit [of b "p + 4" m] unfolding k d by (auto simp: add.assoc add.commute)
qed

lemma rd64_wr_le: "rd64 (wr_le p v 8 b) p = v"
  by (rule bit_word_eqI) (auto simp: rd64_bit wr_le_bit)

lemma rd_wr_other:
  "p + 2 \<le> q \<or> q + n \<le> p \<Longrightarrow> rd16 (wr_le q v n b) p = rd16 b p"
  "p + 4 \<le> q \<or> q + n \<le> p \<Longrightarrow> rd32 (wr_le q v n b) p = rd32 b p"
  "p + 8 \<le> q \<or> q + n \<le> p \<Longrightarrow> rd64 (wr_le q v n b) p = rd64 b p"
  by (auto simp: rd16_def rd32_def rd64_def wr_le_other)

end
