(* ===== verification/NtfsBase.thy ===== *)
theory NtfsBase
  imports Bytes "HOL-Library.Monad_Syntax"
begin

text \<open>
  The on-disk structures of \<open>src/drivers/filesystems/ntfs/ntfs.c\<close>: little-endian fields, the update
  sequence array (\<open>fixups\<close>), the attributes of an MFT record and the data runs of a
  non-resident attribute.  A buffer is the memory seen from its first byte, a function from
  offsets to bytes: an offset past its end reads or writes whatever lies behind it, as in the
  kernel.  Offsets computed in \<open>uint32_t\<close> are words and wrap; pointers do not.  The result
  \<open>None\<close> is an undefined operation (a shift by the width of the type or more) or a loop that does not
  end.  Signed 64-bit sums wrap.
\<close>

section \<open>The volume\<close>

record NTFS_VOLUME =
  mounted :: bool
  part_lba :: u32
  bytes_per_sector :: u16
  sectors_per_cluster :: u8
  bytes_per_cluster :: u32
  total_sectors :: u64
  mft_lcn :: u64
  mftmirr_lcn :: u64
  mft_record_size :: u32
  index_record_size :: u32
  mft_data_lcn :: u64
  serial :: u64

section \<open>Fixups\<close>

text \<open>The loop over the sectors of a record, from sector \<open>i\<close>: the two bytes at the end of each are
  restored from the array.  The flag is False for the early return \<open>-1\<close>.\<close>

definition sec_end :: "u16 \<Rightarrow> nat \<Rightarrow> u32" where
  "sec_end bps i = (of_nat i + 1) * ucast bps - 2"

fun fix_loop :: "u16 \<Rightarrow> u32 \<Rightarrow> nat \<Rightarrow> nat \<Rightarrow> nat \<Rightarrow> buf \<Rightarrow> buf \<times> bool" where
  "fix_loop bps sz usa i 0 b = (b, True)"
| "fix_loop bps sz usa i (Suc n) b =
     (let e = sec_end bps i in
      if e + 2 > sz then (b, False)
      else (let b1 = b(unat e := b (usa + 2 + i * 2));
                b2 = b1(unat e + 1 := b1 (usa + 2 + i * 2 + 1))
            in fix_loop bps sz usa (Suc i) n b2))"

definition ntfs_apply_fixups :: "u16 \<Rightarrow> u32 \<Rightarrow> u16 \<Rightarrow> u16 \<Rightarrow> buf \<Rightarrow> buf \<times> bool" where
  "ntfs_apply_fixups bps sz usa_off usa_count b =
     (if usa_count = 0 then (b, True)
      else if ucast usa_off + ucast usa_count * 2 > sz then (b, False)
      else fix_loop bps sz (unat usa_off) 0 (unat usa_count - 1) b)"

fun fix_write_loop :: "u16 \<Rightarrow> u32 \<Rightarrow> nat \<Rightarrow> u16 \<Rightarrow> nat \<Rightarrow> nat \<Rightarrow> buf \<Rightarrow> buf \<times> bool" where
  "fix_write_loop bps sz usa usn i 0 b = (b, True)"
| "fix_write_loop bps sz usa usn i (Suc n) b =
     (let e = sec_end bps i; slot = usa + 2 + i * 2 in
      if e + 2 > sz then (b, False)
      else (let b1 = b(slot := b (unat e));
                b2 = b1(slot + 1 := b1 (unat e + 1));
                b3 = b2(unat e := ucast (usn AND 0xFF));
                b4 = b3(unat e + 1 := ucast (drop_bit 8 usn))
            in fix_write_loop bps sz usa usn (Suc i) n b4))"

definition next_usn :: "u16 \<Rightarrow> u16" where
  "next_usn u = (let n = u + 1 in if n = 0 \<or> n = 0xFFFF then 1 else n)"

definition ntfs_apply_fixups_for_write :: "u16 \<Rightarrow> u32 \<Rightarrow> u16 \<Rightarrow> u16 \<Rightarrow> buf \<Rightarrow> buf \<times> bool" where
  "ntfs_apply_fixups_for_write bps sz usa_off usa_count b =
     (if usa_count = 0 then (b, True)
      else if ucast usa_off + ucast usa_count * 2 > sz then (b, False)
      else
        (let usn = next_usn (rd16 b (unat usa_off));
             b1 = b(unat usa_off := ucast (usn AND 0xFF));
             b2 = b1(unat usa_off + 1 := ucast (drop_bit 8 usn))
         in fix_write_loop bps sz (unat usa_off) usn 0 (unat usa_count - 1) b2))"

section \<open>Attributes\<close>

definition ATTR_STANDARD_INFORMATION :: u32 where "ATTR_STANDARD_INFORMATION = 0x10"
definition ATTR_FILE_NAME :: u32 where "ATTR_FILE_NAME = 0x30"
definition ATTR_VOLUME_NAME :: u32 where "ATTR_VOLUME_NAME = 0x60"
definition ATTR_DATA :: u32 where "ATTR_DATA = 0x80"
definition ATTR_INDEX_ROOT :: u32 where "ATTR_INDEX_ROOT = 0x90"
definition ATTR_INDEX_ALLOCATION :: u32 where "ATTR_INDEX_ALLOCATION = 0xA0"
definition ATTR_END :: u32 where "ATTR_END = 0xFFFFFFFF"
definition MFT_FLAG_IN_USE :: u16 where "MFT_FLAG_IN_USE = 1"
definition MFT_FLAG_DIRECTORY :: u16 where "MFT_FLAG_DIRECTORY = 2"
definition FILE_ATTR_DIRECTORY :: u32 where "FILE_ATTR_DIRECTORY = 0x10000000"
definition INDEX_ENTRY_END :: u16 where "INDEX_ENTRY_END = 2"

text \<open>The name test for index attributes: four UTF-16 characters whose low bytes are \<open>$I30\<close>.\<close>

definition name_is_i30 :: "u32 \<Rightarrow> buf \<Rightarrow> u32 \<Rightarrow> bool" where
  "name_is_i30 rs b off \<longleftrightarrow>
     (let a = unat off; noff = rd16 b (a + 10); nm = a + unat noff in
      b (a + 9) = 4 \<and> \<not> off + ucast noff + 8 > rs \<and>
      b nm = 0x24 \<and> b (nm + 2) = 0x49 \<and> b (nm + 4) = 0x33 \<and> b (nm + 6) = 0x30)"

text \<open>The loop over the attributes, from offset \<open>off\<close>.  The offset is a \<open>uint32_t\<close>: a length
  near 2^32 makes the sum wrap, pass the bound check and move backwards.\<close>

partial_function (option) find_attr_loop ::
  "u32 \<Rightarrow> buf \<Rightarrow> u32 \<Rightarrow> u32 \<Rightarrow> nat \<Rightarrow> bool \<Rightarrow> u32 \<Rightarrow> nat \<Rightarrow> u32 option option" where
  "find_attr_loop rs b used ty which i30 off seen =
     (if off + 8 \<le> rs \<and> off + 8 \<le> used + 0x18 + 8
      then
        (let atype = rd32 b (unat off); alen = rd32 b (unat off + 4) in
         if atype = ATTR_END then Some None
         else if alen < 8 \<or> off + alen > rs then Some None
         else if atype = ty \<and> (i30 \<longrightarrow> name_is_i30 rs b off)
         then (if seen = which then Some (Some off)
               else find_attr_loop rs b used ty which i30 (off + alen) (Suc seen))
         else find_attr_loop rs b used ty which i30 (off + alen) seen)
      else Some None)"

definition ntfs_find_attr :: "u32 \<Rightarrow> buf \<Rightarrow> u32 \<Rightarrow> nat \<Rightarrow> bool \<Rightarrow> u32 option option" where
  "ntfs_find_attr rs b ty which i30 =
     find_attr_loop rs b (rd32 b 0x18) ty which i30 (ucast (rd16 b 0x14)) 0"

text \<open>The content of a resident attribute: its offset in the record and its length.\<close>

definition attr_resident_data :: "buf \<Rightarrow> u32 \<Rightarrow> nat \<times> u32" where
  "attr_resident_data b a = (unat a + unat (rd16 b (unat a + 0x14)), rd32 b (unat a + 0x10))"

definition attr_is_nonresident :: "buf \<Rightarrow> u32 \<Rightarrow> bool" where
  "attr_is_nonresident b a \<longleftrightarrow> b (unat a + 8) \<noteq> 0"

definition attr_nonresident_size :: "buf \<Rightarrow> u32 \<Rightarrow> u64" where
  "attr_nonresident_size b a = rd64 b (unat a + 0x30)"

section \<open>Data runs\<close>

text \<open>The loop over the runs, from the byte \<open>p\<close>, with the first cluster of the next run and the last
  logical cluster: the cluster of the disk, the clusters left in the run and whether it is a
  hole.\<close>

function run_loop :: "buf \<Rightarrow> nat \<Rightarrow> u64 \<Rightarrow> nat \<Rightarrow> u64 \<Rightarrow> u64 \<Rightarrow> (u64 \<times> u64 \<times> bool) option option" where
  "run_loop b e vcn p cur lcn =
     (if p < e then
        (let h = b p; ls = unat (h AND 0x0F); os = unat (drop_bit 4 h AND 0x0F) in
         if h = 0 then Some None
         else if ls = 0 \<or> p + 1 + ls + os > e then Some None
         else if ls > 8 \<or> os > 8 then None
         else
           (let len = rd_le b (p + 1) ls; sparse = (os = 0);
                lcn' = (if sparse then lcn else lcn + rd_signed b (p + 1 + ls) os)
            in if vcn \<ge> cur \<and> vcn < cur + len
               then Some (Some (if sparse then 0 else lcn' + (vcn - cur), len - (vcn - cur), sparse))
               else run_loop b e vcn (p + 1 + ls + os) (cur + len) lcn'))
      else Some None)"
  by pat_completeness auto
termination
  by (relation "measure (\<lambda>(b, e, vcn, p, cur, lcn). e - p)") auto

declare run_loop.simps [simp del]

definition ntfs_run_for_vcn :: "buf \<Rightarrow> u32 \<Rightarrow> u64 \<Rightarrow> (u64 \<times> u64 \<times> bool) option option" where
  "ntfs_run_for_vcn b a vcn =
     run_loop b (unat a + unat (rd32 b (unat a + 4))) vcn (unat a + unat (rd16 b (unat a + 0x20))) 0 0"

section \<open>Names\<close>

definition utf16_char :: "u16 \<Rightarrow> char" where
  "utf16_char c = (if 0x20 \<le> c \<and> c < 0x7F then char_of (unat c) else if c = 0 then CHR 0x00 else CHR ''?'')"

text \<open>The string is what a reader of the NUL-terminated result sees.\<close>

definition utf16_to_ascii :: "buf \<Rightarrow> nat \<Rightarrow> nat \<Rightarrow> nat \<Rightarrow> string" where
  "utf16_to_ascii b src chars mx =
     takeWhile (\<lambda>c. c \<noteq> CHR 0x00) (map (\<lambda>i. utf16_char (rd16 b (src + i * 2))) [0..<min chars (mx - 1)])"

definition nieq :: "string \<Rightarrow> string \<Rightarrow> bool" where "nieq a b = ieq a b"

section \<open>Fixups are undone by the reader\<close>

definition tail_at :: "u16 \<Rightarrow> nat \<Rightarrow> nat" where "tail_at bps j = (j + 1) * unat bps - 2"
definition slot_at :: "nat \<Rightarrow> nat \<Rightarrow> nat" where "slot_at usa j = usa + 2 + j * 2"

text \<open>The layout under which the array and the sector tails do not overlap: the array lies in the first
  sector, before its last two bytes, and the sectors fit.\<close>

definition fix_layout :: "u16 \<Rightarrow> u32 \<Rightarrow> nat \<Rightarrow> nat \<Rightarrow> bool" where
  "fix_layout bps sz usa n \<longleftrightarrow> 0 < n \<and> 2 \<le> unat bps \<and> n * unat bps \<le> unat sz \<and> usa + 2 + n * 2 \<le> unat bps - 2"

lemma sec_end_tail:
  assumes "fix_layout bps sz usa n" "j < n"
  shows "unat (sec_end bps j) = tail_at bps j" "\<not> sec_end bps j + 2 > sz"
proof -
  have b: "unat bps < 2 ^ 16" using unsigned_less [of bps] by simp
  have le: "(j + 1) * unat bps \<le> n * unat bps" using assms(2) by (intro mult_le_mono1) simp
  then have le': "(j + 1) * unat bps \<le> unat sz" using assms(1) by (simp add: fix_layout_def)
  have z: "unat sz < 2 ^ 32" using unsigned_less [of sz] by simp
  have two: "2 \<le> unat bps" using assms(1) by (simp add: fix_layout_def)
  have "unat bps \<le> (j + 1) * unat bps" by simp
  with two have two': "2 \<le> (j + 1) * unat bps" by linarith
  have e: "(of_nat j + 1) * ucast bps = (of_nat ((j + 1) * unat bps) :: u32)"
    by (simp add: algebra_simps)
  have eq: "sec_end bps j = of_nat (tail_at bps j)"
    unfolding sec_end_def e tail_at_def using two' by (simp add: of_nat_diff)
  show u: "unat (sec_end bps j) = tail_at bps j"
    unfolding eq by (rule unat_of_nat_small) (use le' z in \<open>simp add: tail_at_def\<close>)
  have "sec_end bps j + 2 = of_nat ((j + 1) * unat bps)"
    unfolding eq tail_at_def using two' by (simp add: of_nat_diff)
  moreover have "unat (of_nat ((j + 1) * unat bps) :: u32) = (j + 1) * unat bps"
    by (rule unat_of_nat_small) (use le' z in simp)
  ultimately show "\<not> sec_end bps j + 2 > sz" using le' by (simp add: word_less_nat_alt)
qed

lemma tail_step:
  assumes "2 \<le> unat bps" "j < k"
  shows "tail_at bps j + unat bps \<le> tail_at bps k"
proof -
  have "(j + 1) * unat bps + unat bps \<le> (k + 1) * unat bps"
  proof -
    have "(j + 2) * unat bps \<le> (k + 1) * unat bps" using assms(2) by (intro mult_le_mono1) simp
    then show ?thesis by (simp add: algebra_simps)
  qed
  moreover have "2 \<le> (j + 1) * unat bps" using assms(1) by simp
  ultimately show ?thesis by (simp add: tail_at_def)
qed

text \<open>The bytes the loops touch from sector \<open>i\<close> on.\<close>

definition fix_tails :: "u16 \<Rightarrow> nat \<Rightarrow> nat \<Rightarrow> nat set" where
  "fix_tails bps i n = (\<Union>j \<in> {i..<n}. {tail_at bps j, tail_at bps j + 1})"

lemma fix_tails_step: "i < n \<Longrightarrow> fix_tails bps i n = {tail_at bps i, tail_at bps i + 1} \<union> fix_tails bps (Suc i) n"
proof -
  assume "i < n"
  then have "{i..<n} = insert i {Suc i..<n}" by auto
  then show ?thesis by (simp add: fix_tails_def)
qed

lemma tails_distinct:
  assumes "fix_layout bps sz usa n" "i < n" "n \<le> n"
  shows "tail_at bps i \<notin> fix_tails bps (Suc i) n" "tail_at bps i + 1 \<notin> fix_tails bps (Suc i) n"
proof -
  have two: "2 \<le> unat bps" using assms(1) by (simp add: fix_layout_def)
  have "tail_at bps i + 2 \<le> tail_at bps j" if "Suc i \<le> j" for j
    using tail_step [OF two, of i j] that two by linarith
  then show "tail_at bps i \<notin> fix_tails bps (Suc i) n" "tail_at bps i + 1 \<notin> fix_tails bps (Suc i) n"
    by (fastforce simp: fix_tails_def)+
qed

lemma slot_below_tail:
  assumes "fix_layout bps sz usa n" "i < n"
  shows "slot_at usa i + 1 < tail_at bps j"
proof -
  have "slot_at usa i + 2 \<le> usa + 2 + n * 2" using assms(2) by (simp add: slot_at_def)
  then have "slot_at usa i + 2 \<le> unat bps - 2" using assms(1) by (simp add: fix_layout_def)
  moreover have "unat bps - 2 \<le> tail_at bps j" by (simp add: tail_at_def)
  ultimately show ?thesis by linarith
qed

lemma fix_loop_spec:
  assumes "fix_layout bps sz usa n" "i + k = n"
  shows "\<exists>b'. fix_loop bps sz usa i k b = (b', True) \<and>
    (\<forall>j. i \<le> j \<and> j < n \<longrightarrow> b' (tail_at bps j) = b (slot_at usa j) \<and> b' (tail_at bps j + 1) = b (slot_at usa j + 1)) \<and>
    (\<forall>x. x \<notin> fix_tails bps i n \<longrightarrow> b' x = b x)"
  using assms(2)
proof (induction k arbitrary: i b)
  case 0
  then show ?case by auto
next
  case (Suc k)
  then have i: "i < n" by simp
  let ?t = "tail_at bps i" and ?s = "slot_at usa i"
  note e = sec_end_tail [OF assms(1) i]
  note sl = slot_below_tail [OF assms(1)]
  define b2 where "b2 = b(?t := b ?s, ?t + 1 := b (?s + 1))"
  have run: "fix_loop bps sz usa i (Suc k) b = fix_loop bps sz usa (Suc i) k b2"
    using e sl [OF i, of i] by (simp add: Let_def b2_def slot_at_def)
  have "Suc i + k = n" using Suc.prems by simp
  from Suc.IH [OF this, of b2] obtain b' where b': "fix_loop bps sz usa (Suc i) k b2 = (b', True)"
    "\<forall>j. Suc i \<le> j \<and> j < n \<longrightarrow> b' (tail_at bps j) = b2 (slot_at usa j) \<and> b' (tail_at bps j + 1) = b2 (slot_at usa j + 1)"
    "\<forall>x. x \<notin> fix_tails bps (Suc i) n \<longrightarrow> b' x = b2 x" by blast
  have slot: "b2 (slot_at usa j) = b (slot_at usa j) \<and> b2 (slot_at usa j + 1) = b (slot_at usa j + 1)" if "j < n" for j
    using sl [OF that, of i] by (simp add: b2_def)
  have here: "b' ?t = b ?s \<and> b' (?t + 1) = b (?s + 1)"
    using b'(3) tails_distinct [OF assms(1) i order_refl] by (simp add: b2_def)
  have "b' (tail_at bps j) = b (slot_at usa j) \<and> b' (tail_at bps j + 1) = b (slot_at usa j + 1)" if "i \<le> j" "j < n" for j
  proof (cases "j = i")
    case False
    then show ?thesis using b'(2) that slot by (simp add: Suc_le_eq)
  qed (use here in simp)
  moreover have "b' x = b x" if "x \<notin> fix_tails bps i n" for x
    using that b'(3) by (simp add: fix_tails_step [OF i] b2_def)
  ultimately show ?case using run b'(1) by auto
qed

lemma fix_write_loop_spec:
  assumes "fix_layout bps sz usa n" "i + k = n"
  shows "\<exists>b'. fix_write_loop bps sz usa usn i k b = (b', True) \<and>
    (\<forall>j. i \<le> j \<and> j < n \<longrightarrow> b' (slot_at usa j) = b (tail_at bps j) \<and> b' (slot_at usa j + 1) = b (tail_at bps j + 1) \<and>
       b' (tail_at bps j) = ucast (usn AND 0xFF) \<and> b' (tail_at bps j + 1) = ucast (drop_bit 8 usn)) \<and>
    (\<forall>x. x \<notin> fix_tails bps i n \<and> \<not> (slot_at usa i \<le> x \<and> x < slot_at usa n) \<longrightarrow> b' x = b x)"
  using assms(2)
proof (induction k arbitrary: i b)
  case 0
  then show ?case by auto
next
  case (Suc k)
  then have i: "i < n" by simp
  let ?t = "tail_at bps i" and ?s = "slot_at usa i"
  note e = sec_end_tail [OF assms(1) i]
  note sl = slot_below_tail [OF assms(1)]
  define b4 where "b4 = b(?s := b ?t, ?s + 1 := b (?t + 1), ?t := ucast (usn AND 0xFF), ?t + 1 := ucast (drop_bit 8 usn))"
  have run: "fix_write_loop bps sz usa usn i (Suc k) b = fix_write_loop bps sz usa usn (Suc i) k b4"
    using e sl [OF i, of i] by (simp add: Let_def b4_def slot_at_def)
  have "Suc i + k = n" using Suc.prems by simp
  from Suc.IH [OF this, of b4] obtain b' where b': "fix_write_loop bps sz usa usn (Suc i) k b4 = (b', True)"
    "\<forall>j. Suc i \<le> j \<and> j < n \<longrightarrow> b' (slot_at usa j) = b4 (tail_at bps j) \<and> b' (slot_at usa j + 1) = b4 (tail_at bps j + 1) \<and>
       b' (tail_at bps j) = ucast (usn AND 0xFF) \<and> b' (tail_at bps j + 1) = ucast (drop_bit 8 usn)"
    "\<forall>x. x \<notin> fix_tails bps (Suc i) n \<and> \<not> (slot_at usa (Suc i) \<le> x \<and> x < slot_at usa n) \<longrightarrow> b' x = b4 x" by blast
  have two: "2 \<le> unat bps" using assms(1) by (simp add: fix_layout_def)
  have tail: "b4 (tail_at bps j) = b (tail_at bps j) \<and> b4 (tail_at bps j + 1) = b (tail_at bps j + 1)" if "i < j" for j
    using sl [OF i, of j] tail_step [OF two that] two by (simp add: b4_def)
  have ss: "slot_at usa (Suc i) = ?s + 2" by (simp add: slot_at_def)
  have above: "slot_at usa n \<le> ?t"
  proof -
    have "slot_at usa n \<le> unat bps - 2" using assms(1) by (simp add: fix_layout_def slot_at_def)
    moreover have "unat bps - 2 \<le> ?t" by (simp add: tail_at_def)
    ultimately show ?thesis by (rule le_trans)
  qed
  have s_not: "?s \<notin> fix_tails bps (Suc i) n" "?s + 1 \<notin> fix_tails bps (Suc i) n"
  proof -
    have lt: "?s + 1 < tail_at bps j" for j by (rule sl [OF i])
    have "?s \<noteq> tail_at bps j" "?s \<noteq> tail_at bps j + 1" "?s + 1 \<noteq> tail_at bps j" "?s + 1 \<noteq> tail_at bps j + 1" for j
      using lt [of j] by linarith+
    then show "?s \<notin> fix_tails bps (Suc i) n" "?s + 1 \<notin> fix_tails bps (Suc i) n"
      unfolding fix_tails_def by blast+
  qed
  have "b' ?t = b4 ?t" "b' (?t + 1) = b4 (?t + 1)" "b' ?s = b4 ?s" "b' (?s + 1) = b4 (?s + 1)"
    using b'(3) tails_distinct [OF assms(1) i order_refl] above ss s_not by simp_all
  moreover have "?s + 1 < ?t" using sl [OF i, of i] .
  ultimately have here: "b' ?s = b ?t \<and> b' (?s + 1) = b (?t + 1) \<and>
      b' ?t = ucast (usn AND 0xFF) \<and> b' (?t + 1) = ucast (drop_bit 8 usn)" by (simp add: b4_def)
  have "b' (slot_at usa j) = b (tail_at bps j) \<and> b' (slot_at usa j + 1) = b (tail_at bps j + 1) \<and>
       b' (tail_at bps j) = ucast (usn AND 0xFF) \<and> b' (tail_at bps j + 1) = ucast (drop_bit 8 usn)" if "i \<le> j" "j < n" for j
  proof (cases "j = i")
    case False
    then show ?thesis using b'(2) that tail [of j] by (simp add: Suc_le_eq)
  qed (use here in simp)
  moreover have "b' x = b x" if "x \<notin> fix_tails bps i n" "\<not> (slot_at usa i \<le> x \<and> x < slot_at usa n)" for x
  proof -
    have "slot_at usa (Suc i) \<le> slot_at usa n" using i by (simp add: slot_at_def)
    then have "x \<noteq> ?s" "x \<noteq> ?s + 1" using that(2) ss by auto
    moreover have "\<not> (slot_at usa (Suc i) \<le> x \<and> x < slot_at usa n)" using that(2) ss by simp
    ultimately show ?thesis using b'(3) that(1) by (simp add: fix_tails_step [OF i] b4_def)
  qed
  ultimately show ?case using run b'(1) by auto
qed

lemma fixups_guard:
  assumes "fix_layout bps sz (unat usa_off) n" "unat usa_count = n + 1"
  shows "usa_count \<noteq> 0" "\<not> (ucast usa_off + ucast usa_count * 2 :: u32) > sz" "unat usa_count - 1 = n"
proof -
  show "usa_count \<noteq> 0" using assms(2) by auto
  show "unat usa_count - 1 = n" using assms(2) by simp
  have b: "unat bps < 2 ^ 16" using unsigned_less [of bps] by simp
  have "unat (ucast usa_off + ucast usa_count * 2 :: u32) \<le> unat usa_off + unat usa_count * 2"
  proof -
    have "(ucast usa_off + ucast usa_count * 2 :: u32) = of_nat (unat usa_off + unat usa_count * 2)" by simp
    moreover have "unat (of_nat m :: u32) \<le> m" for m by (simp add: unsigned_of_nat take_bit_nat_less_eq_self)
    ultimately show ?thesis by metis
  qed
  moreover have "unat usa_off + unat usa_count * 2 \<le> unat bps"
    using assms unfolding fix_layout_def by linarith
  moreover have "unat bps \<le> n * unat bps" using assms(1) by (simp add: fix_layout_def)
  moreover have "n * unat bps \<le> unat sz" using assms(1) by (simp add: fix_layout_def)
  ultimately show "\<not> (ucast usa_off + ucast usa_count * 2 :: u32) > sz"
    unfolding word_less_nat_alt by linarith
qed

lemma rd16_split: "b p = ucast (u AND 0xFF) \<Longrightarrow> b (p + 1) = ucast (drop_bit 8 u) \<Longrightarrow> rd16 b p = u"
proof (rule bit_word_eqI)
  fix k assume b: "b p = ucast (u AND 0xFF)" "b (p + 1) = ucast (drop_bit 8 u)" and "k < LENGTH(16)"
  then have k: "k < 16" by simp
  have ff: "(0xFF :: u16) = mask 8" by (simp add: mask_eq_exp_minus_1)
  consider "k < 8" | "8 \<le> k" by linarith
  then show "bit (rd16 b p) k = bit u k"
  proof cases
    case 1
    then have "k div 8 = 0" "k mod 8 = k" by simp_all
    then show ?thesis using 1 k by (simp add: rd16_bit b(1) ff bit_ucast_iff bit_and_iff bit_mask_iff possible_bit_def)
  next
    case 2
    then have "k div 8 = 1" "k mod 8 = k - 8" using div_mod_byte [of 1 k] k by simp_all
    moreover have "k - 8 < 8" using k 2 by linarith
    ultimately show ?thesis using 2 k b(2) by (simp add: rd16_bit bit_ucast_iff bit_drop_bit_eq possible_bit_def)
  qed
qed

lemma fixups_roundtrip_lib:
  assumes "fix_layout bps sz (unat usa_off) n" "unat usa_count = n + 1"
  shows "\<exists>w r. ntfs_apply_fixups_for_write bps sz usa_off usa_count b = (w, True) \<and>
    ntfs_apply_fixups bps sz usa_off usa_count w = (r, True) \<and>
    (\<forall>j < n. rd16 w (tail_at bps j) = next_usn (rd16 b (unat usa_off))) \<and>
    (\<forall>x. \<not> (unat usa_off \<le> x \<and> x < unat usa_off + 2 * (n + 1)) \<longrightarrow> r x = b x) \<and>
    (\<forall>x. x \<notin> fix_tails bps 0 n \<and> \<not> (unat usa_off \<le> x \<and> x < unat usa_off + 2 * (n + 1)) \<longrightarrow> w x = b x)"
proof -
  let ?usa = "unat usa_off"
  define usn where "usn = next_usn (rd16 b ?usa)"
  define b2 where "b2 = b(?usa := ucast (usn AND 0xFF), ?usa + 1 := ucast (drop_bit 8 usn))"
  note g = fixups_guard [OF assms]
  obtain w where w: "fix_write_loop bps sz ?usa usn 0 n b2 = (w, True)"
    "\<forall>j. 0 \<le> j \<and> j < n \<longrightarrow> w (slot_at ?usa j) = b2 (tail_at bps j) \<and> w (slot_at ?usa j + 1) = b2 (tail_at bps j + 1) \<and>
       w (tail_at bps j) = ucast (usn AND 0xFF) \<and> w (tail_at bps j + 1) = ucast (drop_bit 8 usn)"
    "\<forall>x. x \<notin> fix_tails bps 0 n \<and> \<not> (slot_at ?usa 0 \<le> x \<and> x < slot_at ?usa n) \<longrightarrow> w x = b2 x"
    using fix_write_loop_spec [OF assms(1), of 0 n usn b2] by auto
  obtain r where r: "fix_loop bps sz ?usa 0 n w = (r, True)"
    "\<forall>j. 0 \<le> j \<and> j < n \<longrightarrow> r (tail_at bps j) = w (slot_at ?usa j) \<and> r (tail_at bps j + 1) = w (slot_at ?usa j + 1)"
    "\<forall>x. x \<notin> fix_tails bps 0 n \<longrightarrow> r x = w x"
    using fix_loop_spec [OF assms(1), of 0 n w] by auto
  have 1: "ntfs_apply_fixups_for_write bps sz usa_off usa_count b = (w, True)"
    unfolding ntfs_apply_fixups_for_write_def using g w(1) by (simp add: Let_def b2_def usn_def)
  have 2: "ntfs_apply_fixups bps sz usa_off usa_count w = (r, True)"
    unfolding ntfs_apply_fixups_def using g r(1) by simp
  have "rd16 w (tail_at bps j) = usn" if "j < n" for j
    using w(2) that by (intro rd16_split) simp_all
  moreover have wx: "w x = b x" if "x \<notin> fix_tails bps 0 n" "\<not> (?usa \<le> x \<and> x < ?usa + 2 * (n + 1))" for x
  proof -
    have "\<not> (slot_at ?usa 0 \<le> x \<and> x < slot_at ?usa n)" using that(2) by (auto simp: slot_at_def)
    then have "w x = b2 x" using w(3) that(1) by blast
    moreover have "b2 x = b x" using that(2) by (auto simp: b2_def)
    ultimately show ?thesis by simp
  qed
  moreover have "r x = b x" if x: "\<not> (?usa \<le> x \<and> x < ?usa + 2 * (n + 1))" for x
  proof (cases "x \<in> fix_tails bps 0 n")
    case True
    then obtain j where j: "j < n" "x = tail_at bps j \<or> x = tail_at bps j + 1" by (auto simp: fix_tails_def)
    have "?usa + 1 < tail_at bps j" using slot_below_tail [OF assms(1) j(1), of j] by (simp add: slot_at_def)
    then show ?thesis using j r(2) w(2) by (auto simp: b2_def)
  next
    case False
    then have "r x = w x" using r(3) by blast
    with wx [OF False x] show ?thesis by simp
  qed
  ultimately show ?thesis using 1 2 unfolding usn_def by blast
qed

lemma fixups_agree:
  assumes "fix_layout bps sz (unat usa_off) n" "unat usa_count = n + 1" "\<forall>x < unat sz. b x = b' x"
  shows "\<exists>r r'. ntfs_apply_fixups bps sz usa_off usa_count b = (r, True) \<and>
    ntfs_apply_fixups bps sz usa_off usa_count b' = (r', True) \<and> (\<forall>x < unat sz. r x = r' x)"
proof -
  let ?usa = "unat usa_off"
  note g = fixups_guard [OF assms(1,2)]
  have S: "\<exists>r. ntfs_apply_fixups bps sz usa_off usa_count c = (r, True) \<and>
      (\<forall>j < n. r (tail_at bps j) = c (slot_at ?usa j) \<and> r (tail_at bps j + 1) = c (slot_at ?usa j + 1)) \<and>
      (\<forall>x. x \<notin> fix_tails bps 0 n \<longrightarrow> r x = c x)" for c
    using fix_loop_spec [OF assms(1), of 0 n c] g unfolding ntfs_apply_fixups_def by auto
  obtain r r' where r: "ntfs_apply_fixups bps sz usa_off usa_count b = (r, True)"
      "\<forall>j < n. r (tail_at bps j) = b (slot_at ?usa j) \<and> r (tail_at bps j + 1) = b (slot_at ?usa j + 1)"
      "\<forall>x. x \<notin> fix_tails bps 0 n \<longrightarrow> r x = b x"
    and r': "ntfs_apply_fixups bps sz usa_off usa_count b' = (r', True)"
      "\<forall>j < n. r' (tail_at bps j) = b' (slot_at ?usa j) \<and> r' (tail_at bps j + 1) = b' (slot_at ?usa j + 1)"
      "\<forall>x. x \<notin> fix_tails bps 0 n \<longrightarrow> r' x = b' x"
    using S [of b] S [of b'] by blast
  have slot: "slot_at ?usa j + 1 < unat sz" if "j < n" for j
  proof -
    have "unat bps \<le> n * unat bps" using assms(1) by (simp add: fix_layout_def)
    then show ?thesis using assms(1) that unfolding fix_layout_def slot_at_def by linarith
  qed
  have "r x = r' x" if "x < unat sz" for x
  proof (cases "x \<in> fix_tails bps 0 n")
    case True
    then obtain j where "j < n" "x = tail_at bps j \<or> x = tail_at bps j + 1" by (auto simp: fix_tails_def)
    then show ?thesis using r(2) r'(2) assms(3) slot [of j] by auto
  next
    case False
    then show ?thesis using r(3) r'(3) assms(3) that by simp
  qed
  then show ?thesis using r(1) r'(1) by blast
qed

text \<open>C13: The fixups written with a record are undone when it is read.  For every record whose update
  sequence array lies in its first sector, writing ends each sector with the new sequence number,
  and applying the reader's fixups to the result gives back every byte of the record outside
  the array itself.\<close>
theorem fixups_roundtrip:
  assumes "fix_layout bps sz (unat usa_off) n" "unat usa_count = n + 1"
  shows "\<exists>w r. ntfs_apply_fixups_for_write bps sz usa_off usa_count b = (w, True) \<and>
    ntfs_apply_fixups bps sz usa_off usa_count w = (r, True) \<and>
    (\<forall>j < n. rd16 w (tail_at bps j) = next_usn (rd16 b (unat usa_off))) \<and>
    (\<forall>x. \<not> (unat usa_off \<le> x \<and> x < unat usa_off + 2 * (n + 1)) \<longrightarrow> r x = b x)"
  using fixups_roundtrip_lib [OF assms] by blast

theorem fixups_roundtrip_witness:
  "\<exists>w r. ntfs_apply_fixups_for_write 512 1024 48 3 (\<lambda>i. of_nat i) = (w, True) \<and>
     ntfs_apply_fixups 512 1024 48 3 w = (r, True) \<and> r 510 = 254 \<and> r 1023 = 255"
proof -
  have "fix_layout 512 1024 (unat (48 :: u16)) 2" "unat (3 :: u16) = 2 + 1" by (simp_all add: fix_layout_def)
  from fixups_roundtrip [OF this, of "\<lambda>i. of_nat i"] obtain w r where
    w: "ntfs_apply_fixups_for_write 512 1024 48 3 (\<lambda>i. of_nat i) = (w, True)"
      "ntfs_apply_fixups 512 1024 48 3 w = (r, True)"
    and r: "\<forall>x. \<not> (unat (48 :: u16) \<le> x \<and> x < unat (48 :: u16) + 2 * (2 + 1)) \<longrightarrow> r x = of_nat x" by blast
  have "r 510 = of_nat 510" "r 1023 = of_nat 1023" using r by simp_all
  moreover have "(of_nat 510 :: u8) = 254" "(of_nat 1023 :: u8) = 255" by simp_all
  ultimately have "r 510 = 254" "r 1023 = 255" by (simp_all only:)
  with w show ?thesis by blast
qed

section \<open>The attribute list\<close>

lemma unat_ucast16: "unat (ucast (x :: u16) :: u32) = unat x"
proof -
  have "unat x < 2 ^ LENGTH(16)" by (rule unsigned_less)
  then have "unat (of_nat (unat x) :: u32) = unat x" by (intro unat_of_nat_small) simp
  then show ?thesis by simp
qed

lemma find_attr_step:
  assumes "off + 8 \<le> rs" "off + 8 \<le> used + 0x18 + 8" "rd32 b (unat off) \<noteq> ATTR_END"
    "\<not> rd32 b (unat off + 4) < 8" "\<not> off + rd32 b (unat off + 4) > rs"
  shows "find_attr_loop rs b used ty which i30 off seen =
    (if rd32 b (unat off) = ty \<and> (i30 \<longrightarrow> name_is_i30 rs b off)
     then (if seen = which then Some (Some off)
           else find_attr_loop rs b used ty which i30 (off + rd32 b (unat off + 4)) (Suc seen))
     else find_attr_loop rs b used ty which i30 (off + rd32 b (unat off + 4)) seen)"
  using assms by (subst find_attr_loop.simps) (simp add: Let_def)

lemma find_attr_stop:
  assumes "\<not> (off + 8 \<le> rs \<and> off + 8 \<le> used + 0x18 + 8) \<or> rd32 b (unat off) = ATTR_END \<or>
    rd32 b (unat off + 4) < 8 \<or> off + rd32 b (unat off + 4) > rs"
  shows "find_attr_loop rs b used ty which i30 off seen = Some None"
  using assms by (subst find_attr_loop.simps) (auto simp: Let_def)

text \<open>With attribute lengths below 2^31 the offset only grows, so the loop ends; what it finds lies within
  the record and has the type asked for.\<close>

lemma find_attr_loop_total:
  assumes "unat rs < 2 ^ 31"
    "\<And>x. x + 8 \<le> unat rs \<Longrightarrow> rd32 b x \<noteq> ATTR_END \<Longrightarrow> unat (rd32 b (x + 4)) < 2 ^ 31"
    "unat off < 2 ^ 31"
  shows "\<exists>r. find_attr_loop rs b used ty which i30 off seen = Some r \<and>
    (\<forall>a. r = Some a \<longrightarrow> rd32 b (unat a) = ty \<and> 8 \<le> unat (rd32 b (unat a + 4)) \<and>
       unat a + unat (rd32 b (unat a + 4)) \<le> unat rs \<and> unat off \<le> unat a \<and> (i30 \<longrightarrow> name_is_i30 rs b a))"
  using assms(3)
proof (induction "unat rs - unat off" arbitrary: off seen rule: less_induct)
  case less
  let ?l = "rd32 b (unat off + 4)"
  show ?case
  proof (cases "\<not> (off + 8 \<le> rs \<and> off + 8 \<le> used + 0x18 + 8) \<or> rd32 b (unat off) = ATTR_END \<or> ?l < 8 \<or> off + ?l > rs")
    case True
    then show ?thesis using find_attr_stop by (intro exI [of _ None]) simp
  next
    case False
    have "unat (off + 8) = unat off + 8"
      using less.prems by (intro trans [OF unat_add_lem [THEN iffD1]]) simp_all
    then have o8: "unat off + 8 \<le> unat rs" using False by (simp add: word_le_nat_alt)
    then have l: "unat ?l < 2 ^ 31" using assms(2) False by blast
    have s: "unat (off + ?l) = unat off + unat ?l"
      using less.prems l by (intro unat_add_lem [THEN iffD1]) simp
    have l8: "8 \<le> unat ?l" using False by (simp add: word_less_nat_alt)
    have le: "unat off + unat ?l \<le> unat rs" using False s by (simp add: word_less_nat_alt)
    have small: "unat rs - unat (off + ?l) < unat rs - unat off" "unat (off + ?l) < 2 ^ 31"
      using s l8 le assms(1) by linarith+
    have step: "find_attr_loop rs b used ty which i30 off seen =
      (if rd32 b (unat off) = ty \<and> (i30 \<longrightarrow> name_is_i30 rs b off)
       then (if seen = which then Some (Some off)
             else find_attr_loop rs b used ty which i30 (off + ?l) (Suc seen))
       else find_attr_loop rs b used ty which i30 (off + ?l) seen)"
      using False by (intro find_attr_step) auto
    show ?thesis
    proof (cases "rd32 b (unat off) = ty \<and> (i30 \<longrightarrow> name_is_i30 rs b off) \<and> seen = which")
      case True
      then show ?thesis using step l8 le by (intro exI [of _ "Some off"]) simp
    next
      case not: False
      obtain k where k: "find_attr_loop rs b used ty which i30 off seen = find_attr_loop rs b used ty which i30 (off + ?l) k"
        using step not by metis
      from less.hyps [OF small, of k] obtain r where
        "find_attr_loop rs b used ty which i30 (off + ?l) k = Some r"
        "\<forall>a. r = Some a \<longrightarrow> rd32 b (unat a) = ty \<and> 8 \<le> unat (rd32 b (unat a + 4)) \<and>
           unat a + unat (rd32 b (unat a + 4)) \<le> unat rs \<and> unat (off + ?l) \<le> unat a \<and> (i30 \<longrightarrow> name_is_i30 rs b a)" by blast
      then show ?thesis unfolding k using s by (intro exI [of _ r]) auto
    qed
  qed
qed


definition sane_rec :: buf where
  "sane_rec = wr_le 0x48 0xFFFFFFFF 4 (wr_le 0x3C 0x10 4 (wr_le 0x38 0x80 4 (wr_le 0x18 0x50 4 (wr_le 0x14 0x38 2 (\<lambda>_. 0)))))"

definition evil_rec :: buf where
  "evil_rec = wr_le 0x3C 0xFFFFFFF8 4 (wr_le 0x38 0x10 4 (wr_le 0x34 8 4 (wr_le 0x30 0x10 4 (wr_le 0x18 0x50 4 (wr_le 0x14 0x38 2 (\<lambda>_. 0))))))"


lemma evil_fields:
  "rd32 evil_rec 0x38 = 0x10" "rd32 evil_rec 0x3C = 0xFFFFFFF8" "rd32 evil_rec 0x30 = 0x10" "rd32 evil_rec 0x34 = 8"
  by (simp_all add: evil_rec_def rd32_def wr_le_def)

lemma find_attr_loop_never:
  "find_attr_loop rs b used ty which i30 off seen = Some r \<Longrightarrow>
   rs = 1024 \<and> b = evil_rec \<and> used = 0x50 \<and> ty = ATTR_DATA \<and> (off = 0x38 \<or> off = 0x30) \<longrightarrow> False"
proof (rule find_attr_loop.raw_induct [where P = "\<lambda>rs b used ty which i30 off seen r.
   rs = 1024 \<and> b = evil_rec \<and> used = 0x50 \<and> ty = ATTR_DATA \<and> (off = 0x38 \<or> off = 0x30) \<longrightarrow> False"])
  fix f rs b used ty which i30 off seen r
  assume ih: "\<And>rs b used ty which i30 off seen r. f rs b used ty which i30 off seen = Some r \<Longrightarrow>
      rs = 1024 \<and> b = evil_rec \<and> used = 0x50 \<and> ty = ATTR_DATA \<and> (off = 0x38 \<or> off = 0x30) \<longrightarrow> False"
    and body: "(if off + 8 \<le> rs \<and> off + 8 \<le> used + 0x18 + 8
      then
        (let atype = rd32 b (unat off); alen = rd32 b (unat off + 4) in
         if atype = ATTR_END then Some None
         else if alen < 8 \<or> off + alen > rs then Some None
         else if atype = ty \<and> (i30 \<longrightarrow> name_is_i30 rs b off)
         then (if seen = which then Some (Some off)
               else f rs b used ty which i30 (off + alen) (Suc seen))
         else f rs b used ty which i30 (off + alen) seen)
      else Some None) = Some r"
  have wrap: "(4294967344 :: u32) = 48" by simp
  show "rs = 1024 \<and> b = evil_rec \<and> used = 0x50 \<and> ty = ATTR_DATA \<and> (off = 0x38 \<or> off = 0x30) \<longrightarrow> False"
  proof (intro impI, elim conjE disjE)
    assume e: "rs = 1024" "b = evil_rec" "used = 0x50" "ty = ATTR_DATA" "off = 0x38"
    have "f 1024 evil_rec 0x50 ATTR_DATA which i30 0x30 seen = Some r"
      using body wrap unfolding e by (simp add: evil_fields ATTR_END_def ATTR_DATA_def Let_def)
    from ih [OF this] show False by simp
  next
    assume e: "rs = 1024" "b = evil_rec" "used = 0x50" "ty = ATTR_DATA" "off = 0x30"
    have "f 1024 evil_rec 0x50 ATTR_DATA which i30 0x38 seen = Some r"
      using body wrap unfolding e by (simp add: evil_fields ATTR_END_def ATTR_DATA_def Let_def)
    from ih [OF this] show False by simp
  qed
qed

text \<open>The bound check of the attribute loop can be bypassed: an attribute length near 2^32 wraps the
  32-bit offset, passes the check and moves the search backwards.  On the record \<open>evil_rec\<close>, one
  sector a crafted image can hold, the search for \<open>$DATA\<close> never returns, so opening the file hangs
  the kernel.\<close>
theorem find_attr_hangs:
  "ntfs_find_attr 1024 evil_rec ATTR_DATA 0 False = None \<and> rd16 evil_rec 0x14 = 0x38 \<and>
   rd32 evil_rec (0x38 + 4) = 0xFFFFFFF8"
proof -
  have r: "rd16 evil_rec 0x14 = 0x38" "rd32 evil_rec 0x18 = 0x50" "rd32 evil_rec (0x38 + 4) = 0xFFFFFFF8"
    by (simp_all add: evil_rec_def rd16_def rd32_def wr_le_def)
  have "find_attr_loop 1024 evil_rec 0x50 ATTR_DATA 0 False 0x38 0 \<noteq> Some x" for x
    using find_attr_loop_never by blast
  then have "find_attr_loop 1024 evil_rec 0x50 ATTR_DATA 0 False 0x38 0 = None" by (metis option.exhaust)
  moreover have "(ucast (0x38 :: u16) :: u32) = 0x38" by simp
  ultimately show ?thesis using r by (simp add: ntfs_find_attr_def)
qed

section \<open>Data runs are an extent map\<close>

text \<open>A run: the sizes of its two fields, the number of clusters, and the signed distance of its first cluster
  from that of the run before; a run without a distance field is a hole.  \<open>runs_at b p rs e\<close>: the
  bytes from \<open>p\<close> encode the runs \<open>rs\<close>, before the end \<open>e\<close> of the attribute.\<close>

type_synonym run = "nat \<times> nat \<times> nat \<times> int"

fun runs_at :: "buf \<Rightarrow> nat \<Rightarrow> run list \<Rightarrow> nat \<Rightarrow> bool" where
  "runs_at b p [] e \<longleftrightarrow> e \<le> p \<or> b p = 0"
| "runs_at b p ((ls, len, os, d) # rs) e \<longleftrightarrow>
     0 < ls \<and> ls \<le> 8 \<and> os \<le> 8 \<and> len < 2 ^ 64 \<and> p + 1 + ls + os \<le> e \<and> b p = of_nat (ls + 16 * os) \<and>
     rd_le b (p + 1) ls = of_nat len \<and> (os \<noteq> 0 \<longrightarrow> rd_signed b (p + 1 + ls) os = word_of_int d) \<and>
     runs_at b (p + 1 + ls + os) rs e"

text \<open>The reference: which run a cluster lies in, counted from the start of the list.\<close>

fun run_lookup :: "run list \<Rightarrow> nat \<Rightarrow> int \<Rightarrow> (int \<times> nat \<times> bool) option" where
  "run_lookup [] v l = None"
| "run_lookup ((ls, len, os, d) # rs) v l =
     (let l' = (if os = 0 then l else l + d) in
      if v < len then Some (if os = 0 then 0 else l' + int v, len - v, os = 0)
      else run_lookup rs (v - len) l')"

definition run_clusters :: "run list \<Rightarrow> nat" where
  "run_clusters rs = sum_list (map (\<lambda>(ls, len, os, d). len) rs)"

lemma run_clusters_simps [simp]: "run_clusters [] = 0" "run_clusters ((ls, len, os, d) # rs) = len + run_clusters rs"
  by (simp_all add: run_clusters_def)

lemma run_lookup_mapped: "run_lookup rs v l \<noteq> None \<longleftrightarrow> v < run_clusters rs"
  by (induction rs v l rule: run_lookup.induct) (auto simp: Let_def)

lemma header_nibbles:
  assumes "ls \<le> 8" "os \<le> 8"
  shows "unat ((of_nat (ls + 16 * os) :: u8) AND 0x0F) = ls" "unat (drop_bit 4 (of_nat (ls + 16 * os) :: u8) AND 0x0F) = os"
proof -
  have u: "unat (of_nat (ls + 16 * os) :: u8) = ls + 16 * os"
    by (rule unat_of_nat_small) (use assms in simp)
  have m: "(0x0F :: u8) = mask 4" by (simp add: mask_eq_exp_minus_1)
  have ls: "(ls + 16 * os) mod 16 = ls" "(ls + 16 * os) div 16 = os" using assms by simp_all
  show "unat ((of_nat (ls + 16 * os) :: u8) AND 0x0F) = ls"
    unfolding m take_bit_eq_mask [symmetric] unsigned_take_bit_eq u using ls by (simp add: take_bit_eq_mod)
  show "unat (drop_bit 4 (of_nat (ls + 16 * os) :: u8) AND 0x0F) = os"
    unfolding m take_bit_eq_mask [symmetric] unsigned_take_bit_eq unsigned_drop_bit_eq u
    using ls assms by (simp add: take_bit_eq_mod drop_bit_eq_div)
qed

lemma run_loop_lookup:
  assumes "runs_at b p rs e" "c + run_clusters rs < 2 ^ 64" "c \<le> unat vcn"
  shows "run_loop b e vcn p (of_nat c) (word_of_int l) =
    Some (map_option (\<lambda>(x, n, h). (word_of_int x, of_nat n, h)) (run_lookup rs (unat vcn - c) l))"
  using assms
proof (induction rs arbitrary: p c l)
  case Nil
  then show ?case by (subst run_loop.simps) (auto simp: Let_def)
next
  case (Cons r rs)
  obtain ls len os d where r: "r = (ls, len, os, d)" by (cases r) auto
  have R: "0 < ls" "ls \<le> 8" "os \<le> 8" "len < 2 ^ 64" "p + 1 + ls + os \<le> e" "b p = of_nat (ls + 16 * os)"
    "rd_le b (p + 1) ls = of_nat len" "os \<noteq> 0 \<Longrightarrow> rd_signed b (p + 1 + ls) os = word_of_int d"
    "runs_at b (p + 1 + ls + os) rs e" using Cons.prems(1) by (simp_all add: r)
  have tot: "c + len + run_clusters rs < 2 ^ 64" using Cons.prems(2) by (simp add: r)
  note nib = header_nibbles [OF R(2,3), folded R(6)]
  have h0: "b p \<noteq> 0" using nib(1) R(1) by auto
  have uc: "unat (of_nat c :: u64) = c" by (rule unat_of_nat_small) (use tot in simp)
  have ul: "unat (of_nat len :: u64) = len" by (rule unat_of_nat_small) (use R(4) in simp)
  have ucl: "unat (of_nat c + of_nat len :: u64) = c + len"
    using unat_of_nat_small [of "c + len", where 'a = 64] tot by simp
  define l' where "l' = (if os = 0 then l else l + d)"
  have lw: "(if os = 0 then word_of_int l else word_of_int l + rd_signed b (p + 1 + ls) os) = (word_of_int l' :: u64)"
    using R(8) by (simp add: l'_def)
  have ge: "vcn \<ge> of_nat c" using Cons.prems(3) uc by (simp add: word_le_nat_alt)
  have lt: "vcn < of_nat c + of_nat len \<longleftrightarrow> unat vcn < c + len" by (simp add: word_less_nat_alt ucl)
  have step: "run_loop b e vcn p (of_nat c) (word_of_int l) =
      (if unat vcn < c + len
       then Some (Some (if os = 0 then 0 else word_of_int l' + (vcn - of_nat c), of_nat len - (vcn - of_nat c), os = 0))
       else run_loop b e vcn (p + 1 + ls + os) (of_nat (c + len)) (word_of_int l'))"
    using R(1-5) h0 ge lt by (subst run_loop.simps) (simp only: Let_def nib R(7) lw, simp)
  show ?case
  proof (cases "unat vcn < c + len")
    case True
    have v: "vcn - of_nat c = of_nat (unat vcn - c)"
      using Cons.prems(3) by (simp add: of_nat_diff)
    have n: "of_nat len - (of_nat (unat vcn - c) :: u64) = of_nat (len - (unat vcn - c))"
      using True Cons.prems(3) by (simp add: of_nat_diff)
    have "unat vcn - c < len" using True Cons.prems(3) by linarith
    then have lk: "run_lookup ((ls, len, os, d) # rs) (unat vcn - c) l =
        Some (if os = 0 then 0 else l' + int (unat vcn - c), len - (unat vcn - c), os = 0)"
      by (simp add: l'_def)
    have "run_loop b e vcn p (of_nat c) (word_of_int l) = Some (Some (if os = 0 then 0 else
        word_of_int l' + of_nat (unat vcn - c), of_nat (len - (unat vcn - c)), os = 0))"
      unfolding step using True by (simp only: if_True v n)
    then show ?thesis unfolding r lk by (cases "os = 0") simp_all
  next
    case False
    have "run_loop b e vcn (p + 1 + ls + os) (of_nat (c + len)) (word_of_int l') =
      Some (map_option (\<lambda>(x, n, h). (word_of_int x, of_nat n, h)) (run_lookup rs (unat vcn - (c + len)) l'))"
      using False tot by (intro Cons.IH [OF R(9)]) simp_all
    moreover have "\<not> unat vcn - c < len" "unat vcn - c - len = unat vcn - (c + len)" using False by linarith+
    then have "run_lookup ((ls, len, os, d) # rs) (unat vcn - c) l = run_lookup rs (unat vcn - (c + len)) l'"
      by (simp add: l'_def)
    moreover have "run_loop b e vcn p (of_nat c) (word_of_int l) =
        run_loop b e vcn (p + 1 + ls + os) (of_nat (c + len)) (word_of_int l')"
      unfolding step using False by (simp only: if_False)
    ultimately show ?thesis unfolding r by (simp only:)
  qed
qed

lemma run_for_vcn_lookup:
  assumes "runs_at b (unat a + unat (rd16 b (unat a + 0x20))) rs (unat a + unat (rd32 b (unat a + 4)))"
    "run_clusters rs < 2 ^ 64"
  shows "ntfs_run_for_vcn b a vcn =
      Some (map_option (\<lambda>(x, n, h). (word_of_int x, of_nat n, h)) (run_lookup rs (unat vcn) 0))"
  using run_loop_lookup [OF assms(1), of 0 vcn 0] assms(2) by (simp add: ntfs_run_for_vcn_def)

text \<open>C14: Looking up a cluster of a non-resident attribute is a lookup in its extent map: for an attribute whose
  bytes encode a list of runs, \<open>ntfs_run_for_vcn\<close> gives the disk cluster, the clusters left in the run and
  the hole flag of the run the cluster lies in, as the reference computes them from the lengths and
  distances, and finds a run exactly for the clusters the attribute has.\<close>
theorem run_for_vcn_extent_map:
  assumes "runs_at b (unat a + unat (rd16 b (unat a + 0x20))) rs (unat a + unat (rd32 b (unat a + 4)))"
    "run_clusters rs < 2 ^ 64"
  shows "ntfs_run_for_vcn b a vcn =
      Some (map_option (\<lambda>(x, n, h). (word_of_int x, of_nat n, h)) (run_lookup rs (unat vcn) 0)) \<and>
    (ntfs_run_for_vcn b a vcn = Some None \<longleftrightarrow> run_clusters rs \<le> unat vcn)"
proof -
  note e = run_for_vcn_lookup [OF assms]
  have "ntfs_run_for_vcn b a vcn = Some None \<longleftrightarrow> run_lookup rs (unat vcn) 0 = None"
    unfolding e by (cases "run_lookup rs (unat vcn) 0") auto
  moreover have "run_lookup rs (unat vcn) 0 = None \<longleftrightarrow> run_clusters rs \<le> unat vcn"
    using run_lookup_mapped [of rs "unat vcn" 0] by linarith
  ultimately show ?thesis by (intro conjI e) (simp only:)
qed

definition runs_rec :: buf where
  "runs_rec = (\<lambda>_. 0)(0x04 := 0x48, 0x20 := 0x40, 0x40 := 0x11, 0x41 := 4, 0x42 := 0x20, 0x43 := 0x01, 0x44 := 2,
     0x45 := 0x11, 0x46 := 3, 0x47 := 0xF0)"

theorem run_for_vcn_extent_map_witness:
  "ntfs_run_for_vcn runs_rec 0 7 = Some (Some (17, 2, False)) \<and> ntfs_run_for_vcn runs_rec 0 5 = Some (Some (0, 1, True)) \<and>
   ntfs_run_for_vcn runs_rec 0 9 = Some None"
proof -
  let ?rs = "[(1, 4, 1, 32), (1, 2, 0, 0), (1, 3, 1, -16)] :: run list"
  have le: "rd_le runs_rec 0x41 1 = 4" "rd_le runs_rec 0x44 1 = 2" "rd_le runs_rec 0x46 1 = 3"
    by (simp_all add: rd_le_def runs_rec_def)
  have sg: "rd_signed runs_rec 0x42 1 = word_of_int 32" "rd_signed runs_rec 0x47 1 = word_of_int (- 16)"
    by (simp_all add: rd_signed_def rd_le_def runs_rec_def mask_eq_exp_minus_1)
  have at: "runs_at runs_rec 0x40 ?rs 0x48" using le sg by (simp add: runs_rec_def)
  have "unat (0 :: u32) + unat (rd16 runs_rec (unat (0 :: u32) + 0x20)) = 0x40"
    "unat (0 :: u32) + unat (rd32 runs_rec (unat (0 :: u32) + 4)) = 0x48"
    by (simp_all add: rd16_def rd32_def runs_rec_def)
  then have at': "runs_at runs_rec (unat (0 :: u32) + unat (rd16 runs_rec (unat (0 :: u32) + 0x20))) ?rs
      (unat (0 :: u32) + unat (rd32 runs_rec (unat (0 :: u32) + 4)))" using at by (simp only:)
  have "run_clusters ?rs < 2 ^ 64" by simp
  note L = run_for_vcn_extent_map [OF at' this, THEN conjunct1]
  show ?thesis by (simp add: L)
qed

end
