(* ===== verification/NtfsRead.thy ===== *)
theory NtfsRead
  imports NtfsBase Heap
begin

text \<open>
  Reading an NTFS volume (\<open>ntfs.c\<close>): sectors, MFT records, file contents, directories, paths and
  mounting.  The disk controller is hardware: sectors are a function from the logical block address to
  512 bytes, with a set of addresses whose transfer fails.  Temporary buffers come from the kernel
  heap; \<open>junk p\<close> is the memory from address \<open>p\<close> on as the allocator left it.  A directory listing is the
  list of the entries its callback is called with.  Results are options: \<open>None\<close> when the code does not
  return or is undefined (a division by a zero cluster size, a wild shift, a bad \<open>kfree\<close>).
\<close>

definition HAL_SECTOR_SIZE :: nat where "HAL_SECTOR_SIZE = 512"
definition NTFS_MFT_ROOT :: u64 where "NTFS_MFT_ROOT = 5"
definition NTFS_MAX_NAME :: nat where "NTFS_MAX_NAME = 255"

record ntfs_state =
  s_vol :: NTFS_VOLUME
  disk :: "u32 \<Rightarrow> nat \<Rightarrow> u8"
  bad :: "u32 \<Rightarrow> bool"
  nheap :: heap
  junk :: "nat \<Rightarrow> buf"

record NTFS_FILE_INFO =
  mft_record :: u64
  is_dir :: bool
  fsize :: u64
  fname :: string

text \<open>A buffer for the duration of \<open>f\<close>: \<open>kmalloc\<close>, early return \<open>r\<close> if it fails, and \<open>kfree\<close> on every
  path out of \<open>f\<close>.\<close>

definition with_buf :: "u64 \<Rightarrow> 'r \<Rightarrow> (buf \<Rightarrow> ntfs_state \<Rightarrow> ('r \<times> ntfs_state) option) \<Rightarrow> ntfs_state \<Rightarrow> ('r \<times> ntfs_state) option" where
  "with_buf n r f s =
     (case kmalloc n (nheap s) of (h, p) \<Rightarrow>
        if p = 0 then Some (r, s\<lparr>nheap := h\<rparr>)
        else do { (x, s') \<leftarrow> f (junk s p) (s\<lparr>nheap := h\<rparr>);
                  h' \<leftarrow> kfree p (nheap s');
                  Some (x, s'\<lparr>nheap := h'\<rparr>) })"

section \<open>Sectors and clusters\<close>

definition sector_lba :: "ntfs_state \<Rightarrow> u64 \<Rightarrow> nat \<Rightarrow> u32" where
  "sector_lba s vol_sector i = part_lba (s_vol s) + ucast (vol_sector + of_nat i)"

fun read_sectors_loop :: "ntfs_state \<Rightarrow> u64 \<Rightarrow> nat \<Rightarrow> nat \<Rightarrow> buf \<Rightarrow> buf \<times> bool" where
  "read_sectors_loop s vs i 0 b = (b, True)"
| "read_sectors_loop s vs i (Suc n) b =
     (let lba = sector_lba s vs i in
      if bad s lba then (b, False)
      else read_sectors_loop s vs (Suc i) n
        (put_bytes HAL_SECTOR_SIZE (i * unat (bytes_per_sector (s_vol s))) (disk s lba) b))"

definition ntfs_read_sectors :: "ntfs_state \<Rightarrow> u64 \<Rightarrow> u32 \<Rightarrow> buf \<Rightarrow> buf \<times> bool" where
  "ntfs_read_sectors s vs cnt b = read_sectors_loop s vs 0 (unat cnt) b"

definition ntfs_read_clusters :: "ntfs_state \<Rightarrow> u64 \<Rightarrow> u32 \<Rightarrow> buf \<Rightarrow> buf \<times> bool" where
  "ntfs_read_clusters s lcn cnt b =
     ntfs_read_sectors s (lcn * ucast (sectors_per_cluster (s_vol s))) (cnt * ucast (sectors_per_cluster (s_vol s))) b"

section \<open>MFT records\<close>

definition is_magic :: "string \<Rightarrow> buf \<Rightarrow> nat \<Rightarrow> bool" where
  "is_magic m b off \<longleftrightarrow> (\<forall>i < length m. b (off + i) = of_char (m ! i))"

definition record_sector :: "ntfs_state \<Rightarrow> u64 \<Rightarrow> u64" where
  "record_sector s rno =
     (mft_data_lcn (s_vol s) * ucast (bytes_per_cluster (s_vol s)) + rno * ucast (mft_record_size (s_vol s)))
       div ucast (bytes_per_sector (s_vol s))"

definition record_sectors :: "ntfs_state \<Rightarrow> u32" where
  "record_sectors s =
     (let n = mft_record_size (s_vol s) div ucast (bytes_per_sector (s_vol s)) in if n = 0 then 1 else n)"

text \<open>The flag is the comparison of the result with 0.  The result of the fixups is ignored.\<close>

definition ntfs_read_mft_record :: "ntfs_state \<Rightarrow> u64 \<Rightarrow> buf \<Rightarrow> (buf \<times> bool) option" where
  "ntfs_read_mft_record s rno b =
     (if bytes_per_sector (s_vol s) = 0 then None
      else case ntfs_read_sectors s (record_sector s rno) (record_sectors s) b of (b1, ok) \<Rightarrow>
        if \<not> ok then Some (b1, False)
        else if \<not> is_magic ''FILE'' b1 0 then Some (b1, False)
        else Some (fst (ntfs_apply_fixups (bytes_per_sector (s_vol s)) (mft_record_size (s_vol s))
                     (rd16 b1 0x04) (rd16 b1 0x06) b1), True))"

abbreviation find_attr :: "ntfs_state \<Rightarrow> buf \<Rightarrow> u32 \<Rightarrow> nat \<Rightarrow> bool \<Rightarrow> u32 option option" where
  "find_attr s b ty which i30 \<equiv> ntfs_find_attr (mft_record_size (s_vol s)) b ty which i30"

section \<open>File contents\<close>

lemma chunk_progress:
  fixes dn :: nat
  assumes "dn < len" "0 < cl"
  shows "len - (dn + min (cl - m mod cl) (len - dn)) < len - dn"
proof -
  have "0 < cl - m mod cl" using assms(2) by simp
  then show ?thesis using assms(1) by simp
qed

text \<open>The bytes read so far are \<open>acc\<close>; \<open>cb\<close> is the cluster buffer, which keeps its contents between
  rounds.\<close>

function read_nonres_loop :: "ntfs_state \<Rightarrow> buf \<Rightarrow> u32 \<Rightarrow> u64 \<Rightarrow> nat \<Rightarrow> nat \<Rightarrow> buf \<Rightarrow> u8 list \<Rightarrow> u8 list option" where
  "read_nonres_loop s r a off len dn cb acc =
     (if dn < len then
        (let cl = unat (bytes_per_cluster (s_vol s)); p = off + of_nat dn;
             vcn = p div ucast (bytes_per_cluster (s_vol s)); in_cl = unat p mod cl;
             chunk = min (cl - in_cl) (len - dn)
         in if cl = 0 then None
            else case ntfs_run_for_vcn r a vcn of
              None \<Rightarrow> None
            | Some None \<Rightarrow> Some acc
            | Some (Some (lcn, rc, sparse)) \<Rightarrow>
                if sparse then read_nonres_loop s r a off len (dn + chunk) cb (acc @ replicate chunk 0)
                else (case ntfs_read_clusters s lcn 1 cb of (cb', ok) \<Rightarrow>
                  if \<not> ok then Some acc
                  else read_nonres_loop s r a off len (dn + chunk) cb'
                         (acc @ map (\<lambda>i. cb' (in_cl + i)) [0..<chunk])))
      else Some acc)"
  by pat_completeness auto
termination
  by (relation "measure (\<lambda>(s, r, a, off, len, dn, cb, acc). len - dn)") (auto simp only: in_measure split_conv chunk_progress neq0_conv)

declare read_nonres_loop.simps [simp del]

definition ntfs_read_nonresident :: "buf \<Rightarrow> u32 \<Rightarrow> u64 \<Rightarrow> u32 \<Rightarrow> ntfs_state \<Rightarrow> (u8 list \<times> ntfs_state) option" where
  "ntfs_read_nonresident r a off len s =
     (let real = attr_nonresident_size r a in
      if off \<ge> real then Some ([], s)
      else
        (let n = (if off + ucast len > real then ucast (real - off) else len)
         in with_buf (ucast (bytes_per_cluster (s_vol s))) []
              (\<lambda>cb s1. do { bs \<leftarrow> read_nonres_loop s1 r a off (unat n) 0 cb []; Some (bs, s1) }) s))"

definition ntfs_read_data_attr :: "buf \<Rightarrow> u64 \<Rightarrow> u32 \<Rightarrow> ntfs_state \<Rightarrow> (u8 list \<times> ntfs_state) option" where
  "ntfs_read_data_attr r off len s = do {
     oa \<leftarrow> find_attr s r ATTR_DATA 0 False;
     (case oa of
        None \<Rightarrow> Some ([], s)
      | Some a \<Rightarrow>
          if \<not> attr_is_nonresident r a
          then (case attr_resident_data r a of (dat, clen) \<Rightarrow>
            if off \<ge> ucast clen then Some ([], s)
            else Some (map (\<lambda>i. r (dat + unat off + i)) [0..<unat (min len (clen - ucast off))], s))
          else ntfs_read_nonresident r a off len s) }"

definition ntfs_read_file :: "u64 \<Rightarrow> u64 \<Rightarrow> bool \<Rightarrow> u32 \<Rightarrow> ntfs_state \<Rightarrow> (u8 list \<times> ntfs_state) option" where
  "ntfs_read_file rno off has_buf len s =
     (if \<not> mounted (s_vol s) \<or> \<not> has_buf \<or> len = 0 then Some ([], s)
      else with_buf (ucast (mft_record_size (s_vol s))) []
        (\<lambda>b s1. do { (r, ok) \<leftarrow> ntfs_read_mft_record s1 rno b;
                     if ok then ntfs_read_data_attr r off len s1 else Some ([], s1) }) s)"

section \<open>File information\<close>

text \<open>The names of the first eight \<open>$FILE_NAME\<close> attributes, the last with the best score winning.\<close>

definition ns_score :: "u8 \<Rightarrow> int" where
  "ns_score ns = (if ns = 1 \<or> ns = 3 then 3 else if ns = 2 then 2 else 1)"

fun best_name_loop :: "ntfs_state \<Rightarrow> buf \<Rightarrow> nat \<Rightarrow> nat \<Rightarrow> int \<Rightarrow> string \<Rightarrow> string option" where
  "best_name_loop s r which 0 best nm = Some nm"
| "best_name_loop s r which (Suc n) best nm =
     (case find_attr s r ATTR_FILE_NAME which False of
        None \<Rightarrow> None
      | Some None \<Rightarrow> Some nm
      | Some (Some a) \<Rightarrow>
          if attr_is_nonresident r a then best_name_loop s r (Suc which) n best nm
          else (case attr_resident_data r a of (f, clen) \<Rightarrow>
            if clen < 0x42 then best_name_loop s r (Suc which) n best nm
            else (let score = ns_score (r (f + 0x41)) in
              if score > best
              then best_name_loop s r (Suc which) n score
                     (utf16_to_ascii r (f + 0x42) (unat (r (f + 0x40))) (NTFS_MAX_NAME + 1))
              else best_name_loop s r (Suc which) n best nm)))"

definition ntfs_fill_info :: "buf \<Rightarrow> u64 \<Rightarrow> ntfs_state \<Rightarrow> NTFS_FILE_INFO option" where
  "ntfs_fill_info r rno s = do {
     nm \<leftarrow> best_name_loop s r 0 8 (- 1) [];
     da \<leftarrow> find_attr s r ATTR_DATA 0 False;
     Some \<lparr>mft_record = rno, is_dir = (rd16 r 0x16 AND MFT_FLAG_DIRECTORY \<noteq> 0),
           fsize = (case da of None \<Rightarrow> 0
                    | Some a \<Rightarrow> if attr_is_nonresident r a then attr_nonresident_size r a
                                else ucast (snd (attr_resident_data r a))),
           fname = nm\<rparr> }"

section \<open>Directories\<close>

text \<open>The entries of one index node between \<open>e\<close> and \<open>lim\<close>, as reported to the callback.\<close>

definition index_entry :: "buf \<Rightarrow> nat \<Rightarrow> nat \<Rightarrow> NTFS_FILE_INFO list" where
  "index_entry b e lim =
     (let klen = unat (rd16 b (e + 0x0A)); f = e + 0x10 in
      if klen \<ge> 0x42 \<and> e + 0x10 + klen \<le> lim
      then (let d = (rd32 b (f + 0x38) AND FILE_ATTR_DIRECTORY \<noteq> 0);
                nm = utf16_to_ascii b (f + 0x42) (unat (b (f + 0x40))) (NTFS_MAX_NAME + 1)
            in if b (f + 0x41) \<noteq> 2 \<and> b (f + 0x40) \<noteq> 0 \<and> nm \<noteq> ''.''
               then [\<lparr>mft_record = rd64 b e AND 0x0000FFFFFFFFFFFF, is_dir = d,
                      fsize = (if d then 0 else rd64 b (f + 0x30)), fname = nm\<rparr>]
               else [])
      else [])"

function ntfs_walk_index_entries :: "buf \<Rightarrow> nat \<Rightarrow> nat \<Rightarrow> NTFS_FILE_INFO list" where
  "ntfs_walk_index_entries b e lim =
     (if e + 0x10 \<le> lim
      then (let elen = unat (rd16 b (e + 0x08)) in
            if elen < 0x10 then []
            else if rd16 b (e + 0x0C) AND INDEX_ENTRY_END \<noteq> 0 then []
            else index_entry b e lim @ ntfs_walk_index_entries b (e + elen) lim)
      else [])"
  by pat_completeness auto
termination
  by (relation "measure (\<lambda>(b, e, lim). lim - e)") auto

declare ntfs_walk_index_entries.simps [simp del]

text \<open>A node header at \<open>node\<close> inside a content that ends at \<open>fin\<close>.\<close>

definition walk_node :: "buf \<Rightarrow> nat \<Rightarrow> nat \<Rightarrow> NTFS_FILE_INFO list" where
  "walk_node b node fin =
     ntfs_walk_index_entries b (node + unat (rd32 b node)) (min (node + unat (rd32 b (node + 4))) fin)"

definition first_attr :: "ntfs_state \<Rightarrow> buf \<Rightarrow> u32 \<Rightarrow> u32 option option" where
  "first_attr s r ty =
     (case find_attr s r ty 0 True of Some None \<Rightarrow> find_attr s r ty 0 False | x \<Rightarrow> x)"

definition list_index_root :: "buf \<Rightarrow> ntfs_state \<Rightarrow> NTFS_FILE_INFO list option" where
  "list_index_root r s = do {
     oir \<leftarrow> first_attr s r ATTR_INDEX_ROOT;
     Some (case oir of None \<Rightarrow> []
       | Some ir \<Rightarrow>
           if attr_is_nonresident r ir then []
           else (case attr_resident_data r ir of (root, clen) \<Rightarrow>
             if clen \<ge> 0x20 then walk_node r (root + 0x10) (root + unat clen) else [])) }"

text \<open>The blocks of \<open>$INDEX_ALLOCATION\<close> from position \<open>pos\<close>; \<open>blk\<close> is the block buffer.\<close>

definition put_list :: "u8 list \<Rightarrow> buf \<Rightarrow> buf" where
  "put_list bs b = put_bytes (length bs) 0 (\<lambda>i. bs ! i) b"

partial_function (option) index_blocks ::
  "buf \<Rightarrow> u32 \<Rightarrow> u64 \<Rightarrow> u32 \<Rightarrow> u64 \<Rightarrow> buf \<Rightarrow> NTFS_FILE_INFO list \<Rightarrow> ntfs_state \<Rightarrow> (NTFS_FILE_INFO list \<times> ntfs_state) option" where
  "index_blocks r ia tot irs pos blk acc s =
     (if pos + ucast irs \<le> tot
      then Option.bind (ntfs_read_nonresident r ia pos irs s) (\<lambda>(bs, s1).
        if length bs \<noteq> unat irs then Some (acc, s1)
        else if \<not> is_magic ''INDX'' (put_list bs blk) 0
        then index_blocks r ia tot irs (pos + ucast irs) (put_list bs blk) acc s1
        else (let b0 = put_list bs blk;
                  b1 = fst (ntfs_apply_fixups (bytes_per_sector (s_vol s)) irs (rd16 b0 0x04) (rd16 b0 0x06) b0)
              in index_blocks r ia tot irs (pos + ucast irs) b1 (acc @ walk_node b1 0x18 (unat irs)) s1))
      else Some (acc, s))"

definition list_index_allocation :: "buf \<Rightarrow> NTFS_FILE_INFO list \<Rightarrow> ntfs_state \<Rightarrow> (NTFS_FILE_INFO list \<times> ntfs_state) option" where
  "list_index_allocation r acc s = do {
     oia \<leftarrow> first_attr s r ATTR_INDEX_ALLOCATION;
     (case oia of None \<Rightarrow> Some (acc, s)
      | Some ia \<Rightarrow>
          if \<not> attr_is_nonresident r ia then Some (acc, s)
          else (let irs = (if index_record_size (s_vol s) \<noteq> 0 then index_record_size (s_vol s) else bytes_per_cluster (s_vol s))
                in with_buf (ucast irs) acc
                     (\<lambda>blk s1. if irs = 0 then Some (acc, s1)
                               else index_blocks r ia (attr_nonresident_size r ia) irs 0 blk acc s1) s)) }"

definition ntfs_list_dir :: "u64 \<Rightarrow> ntfs_state \<Rightarrow> (NTFS_FILE_INFO list \<times> ntfs_state) option" where
  "ntfs_list_dir dir s =
     (if \<not> mounted (s_vol s) then Some ([], s)
      else with_buf (ucast (mft_record_size (s_vol s))) []
        (\<lambda>b s1. do { (r, ok) \<leftarrow> ntfs_read_mft_record s1 dir b;
                     if \<not> ok then Some ([], s1)
                     else do { es \<leftarrow> list_index_root r s1; list_index_allocation r es s1 } }) s)"

section \<open>Paths\<close>

text \<open>\<open>find_cb\<close>: the first entry whose name matches.\<close>

definition find_cb :: "string \<Rightarrow> NTFS_FILE_INFO list \<Rightarrow> NTFS_FILE_INFO option" where
  "find_cb want es = find (\<lambda>i. nieq (fname i) want) es"

definition is_slash :: "char \<Rightarrow> bool" where "is_slash c \<longleftrightarrow> c = CHR 0x5C \<or> c = CHR ''/''"

text \<open>One component: at most 255 characters; a longer one is cut and goes on as the next.\<close>

definition path_comp :: "string \<Rightarrow> string \<times> string" where
  "path_comp p = (let c = take NTFS_MAX_NAME (takeWhile (\<lambda>c. \<not> is_slash c) p)
                  in (c, dropWhile is_slash (drop (length c) p)))"

fun resolve_loop :: "nat \<Rightarrow> string \<Rightarrow> NTFS_FILE_INFO \<Rightarrow> ntfs_state \<Rightarrow> (NTFS_FILE_INFO option \<times> ntfs_state) option" where
  "resolve_loop 0 p cur s = None"
| "resolve_loop (Suc n) p cur s =
     (if p = [] then Some (Some cur, s)
      else (case path_comp p of (cm, rest) \<Rightarrow>
        if cm = [] then resolve_loop n rest cur s
        else (case ntfs_list_dir (mft_record cur) s of
            None \<Rightarrow> None
          | Some (es, s1) \<Rightarrow> (case find_cb cm es of
                None \<Rightarrow> Some (None, s1)
              | Some hit \<Rightarrow> resolve_loop n rest hit s1))))"

definition root_info :: "NTFS_FILE_INFO" where
  "root_info = \<lparr>mft_record = NTFS_MFT_ROOT, is_dir = True, fsize = 0, fname = [CHR 0x5C]\<rparr>"

definition read_root_info :: "ntfs_state \<Rightarrow> (NTFS_FILE_INFO \<times> ntfs_state) option" where
  "read_root_info s = with_buf (ucast (mft_record_size (s_vol s))) root_info
     (\<lambda>b s1. do { (r, ok) \<leftarrow> ntfs_read_mft_record s1 NTFS_MFT_ROOT b;
                  if ok then do { i \<leftarrow> ntfs_fill_info r NTFS_MFT_ROOT s1;
                                  Some (i\<lparr>is_dir := True, fname := [CHR 0x5C]\<rparr>, s1) }
                  else Some (root_info, s1) }) s"

text \<open>The fuel is the length of the path: every round consumes a character.\<close>

definition ntfs_resolve_path :: "string option \<Rightarrow> ntfs_state \<Rightarrow> (NTFS_FILE_INFO option \<times> ntfs_state) option" where
  "ntfs_resolve_path path s =
     (case path of
        None \<Rightarrow> Some (None, s)
      | Some p \<Rightarrow>
          if \<not> mounted (s_vol s) then Some (None, s)
          else do { (root, s1) \<leftarrow> read_root_info s;
                    resolve_loop (Suc (length p)) (dropWhile is_slash p) root s1 })"

section \<open>Mounting\<close>

definition record_size_of :: "u8 \<Rightarrow> u32 \<Rightarrow> u32 option" where
  "record_size_of c cluster =
     (if 0 <s c then Some (ucast c * cluster)
      else if nat (- sint c) < 32 then Some (push_bit (nat (- sint c)) 1) else None)"

definition read_bpb :: "u32 \<Rightarrow> buf \<Rightarrow> NTFS_VOLUME option" where
  "read_bpb lba b =
     (let bps = (if rd16 b 0x0B = 0 then of_nat HAL_SECTOR_SIZE else rd16 b 0x0B);
          spc = (if b 0x0D = 0 then 1 else b 0x0D);
          cl = ucast bps * ucast spc
      in do { mrs \<leftarrow> record_size_of (b 0x40) cl;
              irs \<leftarrow> record_size_of (b 0x44) cl;
              Some \<lparr>mounted = False, part_lba = lba, bytes_per_sector = bps, sectors_per_cluster = spc,
                bytes_per_cluster = cl, total_sectors = rd64 b 0x28, mft_lcn = rd64 b 0x30, mftmirr_lcn = rd64 b 0x38,
                mft_record_size = mrs, index_record_size = irs, mft_data_lcn = rd64 b 0x30, serial = rd64 b 0x48\<rparr> })"

definition vol_zero :: NTFS_VOLUME where
  "vol_zero = \<lparr>mounted = False, part_lba = 0, bytes_per_sector = 0, sectors_per_cluster = 0, bytes_per_cluster = 0,
     total_sectors = 0, mft_lcn = 0, mftmirr_lcn = 0, mft_record_size = 0, index_record_size = 0, mft_data_lcn = 0, serial = 0\<rparr>"

text \<open>Record 0 is read and the first run of its \<open>$DATA\<close> taken as the start of the table.\<close>

definition mount_record0 :: "ntfs_state \<Rightarrow> (bool \<times> ntfs_state) option" where
  "mount_record0 s = with_buf (ucast (mft_record_size (s_vol s))) False
     (\<lambda>b s1. do { (r, ok) \<leftarrow> ntfs_read_mft_record s1 0 b;
                  if \<not> ok then Some (False, s1)
                  else do { oa \<leftarrow> find_attr s1 r ATTR_DATA 0 False;
                    (case oa of None \<Rightarrow> Some (True, s1)
                     | Some a \<Rightarrow>
                         if \<not> attr_is_nonresident r a then Some (True, s1)
                         else do { run \<leftarrow> ntfs_run_for_vcn r a 0;
                                   Some (True, (case run of
                                       Some (lcn, rc, False) \<Rightarrow> s1\<lparr>s_vol := (s_vol s1)\<lparr>mft_data_lcn := lcn\<rparr>\<rparr>
                                     | _ \<Rightarrow> s1)) }) } }) s"

definition ntfs_mount :: "u32 \<Rightarrow> ntfs_state \<Rightarrow> (bool \<times> ntfs_state) option" where
  "ntfs_mount lba s =
     (let s0 = s\<lparr>s_vol := vol_zero\<lparr>part_lba := lba, bytes_per_sector := of_nat HAL_SECTOR_SIZE\<rparr>\<rparr>; b = disk s lba in
      if bad s lba \<or> \<not> is_magic ''NTFS'' b 3 then Some (False, s0)
      else do { v \<leftarrow> read_bpb lba b;
        (let s1 = s0\<lparr>s_vol := v\<rparr> in
         if mft_record_size v < 256 \<or> mft_record_size v > 8192 then Some (False, s1)
         else do { (ok, s2) \<leftarrow> mount_record0 s1;
                   Some (if ok then (True, s2\<lparr>s_vol := (s_vol s2)\<lparr>mounted := True\<rparr>\<rparr>) else (False, s2)) }) })"

record NTFS_VOLUME_INFO =
  vi_serial :: u64
  total_bytes :: u64
  free_bytes :: u64
  vi_bytes_per_sector :: u32
  vi_bytes_per_cluster :: u32
  fs_name :: string
  vlabel :: string

definition volume_label :: "buf \<Rightarrow> ntfs_state \<Rightarrow> string option" where
  "volume_label r s = do {
     ov \<leftarrow> find_attr s r ATTR_VOLUME_NAME 0 False;
     Some (case ov of None \<Rightarrow> ''MEUOS''
       | Some a \<Rightarrow>
           if attr_is_nonresident r a then ''MEUOS''
           else (case attr_resident_data r a of (c, vlen) \<Rightarrow>
             if vlen \<ge> 2 then utf16_to_ascii r c (min (unat vlen div 2) 31) 32 else ''MEUOS'')) }"

definition ntfs_volume_info :: "ntfs_state \<Rightarrow> (NTFS_VOLUME_INFO option \<times> ntfs_state) option" where
  "ntfs_volume_info s =
     (if \<not> mounted (s_vol s) then Some (None, s)
      else (let v = s_vol s; tot = total_sectors v * ucast (bytes_per_sector v) in
        do { (l, s1) \<leftarrow> with_buf (ucast (mft_record_size v)) ''MEUOS''
               (\<lambda>b s1. do { (r, ok) \<leftarrow> ntfs_read_mft_record s1 3 b;
                            if ok then do { l \<leftarrow> volume_label r s1; Some (l, s1) } else Some (''MEUOS'', s1) }) s;
             Some (Some \<lparr>vi_serial = serial v, total_bytes = tot, free_bytes = tot - drop_bit 3 tot,
               vi_bytes_per_sector = ucast (bytes_per_sector v), vi_bytes_per_cluster = bytes_per_cluster v,
               fs_name = ''NTFS'', vlabel = l\<rparr>, s1) }))"

section \<open>Reading leaves no trace\<close>

text \<open>Every temporary buffer is freed before the operation returns, and freeing the block that was just
  allocated gives back the heap.  The reading operations therefore return the state they were given.\<close>

definition keeps :: "(ntfs_state \<Rightarrow> ('r \<times> ntfs_state) option) \<Rightarrow> bool" where
  "keeps f \<longleftrightarrow> (\<forall>s x s'. heap_inv (nheap s) \<longrightarrow> f s = Some (x, s') \<longrightarrow> s' = s)"

lemma keepsD: "keeps f \<Longrightarrow> heap_inv (nheap s) \<Longrightarrow> f s = Some (x, s') \<Longrightarrow> s' = s"
  unfolding keeps_def by blast

lemma keepsI: "(\<And>s x s'. heap_inv (nheap s) \<Longrightarrow> f s = Some (x, s') \<Longrightarrow> s' = s) \<Longrightarrow> keeps f"
  unfolding keeps_def by blast

lemma with_buf_keeps:
  assumes "\<And>b. keeps (f b)"
  shows "keeps (with_buf n r f)"
proof (rule keepsI)
  fix s x s'
  assume H: "heap_inv (nheap s)" and R: "with_buf n r f s = Some (x, s')"
  obtain h p where K: "kmalloc n (nheap s) = (h, p)" by fastforce
  show "s' = s"
  proof (cases "p = 0")
    case True
    then have "h = nheap s" using K kmalloc_cases [of n "nheap s"] by auto
    then show ?thesis using R K True by (simp add: with_buf_def)
  next
    case False
    then obtain s1 h1 where F: "f (junk s p) (s\<lparr>nheap := h\<rparr>) = Some (x, s1)" "kfree p (nheap s1) = Some h1" "s' = s1\<lparr>nheap := h1\<rparr>"
      using R K by (auto simp: with_buf_def split: Option.bind_splits)
    have "heap_inv (nheap (s\<lparr>nheap := h\<rparr>))" using kmalloc_inv [OF H K] by simp
    then have "s1 = s\<lparr>nheap := h\<rparr>" using keepsD [OF assms _ F(1)] by blast
    then show ?thesis using F kmalloc_kfree_lib [OF H K False] by simp
  qed
qed

text \<open>A buffer that is allocated is freed: the result is that of the body.\<close>

lemma with_buf_run:
  assumes "heap_inv (nheap s)" "kmalloc n (nheap s) = (h, p)" "p \<noteq> 0" "f (junk s p) (s\<lparr>nheap := h\<rparr>) = Some (x, s\<lparr>nheap := h\<rparr>)"
  shows "with_buf n r f s = Some (x, s)"
  using kmalloc_kfree_lib [OF assms(1-3)] assms by (simp add: with_buf_def)

lemma with_buf_returns:
  assumes "heap_inv (nheap s)" "\<And>b. keeps (f b)" "\<And>b h. heap_inv h \<Longrightarrow> f b (s\<lparr>nheap := h\<rparr>) \<noteq> None"
  shows "with_buf n r f s \<noteq> None"
proof -
  obtain h p where K: "kmalloc n (nheap s) = (h, p)" by fastforce
  show ?thesis
  proof (cases "p = 0")
    case True
    then show ?thesis using K by (simp add: with_buf_def)
  next
    case False
    have H: "heap_inv (nheap (s\<lparr>nheap := h\<rparr>))" using kmalloc_inv [OF assms(1) K] by simp
    then obtain x s1 where F: "f (junk s p) (s\<lparr>nheap := h\<rparr>) = Some (x, s1)" using assms(3) [of h] by fastforce
    then have "s1 = s\<lparr>nheap := h\<rparr>" using keepsD [OF assms(2) H] by blast
    then have "f (junk s p) (s\<lparr>nheap := h\<rparr>) = Some (x, s\<lparr>nheap := h\<rparr>)" using F by (simp only:)
    then have "with_buf n r f s = Some (x, s)" by (rule with_buf_run [OF assms(1) K False])
    then show ?thesis by (simp only: option.distinct not_False_eq_True)
  qed
qed

lemma read_nonresident_keeps: "keeps (ntfs_read_nonresident r a off len)"
proof (rule keepsI)
  fix s x s' assume A: "heap_inv (nheap s)" "ntfs_read_nonresident r a off len s = Some (x, s')"
  have K: "keeps (with_buf n [] (\<lambda>cb s1. do { bs \<leftarrow> read_nonres_loop s1 r a off l 0 cb []; Some (bs, s1) }))" for n l
    by (intro with_buf_keeps keepsI) (auto split: Option.bind_splits)
  show "s' = s" using A keepsD [OF K A(1)]
    by (auto simp: ntfs_read_nonresident_def Let_def split: if_splits)
qed

lemma read_data_attr_keeps: "keeps (ntfs_read_data_attr r off len)"
  by (rule keepsI) (auto simp: ntfs_read_data_attr_def split: Option.bind_splits option.splits if_splits prod.splits
      dest: keepsD [OF read_nonresident_keeps])

lemma read_file_keeps: "keeps (ntfs_read_file rno off hb len)"
proof (rule keepsI)
  fix s x s' assume A: "heap_inv (nheap s)" "ntfs_read_file rno off hb len s = Some (x, s')"
  have K: "keeps (with_buf n [] (\<lambda>b s1. do { (r, ok) \<leftarrow> ntfs_read_mft_record s1 rno b;
      if ok then ntfs_read_data_attr r off len s1 else Some ([], s1) }))" for n
    by (intro with_buf_keeps keepsI)
      (auto split: Option.bind_splits if_splits dest: keepsD [OF read_data_attr_keeps])
  show "s' = s" using A keepsD [OF K A(1)] by (auto simp: ntfs_read_file_def split: if_splits)
qed

lemma index_blocks_same:
  "index_blocks r ia tot irs pos blk acc s = Some y \<Longrightarrow> heap_inv (nheap s) \<longrightarrow> snd y = s"
proof (rule index_blocks.raw_induct [where P = "\<lambda>r ia tot irs pos blk acc s y. heap_inv (nheap s) \<longrightarrow> snd y = s"])
  fix f r ia tot irs pos blk acc s y
  assume ih: "\<And>r ia tot irs pos blk acc s y. f r ia tot irs pos blk acc s = Some y \<Longrightarrow> heap_inv (nheap s) \<longrightarrow> snd y = s"
    and body: "(if pos + ucast irs \<le> tot
      then Option.bind (ntfs_read_nonresident r ia pos irs s) (\<lambda>(bs, s1).
        if length bs \<noteq> unat irs then Some (acc, s1)
        else if \<not> is_magic ''INDX'' (put_list bs blk) 0
        then f r ia tot irs (pos + ucast irs) (put_list bs blk) acc s1
        else (let b0 = put_list bs blk;
                  b1 = fst (ntfs_apply_fixups (bytes_per_sector (s_vol s)) irs (rd16 b0 0x04) (rd16 b0 0x06) b0)
              in f r ia tot irs (pos + ucast irs) b1 (acc @ walk_node b1 0x18 (unat irs)) s1))
      else Some (acc, s)) = Some y"
  show "heap_inv (nheap s) \<longrightarrow> snd y = s"
  proof
    assume H: "heap_inv (nheap s)"
    show "snd y = s"
    proof (cases "pos + ucast irs \<le> tot")
      case False
      then show ?thesis using body by auto
    next
      case True
      then obtain bs s1 where N: "ntfs_read_nonresident r ia pos irs s = Some (bs, s1)"
        using body by (auto simp: True split: Option.bind_splits)
      then have s1: "s1 = s" using keepsD [OF read_nonresident_keeps H] by blast
      show ?thesis using body ih H unfolding N s1 if_P [OF True] by (auto simp: Let_def split: if_splits)
    qed
  qed
qed

lemma list_index_allocation_keeps: "keeps (list_index_allocation r acc)"
proof (rule keepsI)
  fix s x s' assume A: "heap_inv (nheap s)" "list_index_allocation r acc s = Some (x, s')"
  have K: "keeps (with_buf (ucast irs) acc (\<lambda>blk s1. if irs = 0 then Some (acc, s1) else index_blocks r ia tot irs 0 blk acc s1))" for irs :: u32 and ia tot
    by (intro with_buf_keeps keepsI) (auto split: if_splits dest: index_blocks_same)
  show "s' = s" using A keepsD [OF K A(1)]
    by (auto simp: list_index_allocation_def Let_def split: Option.bind_splits option.splits if_splits)
qed

lemma list_dir_keeps: "keeps (ntfs_list_dir dir)"
proof (rule keepsI)
  fix s x s' assume A: "heap_inv (nheap s)" "ntfs_list_dir dir s = Some (x, s')"
  have K: "keeps (with_buf n [] (\<lambda>b s1. do { (r, ok) \<leftarrow> ntfs_read_mft_record s1 dir b;
      if \<not> ok then Some ([], s1) else do { es \<leftarrow> list_index_root r s1; list_index_allocation r es s1 } }))" for n
    by (intro with_buf_keeps keepsI)
      (auto split: Option.bind_splits if_splits dest: keepsD [OF list_index_allocation_keeps])
  show "s' = s" using A keepsD [OF K A(1)] by (auto simp: ntfs_list_dir_def split: if_splits)
qed

lemma read_root_info_keeps: "keeps read_root_info"
  unfolding read_root_info_def
proof (rule keepsI)
  fix s x s' assume A: "heap_inv (nheap s)" "with_buf (ucast (mft_record_size (s_vol s))) root_info
     (\<lambda>b s1. do { (r, ok) \<leftarrow> ntfs_read_mft_record s1 NTFS_MFT_ROOT b;
                  if ok then do { i \<leftarrow> ntfs_fill_info r NTFS_MFT_ROOT s1;
                                  Some (i\<lparr>is_dir := True, fname := [CHR 0x5C]\<rparr>, s1) }
                  else Some (root_info, s1) }) s = Some (x, s')"
  show "s' = s"
    by (rule keepsD [OF with_buf_keeps A]) (auto intro!: keepsI split: Option.bind_splits if_splits)
qed

lemma resolve_loop_keeps: "keeps (resolve_loop n p cur)"
proof (rule keepsI)
  fix s x s' assume "heap_inv (nheap s)" "resolve_loop n p cur s = Some (x, s')"
  then show "s' = s"
  proof (induction n p cur s rule: resolve_loop.induct)
    case (2 n p cur s)
    show ?case
    proof (cases "p = []")
      case False
      obtain c rest where c: "path_comp p = (c, rest)" by fastforce
      show ?thesis
      proof (cases "c = []")
        case True
        then show ?thesis using 2(1) [OF False c [symmetric] True] 2(3,4) False c by auto
      next
        case C: False
        then obtain es s1 where l: "ntfs_list_dir (mft_record cur) s = Some (es, s1)"
          using 2(4) False c by (auto split: option.splits)
        then have "s1 = s" using keepsD [OF list_dir_keeps 2(3)] by blast
        then show ?thesis using 2(2) [OF False c [symmetric] C l refl] 2(3,4) False c C l
          by (auto split: option.splits)
      qed
    qed (use 2 in auto)
  qed auto
qed

lemma resolve_path_keeps: "keeps (ntfs_resolve_path p)"
proof (rule keepsI)
  fix s x s' assume A: "heap_inv (nheap s)" "ntfs_resolve_path p s = Some (x, s')"
  show "s' = s"
  proof (cases "p = None \<or> \<not> mounted (s_vol s)")
    case True
    then show ?thesis using A by (auto simp: ntfs_resolve_path_def split: option.splits)
  next
    case False
    then obtain q root s1 where q: "p = Some q" and r: "read_root_info s = Some (root, s1)"
      and l: "resolve_loop (Suc (length q)) (dropWhile is_slash q) root s1 = Some (x, s')"
      using A(2) unfolding ntfs_resolve_path_def by (auto split: option.splits Option.bind_splits simp del: resolve_loop.simps)
    have "s1 = s" using keepsD [OF read_root_info_keeps A(1) r] .
    then show ?thesis using keepsD [OF resolve_loop_keeps _ l] A(1) by blast
  qed
qed

lemma volume_info_keeps: "keeps ntfs_volume_info"
proof (rule keepsI)
  fix s x s' assume A: "heap_inv (nheap s)" "ntfs_volume_info s = Some (x, s')"
  have K: "keeps (with_buf n ''MEUOS'' (\<lambda>b s1. do { (r, ok) \<leftarrow> ntfs_read_mft_record s1 3 b;
      if ok then do { l \<leftarrow> volume_label r s1; Some (l, s1) } else Some (''MEUOS'', s1) }))" for n
    by (intro with_buf_keeps keepsI) (auto split: Option.bind_splits if_splits)
  show "s' = s" using A keepsD [OF K A(1)]
    by (auto simp: ntfs_volume_info_def Let_def split: if_splits Option.bind_splits)
qed

section \<open>A read returns the bytes of the extents\<close>

text \<open>The geometry the code assumes: sectors of 512 bytes.\<close>

definition geometry_ok :: "NTFS_VOLUME \<Rightarrow> bool" where
  "geometry_ok v \<longleftrightarrow> bytes_per_sector v = 512 \<and> sectors_per_cluster v \<noteq> 0 \<and>
     bytes_per_cluster v = ucast (bytes_per_sector v) * ucast (sectors_per_cluster v)"

definition cluster_byte :: "ntfs_state \<Rightarrow> u64 \<Rightarrow> nat \<Rightarrow> u8" where
  "cluster_byte s lcn j =
     disk s (sector_lba s (lcn * ucast (sectors_per_cluster (s_vol s))) (j div 512)) (j mod 512)"

text \<open>Byte \<open>x\<close> of a file whose extents are \<open>rs\<close>: the byte of the cluster the extent map names, or 0 in a
  hole.\<close>

definition extent_byte :: "ntfs_state \<Rightarrow> run list \<Rightarrow> nat \<Rightarrow> u8" where
  "extent_byte s rs x =
     (case run_lookup rs (x div unat (bytes_per_cluster (s_vol s))) 0 of
        Some (lcn, n, False) \<Rightarrow> cluster_byte s (word_of_int lcn) (x mod unat (bytes_per_cluster (s_vol s)))
      | _ \<Rightarrow> 0)"

lemma read_sectors_loop_bytes:
  assumes "\<forall>l. \<not> bad s l" "bytes_per_sector (s_vol s) = 512"
  shows "snd (read_sectors_loop s vs i n b) \<and>
    (\<forall>x. fst (read_sectors_loop s vs i n b) x =
       (if i * 512 \<le> x \<and> x < (i + n) * 512 then disk s (sector_lba s vs (x div 512)) (x mod 512) else b x))"
proof (induction n arbitrary: i b)
  case (Suc n)
  let ?b = "put_bytes 512 (i * 512) (disk s (sector_lba s vs i)) b"
  have e: "read_sectors_loop s vs i (Suc n) b = read_sectors_loop s vs (Suc i) n ?b"
    using assms by (simp add: Let_def HAL_SECTOR_SIZE_def)
  have here: "x div 512 = i \<and> x mod 512 = x - i * 512" if "i * 512 \<le> x" "x < Suc i * 512" for x
  proof -
    have "x div 512 = i" by (rule div_nat_eqI) (use that in simp_all)
    then show ?thesis by (simp flip: minus_div_mult_eq_mod)
  qed
  have "fst (read_sectors_loop s vs (Suc i) n ?b) x =
       (if i * 512 \<le> x \<and> x < (i + Suc n) * 512 then disk s (sector_lba s vs (x div 512)) (x mod 512) else b x)" for x
    using Suc.IH [of "Suc i" ?b] here [of x] by (auto simp: put_bytes_def)
  then show ?case using Suc.IH [of "Suc i" ?b] unfolding e by blast
qed auto

lemma unat_ucast8: "unat (ucast (x :: u8) :: u32) = unat x"
proof -
  have "unat x < 2 ^ LENGTH(8)" by (rule unsigned_less)
  then have "unat (of_nat (unat x) :: u32) = unat x" by (intro unat_of_nat_small) simp
  then show ?thesis by simp
qed

lemma unat_ucast32: "unat (ucast (x :: u32) :: u64) = unat x"
proof -
  have "unat x < 2 ^ LENGTH(32)" by (rule unsigned_less)
  then have "unat (of_nat (unat x) :: u64) = unat x" by (intro unat_of_nat_small) simp
  then show ?thesis by simp
qed

lemma cluster_size:
  assumes "geometry_ok v"
  shows "unat (bytes_per_cluster v) = 512 * unat (sectors_per_cluster v)" "0 < unat (bytes_per_cluster v)"
proof -
  have m: "unat (sectors_per_cluster v) < 256" using unsigned_less [of "sectors_per_cluster v"] by simp
  note u = unat_ucast8 [of "sectors_per_cluster v"]
  have "unat (512 * ucast (sectors_per_cluster v) :: u32) = 512 * unat (sectors_per_cluster v)"
    using m u by (simp add: unat_word_ariths)
  then show e: "unat (bytes_per_cluster v) = 512 * unat (sectors_per_cluster v)"
    using assms by (simp add: geometry_ok_def)
  show "0 < unat (bytes_per_cluster v)"
    using assms e by (simp add: geometry_ok_def unat_eq_0 flip: neq0_conv)
qed

lemma read_clusters_bytes:
  assumes "\<forall>l. \<not> bad s l" "geometry_ok (s_vol s)"
  obtains cb' where "ntfs_read_clusters s lcn 1 cb = (cb', True)"
    "\<And>j. j < unat (bytes_per_cluster (s_vol s)) \<Longrightarrow> cb' j = cluster_byte s lcn j"
proof
  let ?vs = "lcn * ucast (sectors_per_cluster (s_vol s))"
  let ?n = "unat (1 * ucast (sectors_per_cluster (s_vol s)) :: u32)"
  have b: "bytes_per_sector (s_vol s) = 512" using assms(2) by (simp add: geometry_ok_def)
  note L = read_sectors_loop_bytes [OF assms(1) b, of ?vs 0 ?n cb]
  show "ntfs_read_clusters s lcn 1 cb = (fst (read_sectors_loop s ?vs 0 ?n cb), True)"
    using L unfolding ntfs_read_clusters_def ntfs_read_sectors_def by (simp add: prod_eq_iff)
  have n: "?n = unat (sectors_per_cluster (s_vol s))"
    by (simp only: mult_1 unat_ucast8)
  show "fst (read_sectors_loop s ?vs 0 ?n cb) j = cluster_byte s lcn j" if "j < unat (bytes_per_cluster (s_vol s))" for j
    using L that cluster_size(1) [OF assms(2)] unfolding n cluster_byte_def by simp
qed

lemma extent_byte_run:
  assumes "run_lookup rs (x div unat (bytes_per_cluster (s_vol s))) 0 = Some (lcn, n, h)"
    "x mod unat (bytes_per_cluster (s_vol s)) + i < unat (bytes_per_cluster (s_vol s))"
  shows "extent_byte s rs (x + i) =
    (if h then 0 else cluster_byte s (word_of_int lcn) (x mod unat (bytes_per_cluster (s_vol s)) + i))"
proof -
  let ?c = "unat (bytes_per_cluster (s_vol s))"
  have e: "x + i = (x mod ?c + i) + x div ?c * ?c" by simp
  have "(x + i) div ?c = x div ?c" "(x + i) mod ?c = x mod ?c + i"
    using assms(2) by (subst e, simp only: div_mult_self1 mod_mult_self1, simp)+
  then show ?thesis using assms(1) by (simp add: extent_byte_def)
qed

lemma map_upt_split:
  "a \<le> b \<Longrightarrow> b \<le> c \<Longrightarrow> map f [a..<b] @ map f [b..<c] = map f [a..<c]" for a b c :: nat
  by (metis map_append upt_add_eq_append le_add_diff_inverse)

lemma map_upt_shift: "map (\<lambda>i. f (d + i)) [0..<k] = map f [d..<d + k]" for d k :: nat
  by (rule nth_equalityI) simp_all

lemma read_nonres_loop_bytes:
  assumes disk: "\<forall>l. \<not> bad s l" "geometry_ok (s_vol s)"
    and runs: "runs_at r (unat a + unat (rd16 r (unat a + 0x20))) rs (unat a + unat (rd32 r (unat a + 4)))" "run_clusters rs < 2 ^ 64"
    and inside: "unat off + len \<le> unat (bytes_per_cluster (s_vol s)) * run_clusters rs" "unat off + len < 2 ^ 64"
  shows "dn \<le> len \<Longrightarrow> read_nonres_loop s r a off len dn cb acc =
    Some (acc @ map (\<lambda>i. extent_byte s rs (unat off + i)) [dn..<len])"
proof (induction "len - dn" arbitrary: dn cb acc rule: less_induct)
  case less
  show ?case
  proof (cases "dn < len")
    case True
    define c where "c = unat (bytes_per_cluster (s_vol s))"
    define p where "p = off + of_nat dn"
    define x where "x = unat off + dn"
    define k where "k = min (c - x mod c) (len - dn)"
    have c0: "0 < c" using cluster_size(2) [OF disk(2)] by (simp add: c_def)
    have p: "unat p = x"
      using inside(2) True unat_of_nat_small [of x, where 'a = 64] by (simp add: p_def x_def)
    define v where "v = p div ucast (bytes_per_cluster (s_vol s))"
    have v: "unat v = x div c" by (simp only: v_def unat_div p unat_ucast32 c_def)
    have "x < run_clusters rs * c" using inside(1) True by (simp add: x_def c_def mult.commute)
    then have "x div c < run_clusters rs" by (rule less_mult_imp_div_less)
    then obtain lcn n h where lk: "run_lookup rs (x div c) 0 = Some (lcn, n, h)"
      using run_lookup_mapped [of rs "x div c" 0] by auto
    have run: "ntfs_run_for_vcn r a v = Some (Some (word_of_int lcn, of_nat n, h))"
      by (simp add: run_for_vcn_lookup [OF runs] v lk)
    have k: "0 < k" "dn + k \<le> len" "x mod c + k \<le> c"
      using True mod_less_divisor [OF c0, of x] by (simp_all add: k_def)
    have byte: "extent_byte s rs (x + i) = (if h then 0 else cluster_byte s (word_of_int lcn) (x mod c + i))" if "i < k" for i
      using extent_byte_run [of rs x s lcn n h i] lk that k(3) by (simp add: c_def)
    have part: "map (\<lambda>i. extent_byte s rs (x + i)) [0..<k] = map (\<lambda>i. extent_byte s rs (unat off + i)) [dn..<dn + k]"
      using map_upt_shift [of "\<lambda>i. extent_byte s rs (unat off + i)" dn k] by (simp add: x_def add.assoc)
    have rec: "read_nonres_loop s r a off len (dn + k) cb' (acc @ map (\<lambda>i. extent_byte s rs (x + i)) [0..<k]) =
        Some (acc @ map (\<lambda>i. extent_byte s rs (unat off + i)) [dn..<len])" for cb'
      using less.hyps [of "dn + k"] k True map_upt_split [of dn "dn + k" len] by (simp add: part)
    obtain cb' where cb': "ntfs_read_clusters s (word_of_int lcn) 1 cb = (cb', True)" "\<And>j. j < c \<Longrightarrow> cb' j = cluster_byte s (word_of_int lcn) j"
      using read_clusters_bytes [OF disk, of "word_of_int lcn" cb] unfolding c_def by metis
    have "read_nonres_loop s r a off len dn cb acc = (if h
        then read_nonres_loop s r a off len (dn + k) cb (acc @ replicate k 0)
        else read_nonres_loop s r a off len (dn + k) cb' (acc @ map (\<lambda>i. cb' (x mod c + i)) [0..<k]))"
      using True c0 run cb'(1)
      by (subst read_nonres_loop.simps) (simp add: Let_def p_def [symmetric] v_def [symmetric] p c_def [symmetric] k_def)
    moreover have "replicate k 0 = map (\<lambda>i. extent_byte s rs (x + i)) [0..<k]" if h
      using byte that by (intro nth_equalityI) simp_all
    moreover have "map (\<lambda>i. cb' (x mod c + i)) [0..<k] = map (\<lambda>i. extent_byte s rs (x + i)) [0..<k]" if "\<not> h"
      using byte cb'(2) that k(3) by (intro nth_equalityI) simp_all
    ultimately show ?thesis using rec by (cases h) simp_all
  next
    case False
    then show ?thesis using less.prems by (subst read_nonres_loop.simps) simp
  qed
qed

text \<open>C15: Reading a non-resident file returns its bytes: on a volume with sound geometry and a disk without
  failing sectors, for an attribute whose runs cover its size, \<open>ntfs_read_nonresident\<close> returns the bytes of the
  extents from the offset on (zeros in holes), as many as asked for but none past the end of the
  file, and leaves the state, the heap included, as it was.\<close>
theorem read_nonresident_bytes:
  assumes "\<forall>l. \<not> bad s l" "geometry_ok (s_vol s)"
    "runs_at r (unat a + unat (rd16 r (unat a + 0x20))) rs (unat a + unat (rd32 r (unat a + 4)))" "run_clusters rs < 2 ^ 64"
    "unat (attr_nonresident_size r a) \<le> unat (bytes_per_cluster (s_vol s)) * run_clusters rs"
    "unat off + unat len < 2 ^ 64"
    "heap_inv (nheap s)" "snd (kmalloc (ucast (bytes_per_cluster (s_vol s))) (nheap s)) \<noteq> 0"
  shows "ntfs_read_nonresident r a off len s =
    Some (map (\<lambda>i. extent_byte s rs (unat off + i)) [0..<min (unat len) (unat (attr_nonresident_size r a) - unat off)], s)"
proof (cases "off \<ge> attr_nonresident_size r a")
  case True
  then show ?thesis by (simp add: ntfs_read_nonresident_def word_le_nat_alt)
next
  case False
  let ?real = "attr_nonresident_size r a"
  define n where "n = (if off + ucast len > ?real then ucast (?real - off) else len)"
  have lt: "unat off < unat ?real" using False by (simp add: word_le_nat_alt)
  have sum: "unat (off + ucast len) = unat off + unat len"
    using assms(6) unat_ucast32 [of len] unat_of_nat_small [of "unat off + unat len", where 'a = 64] by simp
  have sub: "unat (?real - off) = unat ?real - unat off" using False by (intro unat_sub) simp
  have n: "unat n = min (unat len) (unat ?real - unat off)"
  proof (cases "off + ucast len > ?real")
    case True
    have lt32: "unat ?real - unat off < unat len" using True sum lt by (simp add: word_less_nat_alt)
    moreover have "unat len < 2 ^ LENGTH(32)" by (rule unsigned_less)
    ultimately have "unat ?real - unat off < 2 ^ LENGTH(32)" by linarith
    then have "unat (of_nat (unat ?real - unat off) :: u32) = unat ?real - unat off" by (rule unat_of_nat_small)
    moreover have "(ucast (?real - off) :: u32) = of_nat (unat ?real - unat off)"
      by (simp add: sub [symmetric] of_nat_unat)
    ultimately show ?thesis using True lt32 by (simp add: n_def)
  next
    case False
    then show ?thesis using sum by (simp add: n_def word_less_nat_alt)
  qed
  obtain h p where K: "kmalloc (ucast (bytes_per_cluster (s_vol s))) (nheap s) = (h, p)" "p \<noteq> 0"
    using assms(8) by (cases "kmalloc (ucast (bytes_per_cluster (s_vol s))) (nheap s)") simp
  let ?s = "s\<lparr>nheap := h\<rparr>"
  have "cluster_byte ?s = cluster_byte s" by (intro ext) (simp add: cluster_byte_def sector_lba_def)
  then have ext: "extent_byte ?s rs = extent_byte s rs" 
    by (intro ext) (simp add: extent_byte_def split: option.splits bool.splits)
  have "read_nonres_loop ?s r a off (unat n) 0 (junk s p) [] =
      Some ([] @ map (\<lambda>i. extent_byte ?s rs (unat off + i)) [0..<unat n])"
  proof (rule read_nonres_loop_bytes)
    have le: "unat off + unat n \<le> unat ?real" "unat n \<le> unat len" using n lt by simp_all
    then show "unat off + unat n \<le> unat (bytes_per_cluster (s_vol ?s)) * run_clusters rs" using assms(5) by simp
    show "unat off + unat n < 2 ^ 64" using le assms(6) by linarith
  qed (use assms in simp_all)
  then have body: "(do { bs \<leftarrow> read_nonres_loop ?s r a off (unat n) 0 (junk s p) []; Some (bs, ?s) }) =
      Some (map (\<lambda>i. extent_byte s rs (unat off + i)) [0..<unat n], ?s)" by (simp add: ext)
  have "with_buf (ucast (bytes_per_cluster (s_vol s))) []
      (\<lambda>cb s1. do { bs \<leftarrow> read_nonres_loop s1 r a off (unat n) 0 cb []; Some (bs, s1) }) s =
      Some (map (\<lambda>i. extent_byte s rs (unat off + i)) [0..<unat n], s)"
    by (rule with_buf_run [OF assms(7) K]) (rule body)
  then show ?thesis using False by (simp add: ntfs_read_nonresident_def n_def [symmetric] n)
qed

definition demo_vol :: NTFS_VOLUME where
  "demo_vol = vol_zero\<lparr>mounted := True, bytes_per_sector := 512, sectors_per_cluster := 1, bytes_per_cluster := 512,
     mft_record_size := 1024, index_record_size := 1024\<rparr>"

definition demo_ntfs :: "(u32 \<Rightarrow> nat \<Rightarrow> u8) \<Rightarrow> ntfs_state" where
  "demo_ntfs d = \<lparr>s_vol = demo_vol, disk = d, bad = (\<lambda>_. False), nheap = heap_init, junk = (\<lambda>_ _. 0)\<rparr>"

definition demo_file :: buf where "demo_file = runs_rec(0x30 := 0, 0x31 := 2)"

theorem read_nonresident_bytes_witness:
  "ntfs_read_nonresident demo_file 0 510 4 (demo_ntfs (\<lambda>l i. ucast l + of_nat i)) =
     Some ([30, 31], demo_ntfs (\<lambda>l i. ucast l + of_nat i))"
proof -
  let ?s = "demo_ntfs (\<lambda>l i. ucast l + of_nat i)"
  let ?rs = "[(1, 4, 1, 32), (1, 2, 0, 0), (1, 3, 1, -16)] :: run list"
  have s: "s_vol ?s = demo_vol" "nheap ?s = heap_init" "\<forall>l. \<not> bad ?s l" by (simp_all add: demo_ntfs_def)
  have v: "bytes_per_cluster demo_vol = 512" "geometry_ok demo_vol" by (simp_all add: demo_vol_def geometry_ok_def)
  have at: "runs_at demo_file 0x40 ?rs 0x48"
    by (simp add: demo_file_def runs_rec_def rd_le_def rd_signed_def mask_eq_exp_minus_1)
  have f: "unat (0 :: u32) + unat (rd16 demo_file (unat (0 :: u32) + 0x20)) = 0x40"
    "unat (0 :: u32) + unat (rd32 demo_file (unat (0 :: u32) + 4)) = 0x48"
    "attr_nonresident_size demo_file 0 = 512"
    by (simp_all add: rd16_def rd32_def rd64_def demo_file_def runs_rec_def attr_nonresident_size_def)
  have kz: "snd (kmalloc 512 heap_init) \<noteq> 0" by (simp add: kmalloc_def heap_init_def heap_consts align16_unat)
  have "ntfs_read_nonresident demo_file 0 510 4 ?s =
      Some (map (\<lambda>i. extent_byte ?s ?rs (unat (510 :: u64) + i)) [0..<min (unat (4 :: u32)) (unat (attr_nonresident_size demo_file 0) - unat (510 :: u64))], ?s)"
  proof (rule read_nonresident_bytes)
    show "runs_at demo_file (unat (0 :: u32) + unat (rd16 demo_file (unat (0 :: u32) + 0x20))) ?rs
        (unat (0 :: u32) + unat (rd32 demo_file (unat (0 :: u32) + 4)))" using at by (simp only: f)
  qed (simp_all add: s v f kz heap_init_inv)
  moreover have "[0..<min (unat (4 :: u32)) (unat (attr_nonresident_size demo_file 0) - unat (510 :: u64))] = [0, 1]"
    by (simp add: f upt_rec)
  moreover have "extent_byte ?s ?rs 510 = 30" "extent_byte ?s ?rs 511 = 31"
    by (simp_all add: extent_byte_def s v cluster_byte_def sector_lba_def) (simp_all add: demo_ntfs_def demo_vol_def vol_zero_def)
  ultimately show ?thesis by simp
qed

section \<open>Resolving a path walks its components\<close>

text \<open>The reference: a path is split at the slashes, empty components are dropped, and each component is
  looked up in the directory found so far.\<close>

fun split_slash :: "string \<Rightarrow> string list" where
  "split_slash [] = [[]]"
| "split_slash (c # cs) = (if is_slash c then [] # split_slash cs
     else (case split_slash cs of [] \<Rightarrow> [[c]] | w # ws \<Rightarrow> (c # w) # ws))"

definition path_components :: "string \<Rightarrow> string list" where
  "path_components p = filter (\<lambda>w. w \<noteq> []) (split_slash p)"

fun walk :: "(u64 \<Rightarrow> NTFS_FILE_INFO list) \<Rightarrow> string list \<Rightarrow> NTFS_FILE_INFO \<Rightarrow> NTFS_FILE_INFO option" where
  "walk L [] cur = Some cur"
| "walk L (c # cs) cur = (case find_cb c (L (mft_record cur)) of None \<Rightarrow> None | Some hit \<Rightarrow> walk L cs hit)"

definition listing :: "ntfs_state \<Rightarrow> u64 \<Rightarrow> NTFS_FILE_INFO list" where
  "listing s d = (case ntfs_list_dir d s of Some (es, _) \<Rightarrow> es | None \<Rightarrow> [])"

lemma split_slash_ne [simp]: "split_slash p \<noteq> []"
  by (induction p) (auto split: list.splits)

lemma split_slash_word:
  "\<forall>c \<in> set w. \<not> is_slash c \<Longrightarrow> split_slash (w @ p) = (w @ hd (split_slash p)) # tl (split_slash p)"
  by (induction w) auto

lemma path_components_slash: "is_slash c \<Longrightarrow> path_components (c # p) = path_components p"
  by (simp add: path_components_def)

lemma path_components_skip: "path_components (dropWhile is_slash p) = path_components p"
  by (induction p) (simp_all add: path_components_slash)

lemma split_slash_head: "q = [] \<or> is_slash (hd q) \<Longrightarrow> hd (split_slash q) = []"
  by (cases q) auto

lemma path_components_word:
  assumes "p \<noteq> []" "\<not> is_slash (hd p)"
  defines "w \<equiv> takeWhile (\<lambda>c. \<not> is_slash c) p"
  shows "path_components p = w # path_components (dropWhile is_slash (drop (length w) p))"
proof -
  let ?q = "dropWhile (\<lambda>c. \<not> is_slash c) p"
  have q: "drop (length w) p = ?q" by (simp add: w_def dropWhile_eq_drop)
  have w: "w \<noteq> []" using assms by (cases p) auto
  have "p = w @ ?q" by (simp add: w_def)
  moreover have ns: "\<forall>c \<in> set w. \<not> is_slash c" using set_takeWhileD unfolding w_def by fast
  ultimately have s: "split_slash p = (w @ hd (split_slash ?q)) # tl (split_slash ?q)" by (metis split_slash_word)
  have "?q = [] \<or> is_slash (hd ?q)" using hd_dropWhile by blast
  then have h: "hd (split_slash ?q) = []" by (rule split_slash_head)
  then have "filter (\<lambda>w. w \<noteq> []) (tl (split_slash ?q)) = filter (\<lambda>w. w \<noteq> []) (split_slash ?q)"
    by (cases "split_slash ?q") auto
  then show ?thesis using w h by (simp add: path_components_def s q path_components_skip [unfolded path_components_def])
qed

lemma path_components_take:
  "p \<noteq> [] \<Longrightarrow> \<not> is_slash (hd p) \<Longrightarrow> \<forall>c \<in> set (path_components p). length c \<le> NTFS_MAX_NAME \<Longrightarrow>
   \<exists>w rest. path_comp p = (w, rest) \<and> w \<noteq> [] \<and> path_components p = w # path_components rest \<and>
     length rest < length p \<and> (rest = [] \<or> \<not> is_slash (hd rest))"
proof -
  assume a: "p \<noteq> []" "\<not> is_slash (hd p)" "\<forall>c \<in> set (path_components p). length c \<le> NTFS_MAX_NAME"
  define w where "w = takeWhile (\<lambda>c. \<not> is_slash c) p"
  define rest where "rest = dropWhile is_slash (drop (length w) p)"
  have pc: "path_components p = w # path_components rest"
    using path_components_word [OF a(1,2)] by (simp add: w_def rest_def)
  then have "take NTFS_MAX_NAME w = w" using a(3) by simp
  then have "path_comp p = (w, rest)" by (simp add: path_comp_def w_def [symmetric] rest_def)
  moreover have w: "w \<noteq> []" using a by (cases p) (auto simp: w_def)
  moreover have "length rest \<le> length (drop (length w) p)" unfolding rest_def by (rule length_dropWhile_le)
  then have "length rest < length p" using w a(1) by (cases w; cases p) auto
  moreover have "rest = [] \<or> \<not> is_slash (hd rest)" using hd_dropWhile [of is_slash] unfolding rest_def by blast
  ultimately show ?thesis using pc by blast
qed

lemma resolve_loop_walks:
  assumes H: "heap_inv (nheap s)" and L: "\<forall>d. ntfs_list_dir d s \<noteq> None"
  shows "p = [] \<or> \<not> is_slash (hd p) \<Longrightarrow> length p < n \<Longrightarrow> \<forall>c \<in> set (path_components p). length c \<le> NTFS_MAX_NAME \<Longrightarrow>
    resolve_loop n p cur s = Some (walk (listing s) (path_components p) cur, s)"
proof (induction n arbitrary: p cur)
  case (Suc n)
  show ?case
  proof (cases "p = []")
    case True
    then show ?thesis by (simp add: path_components_def)
  next
    case False
    then obtain w rest where w: "path_comp p = (w, rest)" "w \<noteq> []" "path_components p = w # path_components rest"
      "length rest < length p" "rest = [] \<or> \<not> is_slash (hd rest)"
      using path_components_take [of p] Suc.prems by auto
    obtain es s1 where l: "ntfs_list_dir (mft_record cur) s = Some (es, s1)" using L by fastforce
    have s1: "s1 = s" using keepsD [OF list_dir_keeps H l] .
    have IH: "resolve_loop n rest hit s = Some (walk (listing s) (path_components rest) hit, s)" for hit
      using Suc.prems w by (intro Suc.IH) auto
    have es: "listing s (mft_record cur) = es" using l by (simp add: listing_def)
    show ?thesis using False w(1,2) l s1 IH by (simp add: w(3) es split: option.splits)
  qed
qed simp

text \<open>C16: Resolving a path terminates and walks its components: on a mounted volume whose directories can be
  listed, for a path whose components fit the component buffer, \<open>ntfs_resolve_path\<close> returns exactly the
  entry the reference finds by looking up the non-empty components one after the other from the root,
  whatever slashes separate them, or fails where the reference does; the state is left as it was.\<close>
theorem resolve_path_walks:
  assumes "mounted (s_vol s)" "heap_inv (nheap s)" "\<forall>d. ntfs_list_dir d s \<noteq> None"
    "read_root_info s = Some (root, s')" "\<forall>c \<in> set (path_components p). length c \<le> NTFS_MAX_NAME"
  shows "ntfs_resolve_path (Some p) s = Some (walk (listing s) (path_components p) root, s)"
proof -
  let ?q = "dropWhile is_slash p"
  have r: "read_root_info s = Some (root, s)" using assms(4) keepsD [OF read_root_info_keeps assms(2)] by blast
  have "resolve_loop (Suc (length p)) ?q root s = Some (walk (listing s) (path_components ?q) root, s)"
  proof (rule resolve_loop_walks [OF assms(2,3)])
    show "?q = [] \<or> \<not> is_slash (hd ?q)" using hd_dropWhile by blast
    show "length ?q < Suc (length p)" using length_dropWhile_le [of is_slash p] by simp
  qed (simp add: path_components_skip assms(5))
  then show ?thesis using assms(1) r
    by (simp add: ntfs_resolve_path_def path_components_skip del: resolve_loop.simps)
qed

definition demo_dir :: buf where
  "demo_dir = (\<lambda>_. 0)(0 := 0x46, 1 := 0x49, 2 := 0x4C, 3 := 0x45, 0x14 := 0x38, 0x19 := 2,
     0x38 := 0x90, 0x3C := 0xA0, 0x48 := 0x80, 0x4C := 0x20, 0x68 := 0x10, 0x6C := 0x70,
     0x78 := 0x40, 0x80 := 0x58, 0x82 := 0x44, 0xB8 := 7, 0xC8 := 1, 0xC9 := 1, 0xCA := 0x41,
     0xD8 := 0xFF, 0xD9 := 0xFF, 0xDA := 0xFF, 0xDB := 0xFF)"

definition demo_state :: ntfs_state where
  "demo_state = demo_ntfs (\<lambda>l. if l = 10 then demo_dir else (\<lambda>_. 0))"

definition demo_lba :: "u64 \<Rightarrow> u32" where "demo_lba d = ucast (d * 1024 div 512)"

lemma demo_fields [simp]:
  "s_vol (demo_state\<lparr>nheap := h\<rparr>) = demo_vol" "s_vol demo_state = demo_vol" "bytes_per_sector demo_vol = 512"
  "mft_record_size demo_vol = 1024" "part_lba demo_vol = 0" "mft_data_lcn demo_vol = 0" "mounted demo_vol"
  "nheap demo_state = heap_init" "junk demo_state p = (\<lambda>_. 0)"
  by (simp_all add: demo_state_def demo_ntfs_def demo_vol_def vol_zero_def)

lemma take_bit_Suc_mod: "take_bit n (take_bit m x + 1) = take_bit n (x + 1)" if "n \<le> m" for x :: int
proof -
  have "take_bit n (take_bit m x + 1) = take_bit n (take_bit n (take_bit m x) + take_bit n 1)" by (simp only: take_bit_add)
  also have "\<dots> = take_bit n (x + 1)" using that by (simp only: take_bit_take_bit min_def if_True take_bit_add)
  finally show ?thesis .
qed

lemma ucast_down_Suc: "(ucast (x + 1 :: u64) :: u32) = ucast x + 1"
  by transfer (simp add: take_bit_Suc_mod)

lemma demo_read:
  "\<exists>b. ntfs_read_mft_record (demo_state\<lparr>nheap := h\<rparr>) d (\<lambda>_. 0) = Some (b, demo_lba d = 10) \<and>
     (demo_lba d = 10 \<longrightarrow> b = demo_dir)"
proof -
  let ?s = "demo_state\<lparr>nheap := h\<rparr>"
  have rs: "record_sector ?s d = d * 1024 div 512" "record_sectors ?s = 2"
    by (simp_all add: record_sector_def record_sectors_def)
  have bad: "\<not> bad demo_state l" and dk: "disk demo_state l = (if l = 10 then demo_dir else (\<lambda>_. 0))" for l
    by (simp_all add: demo_state_def demo_ntfs_def)
  have lba: "sector_lba ?s (record_sector ?s d) 0 = demo_lba d" by (simp add: sector_lba_def rs demo_lba_def)
  let ?l1 = "sector_lba ?s (record_sector ?s d) 1"
  have hi: "demo_dir x = 0" if "512 \<le> x" for x using that by (simp add: demo_dir_def)
  have ne: "?l1 \<noteq> 10" if "demo_lba d = 10" using that by (simp add: sector_lba_def rs demo_lba_def ucast_down_Suc)
  have two: "(2 :: nat) = Suc (Suc 0)" "(1 :: nat) = Suc 0" by simp_all
  have "read_sectors_loop ?s (record_sector ?s d) 0 2 (\<lambda>_. 0) =
      (put_bytes 512 512 (disk ?s ?l1) (put_bytes 512 0 (disk ?s (demo_lba d)) (\<lambda>_. 0)), True)"
    by (simp only: two read_sectors_loop.simps Let_def lba HAL_SECTOR_SIZE_def) (simp add: bad)
  then have r: "ntfs_read_sectors ?s (record_sector ?s d) (record_sectors ?s) (\<lambda>_. 0) =
      (put_bytes 512 512 (disk ?s ?l1) (put_bytes 512 0 (disk ?s (demo_lba d)) (\<lambda>_. 0)), True)"
    by (simp add: ntfs_read_sectors_def rs)
  show ?thesis
  proof (cases "demo_lba d = 10")
    case True
    have "put_bytes 512 512 (disk ?s ?l1) (put_bytes 512 0 (disk ?s (demo_lba d)) (\<lambda>_. 0)) = demo_dir"
      using True ne hi by (auto simp: put_bytes_def dk fun_eq_iff)
    moreover have "is_magic ''FILE'' demo_dir 0"
      by (auto simp: is_magic_def demo_dir_def less_Suc_eq numeral_eq_Suc)
    ultimately show ?thesis using True r
      by (simp add: ntfs_read_mft_record_def ntfs_apply_fixups_def rd16_def demo_dir_def)
  next
    case False
    have "put_bytes 512 512 (disk ?s ?l1) (put_bytes 512 0 (disk ?s (demo_lba d)) (\<lambda>_. 0)) 0 = 0"
      using False by (simp add: put_bytes_def dk)
    then have "\<not> is_magic ''FILE'' (put_bytes 512 512 (disk ?s ?l1) (put_bytes 512 0 (disk ?s (demo_lba d)) (\<lambda>_. 0))) 0"
      by (auto simp: is_magic_def intro!: exI [of _ 0])
    then show ?thesis using False r by (simp add: ntfs_read_mft_record_def)
  qed
qed

lemma char_65: "char_of (65 :: nat) = CHR ''A''"
  by code_simp

lemma char_97: "char_of (97 :: nat) = CHR ''a''"
  by code_simp

lemma demo_attr:
  "ntfs_find_attr 1024 demo_dir ty 0 i30 = Some (if ty = 0x90 \<and> \<not> i30 then Some 0x38 else None)" if "ty \<noteq> ATTR_END"
proof -
  have f: "rd16 demo_dir 0x14 = 0x38" "rd32 demo_dir 0x18 = 0x200" "rd32 demo_dir 0x38 = 0x90" "rd32 demo_dir 0x3C = 0xA0"
    "rd32 demo_dir 0xD8 = ATTR_END" "\<not> name_is_i30 1024 demo_dir 0x38"
    by (simp_all add: rd16_def rd32_def demo_dir_def ATTR_END_def name_is_i30_def)
  have e: "find_attr_loop 1024 demo_dir 0x200 ty 0 i30 0xD8 n = Some None" for n
    by (subst find_attr_loop.simps) (simp add: f)
  show ?thesis
    by (subst ntfs_find_attr_def, subst find_attr_loop.simps) (auto simp add: f e Let_def ATTR_END_def)
qed

definition demo_entry :: NTFS_FILE_INFO where
  "demo_entry = \<lparr>mft_record = 64, is_dir = False, fsize = 7, fname = ''A''\<rparr>"

lemma demo_root: "list_index_root demo_dir (demo_state\<lparr>nheap := h\<rparr>) = Some [demo_entry]"
proof -
  have f: "rd16 demo_dir 0x80 = 0x58" "rd16 demo_dir 0x82 = 0x44" "rd16 demo_dir 0x84 = 0" "rd64 demo_dir 0x78 = 64"
    "rd32 demo_dir 0xC0 = 0" "rd64 demo_dir 0xB8 = 7" "rd16 demo_dir 0xCA = 0x41" "rd32 demo_dir 0x68 = 0x10" "rd32 demo_dir 0x6C = 0x70"
    "rd16 demo_dir 0x4C = 0x20" "rd32 demo_dir 0x48 = 0x80" "demo_dir 0xC8 = 1" "demo_dir 0xC9 = 1" "demo_dir 0x40 = 0"
    by (simp_all add: rd16_def rd32_def rd64_def demo_dir_def)
  have nm: "utf16_to_ascii demo_dir 0xCA (Suc 0) 256 = ''A''"
    by (simp add: utf16_to_ascii_def f utf16_char_def char_65)
  have ie: "index_entry demo_dir 0x78 0xD8 = [demo_entry]"
    by (simp add: index_entry_def Let_def f nm NTFS_MAX_NAME_def demo_entry_def FILE_ATTR_DIRECTORY_def)
  have w: "ntfs_walk_index_entries demo_dir 0x78 0xD8 = [demo_entry]"
    by (subst ntfs_walk_index_entries.simps, subst ntfs_walk_index_entries.simps)
      (simp add: f ie INDEX_ENTRY_END_def)
  show ?thesis
    by (simp add: list_index_root_def first_attr_def demo_attr ATTR_INDEX_ROOT_def ATTR_END_def attr_is_nonresident_def
        attr_resident_data_def walk_node_def f w)
qed

lemma demo_list: "ntfs_list_dir d demo_state = Some (if demo_lba d = 10 then [demo_entry] else [], demo_state)"
proof -
  have K: "snd (kmalloc 1024 heap_init) \<noteq> 0" by (simp add: kmalloc_def heap_init_def heap_consts align16_unat)
  obtain h p where hp: "kmalloc 1024 heap_init = (h, p)" "p \<noteq> 0" using K by (cases "kmalloc 1024 heap_init") simp
  obtain b where b: "ntfs_read_mft_record (demo_state\<lparr>nheap := h\<rparr>) d (\<lambda>_. 0) = Some (b, demo_lba d = 10)"
    "demo_lba d = 10 \<Longrightarrow> b = demo_dir" using demo_read by blast
  have "list_index_allocation demo_dir es (demo_state\<lparr>nheap := h\<rparr>) = Some (es, demo_state\<lparr>nheap := h\<rparr>)" for es
    by (simp add: list_index_allocation_def first_attr_def demo_attr ATTR_INDEX_ALLOCATION_def ATTR_END_def)
  then have "(do { (r, ok) \<leftarrow> ntfs_read_mft_record (demo_state\<lparr>nheap := h\<rparr>) d (junk demo_state p);
      if \<not> ok then Some ([], demo_state\<lparr>nheap := h\<rparr>)
      else do { es \<leftarrow> list_index_root r (demo_state\<lparr>nheap := h\<rparr>); list_index_allocation r es (demo_state\<lparr>nheap := h\<rparr>) } }) =
    Some (if demo_lba d = 10 then [demo_entry] else [], demo_state\<lparr>nheap := h\<rparr>)"
    using b by (cases "demo_lba d = 10") (simp_all add: demo_root)
  note B = this [folded demo_fields(9)]
  have "with_buf (ucast (mft_record_size (s_vol demo_state))) []
        (\<lambda>b s1. do { (r, ok) \<leftarrow> ntfs_read_mft_record s1 d b;
                     if \<not> ok then Some ([], s1)
                     else do { es \<leftarrow> list_index_root r s1; list_index_allocation r es s1 } }) demo_state =
      Some (if demo_lba d = 10 then [demo_entry] else [], demo_state)"
    by (rule with_buf_run [where h = h and p = p]) (use hp B in \<open>simp_all add: heap_init_inv\<close>)
  then show ?thesis by (simp only: ntfs_list_dir_def demo_fields not_True_eq_False if_False)
qed

lemma demo_root_info: "read_root_info demo_state = Some (root_info, demo_state)"
proof -
  have K: "snd (kmalloc 1024 heap_init) \<noteq> 0" by (simp add: kmalloc_def heap_init_def heap_consts align16_unat)
  obtain h p where hp: "kmalloc 1024 heap_init = (h, p)" "p \<noteq> 0" using K by (cases "kmalloc 1024 heap_init") simp
  have "demo_lba 5 = 10" by (simp add: demo_lba_def)
  then have b: "ntfs_read_mft_record (demo_state\<lparr>nheap := h\<rparr>) 5 (\<lambda>_. 0) = Some (demo_dir, True)"
    using demo_read [of h 5] by auto
  have at: "find_attr (demo_state\<lparr>nheap := h\<rparr>) demo_dir ATTR_FILE_NAME 0 False = Some None"
    "find_attr (demo_state\<lparr>nheap := h\<rparr>) demo_dir ATTR_DATA 0 False = Some None"
    by (simp_all add: demo_attr ATTR_FILE_NAME_def ATTR_DATA_def ATTR_END_def)
  have "ntfs_fill_info demo_dir 5 (demo_state\<lparr>nheap := h\<rparr>) = Some \<lparr>mft_record = 5, is_dir = False, fsize = 0, fname = []\<rparr>"
    using at by (simp add: ntfs_fill_info_def numeral_eq_Suc) (simp add: rd16_def demo_dir_def MFT_FLAG_DIRECTORY_def)
  then show ?thesis unfolding read_root_info_def
    by (intro with_buf_run [where h = h and p = p]) (use hp b in \<open>simp_all add: heap_init_inv NTFS_MFT_ROOT_def root_info_def\<close>)
qed

theorem resolve_path_walks_witness:
  "ntfs_resolve_path (Some ''//a'') demo_state = Some (Some demo_entry, demo_state)"
proof -
  have pc: "path_components ''//a'' = [''a'']" by (simp add: path_components_def is_slash_def)
  have "ntfs_resolve_path (Some ''//a'') demo_state =
      Some (walk (listing demo_state) (path_components ''//a'') root_info, demo_state)"
    by (rule resolve_path_walks)
      (simp_all add: heap_init_inv demo_list demo_root_info pc NTFS_MAX_NAME_def)
  moreover have "listing demo_state (mft_record root_info) = [demo_entry]"
    by (simp add: listing_def demo_list root_info_def NTFS_MFT_ROOT_def demo_lba_def)
  moreover have "find_cb ''a'' [demo_entry] = Some demo_entry"
    by (simp add: find_cb_def demo_entry_def nieq_def lower_def char_97)
  ultimately show ?thesis by (simp add: pc)
qed

section \<open>Small sectors overflow the buffer\<close>

lemma read_sectors_loop_last:
  assumes "\<forall>l. \<not> bad s l"
  shows "fst (read_sectors_loop s vs i (Suc n) b) ((i + n) * unat (bytes_per_sector (s_vol s)) + 511) =
    disk s (sector_lba s vs (i + n)) 511"
proof (induction n arbitrary: i b)
  case 0
  then show ?case using assms by (simp add: Let_def HAL_SECTOR_SIZE_def put_bytes_def)
next
  case (Suc n)
  have "read_sectors_loop s vs i (Suc (Suc n)) b = read_sectors_loop s vs (Suc i) (Suc n)
      (put_bytes HAL_SECTOR_SIZE (i * unat (bytes_per_sector (s_vol s))) (disk s (sector_lba s vs i)) b)"
    by (subst read_sectors_loop.simps(2)) (use assms in \<open>simp add: Let_def\<close>)
  then show ?case using Suc.IH [of "Suc i"] by (simp del: read_sectors_loop.simps)
qed

text \<open>The sector size of the boot sector is not checked, and a transfer is always 512 bytes: with smaller
  sectors a read of \<open>cnt\<close> sectors into a buffer of \<open>cnt * bytes_per_sector\<close> bytes writes the end of the last
  sector behind the buffer, so a crafted volume overwrites the block after an MFT record buffer.\<close>
theorem small_sectors_overflow:
  assumes "\<forall>l. \<not> bad s l" "bytes_per_sector (s_vol s) < 512" "cnt \<noteq> 0"
  shows "\<exists>e. unat cnt * unat (bytes_per_sector (s_vol s)) \<le> e \<and>
    fst (ntfs_read_sectors s vs cnt b) e = disk s (sector_lba s vs (unat cnt - 1)) 511"
proof (intro exI conjI)
  let ?w = "unat (bytes_per_sector (s_vol s))"
  obtain n where n: "unat cnt = Suc n" using assms(3) by (metis not0_implies_Suc unat_eq_0)
  have w: "?w < 512" using assms(2) by (simp add: word_less_nat_alt)
  show "unat cnt * ?w \<le> (unat cnt - 1) * ?w + 511" using w by (simp add: n)
  show "fst (ntfs_read_sectors s vs cnt b) ((unat cnt - 1) * ?w + 511) = disk s (sector_lba s vs (unat cnt - 1)) 511"
    using read_sectors_loop_last [OF assms(1), of vs 0 n b] by (simp only: ntfs_read_sectors_def n add_0 diff_Suc_1)
qed

theorem small_sectors_overflow_witness:
  "\<exists>e. 1 * 256 \<le> e \<and> fst (ntfs_read_sectors ((demo_ntfs (\<lambda>l i. 0xAA))\<lparr>s_vol := vol_zero\<lparr>bytes_per_sector := 256\<rparr>\<rparr>)
     0 1 (\<lambda>_. 0)) e = 0xAA"
  using small_sectors_overflow [of "(demo_ntfs (\<lambda>l i. 0xAA))\<lparr>s_vol := vol_zero\<lparr>bytes_per_sector := 256\<rparr>\<rparr>" 1 0 "\<lambda>_. 0"]
  by (simp add: demo_ntfs_def)

end
