(* ===== verification/NtfsWrite.thy ===== *)
theory NtfsWrite
  imports NtfsRead
begin

text \<open>
  Writing an NTFS volume (\<open>ntfs.c\<close>): sectors, MFT records, file contents, the entries of a directory's
  index root, and the creation and deletion of files.  A record is edited in a heap buffer and
  written back with fresh fixups.  Arrays on the stack have a size: a build that would run past the
  end of one is the undefined result \<open>None\<close>.
\<close>

definition FILE_ATTR_ARCHIVE :: u32 where "FILE_ATTR_ARCHIVE = 0x20"

definition align8 :: "u32 \<Rightarrow> u32" where "align8 x = (x + 7) AND NOT 7"

section \<open>Sectors, clusters and records\<close>

fun write_sectors_loop :: "u64 \<Rightarrow> nat \<Rightarrow> nat \<Rightarrow> buf \<Rightarrow> ntfs_state \<Rightarrow> bool \<times> ntfs_state" where
  "write_sectors_loop vs i 0 b s = (True, s)"
| "write_sectors_loop vs i (Suc n) b s =
     (let lba = sector_lba s vs i in
      if bad s lba then (False, s)
      else write_sectors_loop vs (Suc i) n b
        (s\<lparr>disk := (disk s)(lba := (\<lambda>j. b (i * unat (bytes_per_sector (s_vol s)) + j)))\<rparr>))"

definition ntfs_write_sectors :: "u64 \<Rightarrow> u32 \<Rightarrow> buf \<Rightarrow> ntfs_state \<Rightarrow> bool \<times> ntfs_state" where
  "ntfs_write_sectors vs cnt b s = write_sectors_loop vs 0 (unat cnt) b s"

definition ntfs_write_clusters :: "u64 \<Rightarrow> u32 \<Rightarrow> buf \<Rightarrow> ntfs_state \<Rightarrow> bool \<times> ntfs_state" where
  "ntfs_write_clusters lcn cnt b s =
     ntfs_write_sectors (lcn * ucast (sectors_per_cluster (s_vol s))) (cnt * ucast (sectors_per_cluster (s_vol s))) b s"

definition ntfs_write_mft_record :: "u64 \<Rightarrow> buf \<Rightarrow> ntfs_state \<Rightarrow> (bool \<times> ntfs_state) option" where
  "ntfs_write_mft_record rno b s =
     (if \<not> mounted (s_vol s) then Some (False, s)
      else if \<not> is_magic ''FILE'' b 0 then Some (False, s)
      else case ntfs_apply_fixups_for_write (bytes_per_sector (s_vol s)) (mft_record_size (s_vol s))
                  (rd16 b 0x04) (rd16 b 0x06) b of (b1, ok) \<Rightarrow>
        if \<not> ok then Some (False, s)
        else if bytes_per_sector (s_vol s) = 0 then None
        else Some (ntfs_write_sectors (record_sector s rno) (record_sectors s) b1 s))"

section \<open>Sizes in names and in the index\<close>

text \<open>The first entry, from \<open>e\<close> up to \<open>fin\<close> and before the end entry, that satisfies \<open>P\<close>.\<close>

function index_scan :: "(nat \<Rightarrow> bool) \<Rightarrow> buf \<Rightarrow> nat \<Rightarrow> nat \<Rightarrow> nat option" where
  "index_scan P b e fin =
     (if e + 0x10 \<le> fin
      then (let elen = unat (rd16 b (e + 0x08)) in
            if elen < 0x10 then None
            else if rd16 b (e + 0x0C) AND INDEX_ENTRY_END \<noteq> 0 then None
            else if P e then Some e else index_scan P b (e + elen) fin)
      else None)"
  by pat_completeness auto
termination
  by (relation "measure (\<lambda>(P, b, e, fin). fin - e)") auto

declare index_scan.simps [simp del]

definition entry_ref :: "buf \<Rightarrow> nat \<Rightarrow> u64" where "entry_ref b e = rd64 b e AND 0x0000FFFFFFFFFFFF"

text \<open>The size fields of a \<open>$FILE_NAME\<close> at \<open>f\<close>.\<close>

definition set_sizes :: "nat \<Rightarrow> u64 \<Rightarrow> u64 \<Rightarrow> buf \<Rightarrow> buf" where
  "set_sizes f real alloc b = wr_le (f + 0x30) real 8 (wr_le (f + 0x28) alloc 8 b)"

definition index_update_entry :: "buf \<Rightarrow> u32 \<Rightarrow> u64 \<Rightarrow> u64 \<Rightarrow> u64 \<Rightarrow> buf option" where
  "index_update_entry r ir child real alloc =
     (case attr_resident_data r ir of (root, clen) \<Rightarrow>
        if clen < 0x20 then None
        else (let node = root + 0x10;
                  fin = min (node + unat (rd32 r (node + 4))) (root + unat clen)
              in map_option (\<lambda>e. set_sizes (e + 0x10) real alloc r)
                   (index_scan (\<lambda>e. entry_ref r e = child \<and> rd16 r (e + 0x0A) \<ge> 0x42) r (node + unat (rd32 r node)) fin)))"

definition ntfs_index_update_size :: "u64 \<Rightarrow> u64 \<Rightarrow> u64 \<Rightarrow> u64 \<Rightarrow> ntfs_state \<Rightarrow> (bool \<times> ntfs_state) option" where
  "ntfs_index_update_size parent child real alloc s =
     (if parent = 0 then Some (False, s)
      else with_buf (ucast (mft_record_size (s_vol s))) False
        (\<lambda>b s1. do { (r, ok) \<leftarrow> ntfs_read_mft_record s1 parent b;
           if \<not> ok then Some (False, s1)
           else do { oir \<leftarrow> first_attr s1 r ATTR_INDEX_ROOT;
             (case oir of None \<Rightarrow> Some (False, s1)
              | Some ir \<Rightarrow>
                  if attr_is_nonresident r ir then Some (False, s1)
                  else (case index_update_entry r ir child real alloc of
                      None \<Rightarrow> Some (False, s1)
                    | Some r' \<Rightarrow> ntfs_write_mft_record parent r' s1)) } }) s)"

fun set_filename_loop :: "ntfs_state \<Rightarrow> u64 \<Rightarrow> u64 \<Rightarrow> nat \<Rightarrow> nat \<Rightarrow> buf \<Rightarrow> buf option" where
  "set_filename_loop s real alloc which 0 r = Some r"
| "set_filename_loop s real alloc which (Suc n) r =
     (case find_attr s r ATTR_FILE_NAME which False of
        None \<Rightarrow> None
      | Some None \<Rightarrow> Some r
      | Some (Some a) \<Rightarrow>
          if attr_is_nonresident r a then set_filename_loop s real alloc (Suc which) n r
          else (case attr_resident_data r a of (f, clen) \<Rightarrow>
            if clen < 0x42 then set_filename_loop s real alloc (Suc which) n r
            else set_filename_loop s real alloc (Suc which) n (set_sizes f real alloc r)))"

definition ntfs_record_set_filename_size :: "ntfs_state \<Rightarrow> u64 \<Rightarrow> u64 \<Rightarrow> buf \<Rightarrow> buf option" where
  "ntfs_record_set_filename_size s real alloc r = set_filename_loop s real alloc 0 8 r"

section \<open>File contents\<close>

text \<open>The clusters of a non-resident attribute are rewritten in place; \<open>dat\<close> is the caller's buffer.  The
  loop stops at a hole, at the end of the runs and at a failing transfer.\<close>

function write_nonres_loop ::
  "buf \<Rightarrow> u32 \<Rightarrow> u64 \<Rightarrow> buf \<Rightarrow> nat \<Rightarrow> nat \<Rightarrow> buf \<Rightarrow> ntfs_state \<Rightarrow> (nat \<times> ntfs_state) option" where
  "write_nonres_loop r a off dat len dn cb s =
     (if dn < len then
        (let cl = unat (bytes_per_cluster (s_vol s)); p = off + of_nat dn;
             vcn = p div ucast (bytes_per_cluster (s_vol s)); in_cl = unat p mod cl;
             chunk = min (cl - in_cl) (len - dn)
         in if cl = 0 then None
            else case ntfs_run_for_vcn r a vcn of
              None \<Rightarrow> None
            | Some None \<Rightarrow> Some (dn, s)
            | Some (Some (lcn, rc, sparse)) \<Rightarrow>
                if sparse then Some (dn, s)
                else (case ntfs_read_clusters s lcn 1 cb of (cb1, ok) \<Rightarrow>
                  if \<not> ok then Some (dn, s)
                  else (let cb2 = put_bytes chunk in_cl (\<lambda>i. dat (dn + i)) cb1 in
                    case ntfs_write_clusters lcn 1 cb2 s of (ok2, s') \<Rightarrow>
                      if \<not> ok2 then Some (dn, s')
                      else write_nonres_loop r a off dat len (dn + chunk) cb2 s')))
      else Some (dn, s))"
  by pat_completeness auto
termination
  by (relation "measure (\<lambda>(r, a, off, dat, len, dn, cb, s). len - dn)")
    (auto simp only: in_measure split_conv chunk_progress neq0_conv)

declare write_nonres_loop.simps [simp del]

definition write_nonresident :: "buf \<Rightarrow> u32 \<Rightarrow> u64 \<Rightarrow> buf \<Rightarrow> u32 \<Rightarrow> ntfs_state \<Rightarrow> (u32 \<times> ntfs_state) option" where
  "write_nonresident r a off dat len s =
     (let real = attr_nonresident_size r a in
      if off \<ge> real then Some (0, s)
      else
        (let n = (if off + ucast len > real then ucast (real - off) else len)
         in with_buf (ucast (bytes_per_cluster (s_vol s))) 0
              (\<lambda>cb s1. do { (dn, s2) \<leftarrow> write_nonres_loop r a off dat (unat n) 0 cb s1; Some (of_nat dn, s2) }) s))"

text \<open>The plan of a resident write: the new length of the content, whether the attribute is resized and
  how many bytes are copied; \<open>None\<close> is the early return.\<close>

definition target_len :: "u64 \<Rightarrow> u32 \<Rightarrow> bool \<Rightarrow> u32 \<Rightarrow> u32" where
  "target_len off len set_eof clen =
     (let new_eof = off + ucast len in
      if set_eof then ucast new_eof else if new_eof > ucast clen then ucast new_eof else clen)"

definition can_resize :: "u32 \<Rightarrow> buf \<Rightarrow> u32 \<Rightarrow> u32 \<Rightarrow> bool" where
  "can_resize rs r a new_len \<longleftrightarrow>
     (let coff = ucast (rd16 r (unat a + 0x14)); max_attr = rs - a - 8;
          max_content = (if max_attr > coff then max_attr - coff else 0);
          old_next = a + rd32 r (unat a + 4)
      in \<not> new_len > max_content \<and> old_next + 4 \<le> rs \<and> rd32 r (unat old_next) = ATTR_END)"

definition resident_plan :: "u32 \<Rightarrow> buf \<Rightarrow> u32 \<Rightarrow> u64 \<Rightarrow> u32 \<Rightarrow> bool \<Rightarrow> (u32 \<times> bool \<times> u32) option" where
  "resident_plan rs r a off len set_eof =
     (let clen = rd32 r (unat a + 0x10); nl = target_len off len set_eof clen in
      if nl \<noteq> clen \<and> \<not> can_resize rs r a nl
      then (if off \<ge> ucast clen then None
            else Some (clen, False, if off + ucast len > ucast clen then clen - ucast off else len))
      else Some (nl, nl \<noteq> clen, len))"

definition resident_store :: "buf \<Rightarrow> u32 \<Rightarrow> u64 \<Rightarrow> buf \<Rightarrow> u32 \<Rightarrow> buf" where
  "resident_store r a off dat len =
     (let base = unat a + unat (rd16 r (unat a + 0x14)); clen = rd32 r (unat a + 0x10);
          r1 = (if off > ucast clen then put_zero (unat (ucast off - clen)) (base + unat clen) r else r)
      in put_bytes (unat len) (base + unat (ucast off :: u32)) dat r1)"

text \<open>The end marker at \<open>n\<close> and the bytes in use.\<close>

definition put_end :: "u32 \<Rightarrow> buf \<Rightarrow> buf" where
  "put_end n r = wr_le 0x18 (ucast (align8 (n + 8))) 4 (wr_le (unat n + 4) 0 4 (wr_le (unat n) 0xFFFFFFFF 4 r))"

definition resident_resize :: "buf \<Rightarrow> u32 \<Rightarrow> u16 \<Rightarrow> u32 \<Rightarrow> buf" where
  "resident_resize r a coff nl =
     (let al = align8 (ucast coff + nl)
      in put_end (a + al) (wr_le (unat a + 4) (ucast al) 4 (wr_le (unat a + 0x10) (ucast nl) 4 r)))"

definition write_resident ::
  "u64 \<Rightarrow> buf \<Rightarrow> u32 \<Rightarrow> u64 \<Rightarrow> buf \<Rightarrow> u32 \<Rightarrow> bool \<Rightarrow> u64 \<Rightarrow> ntfs_state \<Rightarrow> (u32 \<times> ntfs_state) option" where
  "write_resident rno r a off dat len set_eof parent s =
     (case resident_plan (mft_record_size (s_vol s)) r a off len set_eof of
        None \<Rightarrow> Some (0, s)
      | Some (nl, resizing, n) \<Rightarrow> do {
          (r2, s1) \<leftarrow>
            (let r1 = resident_store r a off dat n; alloc = ucast (align8 nl) in
             if resizing
             then do {
               r2 \<leftarrow> ntfs_record_set_filename_size s (ucast nl) alloc (resident_resize r1 a (rd16 r (unat a + 0x14)) nl);
               (upd, s1) \<leftarrow> (if parent \<noteq> 0 then ntfs_index_update_size parent rno (ucast nl) alloc s else Some (False, s));
               Some (r2, s1) }
             else Some (r1, s));
          (ok, s2) \<leftarrow> ntfs_write_mft_record rno r2 s1;
          Some (if ok then n else 0, s2) })"

definition ntfs_write_file ::
  "u64 \<Rightarrow> u64 \<Rightarrow> buf option \<Rightarrow> u32 \<Rightarrow> bool \<Rightarrow> u64 \<Rightarrow> ntfs_state \<Rightarrow> (u32 \<times> ntfs_state) option" where
  "ntfs_write_file rno off odat len set_eof parent s =
     (case odat of
        None \<Rightarrow> Some (0, s)
      | Some dat \<Rightarrow>
          if \<not> mounted (s_vol s) then Some (0, s)
          else with_buf (ucast (mft_record_size (s_vol s))) 0
            (\<lambda>b s1. do { (r, ok) \<leftarrow> ntfs_read_mft_record s1 rno b;
               if \<not> ok then Some (0, s1)
               else do { oa \<leftarrow> find_attr s1 r ATTR_DATA 0 False;
                 (case oa of None \<Rightarrow> Some (0, s1)
                  | Some a \<Rightarrow>
                      if attr_is_nonresident r a then write_nonresident r a off dat len s1
                      else write_resident rno r a off dat len set_eof parent s1) } }) s)"

section \<open>Building attributes\<close>

definition ascii_to_utf16 :: "string \<Rightarrow> nat \<Rightarrow> nat \<Rightarrow> buf \<Rightarrow> buf" where
  "ascii_to_utf16 nm mx off b =
     (\<lambda>i. if off \<le> i \<and> i < off + 2 * min (length nm) mx
          then (if even (i - off) then of_char (nm ! ((i - off) div 2)) else 0) else b i)"

definition NT_TIME_FIXED :: u64 where "NT_TIME_FIXED = 0x01D6000000000000"

definition put_times :: "buf \<Rightarrow> buf" where
  "put_times b = wr_le 24 NT_TIME_FIXED 8 (wr_le 16 NT_TIME_FIXED 8 (wr_le 8 NT_TIME_FIXED 8 (wr_le 0 NT_TIME_FIXED 8 b)))"

text \<open>The content of a \<open>$FILE_NAME\<close>; the result is the array and the length.\<close>

definition build_filename_content :: "u64 \<Rightarrow> string \<Rightarrow> u32 \<Rightarrow> u64 \<Rightarrow> u64 \<Rightarrow> buf \<Rightarrow> buf \<times> u32" where
  "build_filename_content parent_ref nm flags real alloc out =
     (let b1 = wr_le 0 parent_ref 8 out;
          b2 = fold (\<lambda>i. wr_le (8 + i * 8) NT_TIME_FIXED 8) [0..<4] b1;
          b3 = wr_le 60 0 4 (wr_le 56 (ucast flags) 4 (wr_le 48 real 8 (wr_le 40 alloc 8 b2)));
          b4 = b3(64 := of_nat (length nm), 65 := 3)
      in (ascii_to_utf16 nm (length nm) 66 b4, 66 + of_nat (length nm) * 2))"

definition build_resident_attr :: "u32 \<Rightarrow> buf \<Rightarrow> u32 \<Rightarrow> string \<Rightarrow> buf \<Rightarrow> buf \<times> u32" where
  "build_resident_attr ty content clen nm out =
     (let chars = of_nat (length nm) :: u8;
          coff = align8 (24 + ucast chars * 2);
          rl = align8 (coff + clen);
          b1 = put_zero (unat rl) 0 out;
          b2 = wr_le 0x04 (ucast rl) 4 (wr_le 0x00 (ucast ty) 4 b1);
          b3 = b2(0x08 := 0, 0x09 := chars);
          b4 = wr_le 0x0E 0 2 (wr_le 0x0C 0 2 (wr_le 0x0A (if chars \<noteq> 0 then 24 else 0) 2 b3));
          b5 = wr_le 0x14 (ucast coff) 2 (wr_le 0x10 (ucast clen) 4 b4);
          b6 = b5(0x16 := 0, 0x17 := 0);
          b7 = (if chars \<noteq> 0 then ascii_to_utf16 nm (unat chars) 24 b6 else b6)
      in (if clen \<noteq> 0 then put_bytes (unat clen) (unat coff) content b7 else b7, rl))"

definition build_stdinfo :: "u32 \<Rightarrow> buf \<Rightarrow> buf \<times> u32" where
  "build_stdinfo flags out =
     (wr_le 44 0 4 (wr_le 40 0 4 (wr_le 36 0 4 (wr_le 32 (ucast flags) 4 (put_times out)))), 48)"

definition build_empty_index_root :: "ntfs_state \<Rightarrow> buf \<Rightarrow> buf \<times> u32" where
  "build_empty_index_root s out =
     (let irs = index_record_size (s_vol s);
          b1 = wr_le 8 (ucast (if irs \<noteq> 0 then irs else 4096)) 4 (wr_le 4 1 4 (wr_le 0 (ucast ATTR_FILE_NAME) 4 out));
          b2 = b1(12 := 1, 13 := 0, 14 := 0, 15 := 0);
          b3 = wr_le 28 0 4 (wr_le 24 32 4 (wr_le 20 32 4 (wr_le 16 16 4 b2)));
          b4 = wr_le 44 2 4 (wr_le 42 0 2 (wr_le 40 16 2 (wr_le 32 0 8 b3)))
      in (b4, 48))"

section \<open>Entries of an index root\<close>

text \<open>The end entry of a node.\<close>

function find_end_entry :: "buf \<Rightarrow> nat \<Rightarrow> nat \<Rightarrow> nat option" where
  "find_end_entry b e fin =
     (if e + 0x10 \<le> fin
      then (let elen = unat (rd16 b (e + 0x08)) in
            if elen < 0x10 then None
            else if rd16 b (e + 0x0C) AND INDEX_ENTRY_END \<noteq> 0 then Some e
            else find_end_entry b (e + elen) fin)
      else None)"
  by pat_completeness auto
termination
  by (relation "measure (\<lambda>(b, e, fin). fin - e)") auto

declare find_end_entry.simps [simp del]

definition entry_key :: "u64 \<Rightarrow> string \<Rightarrow> bool \<Rightarrow> u64 \<Rightarrow> buf \<Rightarrow> buf \<times> u32" where
  "entry_key parent nm dir real key =
     build_filename_content (push_bit 48 1 OR parent) nm (if dir then FILE_ATTR_DIRECTORY else FILE_ATTR_ARCHIVE)
       (if dir then 0 else real) (if dir then 0 else (real + 7) AND NOT 7) key"

text \<open>The new entry is written where the end entry was, and the end entry moved behind it.\<close>

definition put_entry :: "nat \<Rightarrow> nat \<Rightarrow> u64 \<Rightarrow> u32 \<Rightarrow> u32 \<Rightarrow> buf \<Rightarrow> buf \<Rightarrow> buf" where
  "put_entry ne end_len child elen klen key r =
     (let r1 = put_bytes end_len (ne + unat elen) (\<lambda>i. r (ne + i)) r;
          r2 = wr_le (ne + 0x0C) 0 4 (wr_le (ne + 0x0A) (ucast klen) 2 (wr_le (ne + 0x08) (ucast elen) 2 (wr_le ne child 8 r1)));
          r3 = put_bytes (unat klen) (ne + 0x10) key r2
      in if elen > 16 + klen then put_zero (unat (elen - (16 + klen))) (ne + 0x10 + unat klen) r3 else r3)"

text \<open>The node header and the lengths of the attribute after a change of the entries.\<close>

definition put_lengths :: "nat \<Rightarrow> u32 \<Rightarrow> u32 \<Rightarrow> u32 \<Rightarrow> u32 \<Rightarrow> buf \<Rightarrow> buf" where
  "put_lengths node ir used clen alen r =
     wr_le (unat ir + 4) (ucast alen) 4 (wr_le (unat ir + 0x10) (ucast clen) 4
       (wr_le (node + 8) (ucast used) 4 (wr_le (node + 4) (ucast used) 4 r)))"

text \<open>The edit of a directory's record by an insertion; \<open>None\<close> is a refusal.  The outer option is the
  overflow of the \<open>key\<close> array of 320 bytes.\<close>

definition is_last_attr :: "u32 \<Rightarrow> buf \<Rightarrow> u32 \<Rightarrow> bool" where
  "is_last_attr rs r a \<longleftrightarrow> a + rd32 r (unat a + 4) + 4 \<le> rs \<and> rd32 r (unat (a + rd32 r (unat a + 4))) = ATTR_END"

definition index_insert_rec ::
  "u32 \<Rightarrow> buf \<Rightarrow> u32 \<Rightarrow> u64 \<Rightarrow> u64 \<Rightarrow> string \<Rightarrow> bool \<Rightarrow> u64 \<Rightarrow> buf option option" where
  "index_insert_rec rs r ir parent child nm dir real =
     (if \<not> is_last_attr rs r ir then Some None
      else (let coff = rd16 r (unat ir + 0x14); clen = rd32 r (unat ir + 0x10);
                root = unat ir + unat coff; node = root + 0x10; used = rd32 r (node + 4)
            in case entry_key parent nm dir real (\<lambda>_. 0) of (key, klen) \<Rightarrow>
              if 66 + 2 * length nm > 320 then None
              else (let elen = align8 (16 + klen);
                        nclen = clen + elen; alen = align8 (ucast coff + nclen)
                    in Some (case find_end_entry r (node + unat (rd32 r node)) (node + unat used) of
                        None \<Rightarrow> None
                      | Some ee \<Rightarrow>
                          if ir + alen + 8 > rs then None
                          else Some (put_end (ir + alen) (put_lengths node ir (used + elen) nclen alen
                                 (put_entry (root + unat (of_nat (ee - root) :: u32)) (unat (rd16 r (ee + 0x08))) child elen klen key r)))))))"

text \<open>The removal of a child's entry: what follows it moves over it.\<close>

definition index_remove_rec :: "u32 \<Rightarrow> buf \<Rightarrow> u32 \<Rightarrow> u64 \<Rightarrow> buf option" where
  "index_remove_rec rs r ir child =
     (let coff = rd16 r (unat ir + 0x14); clen = rd32 r (unat ir + 0x10); root = unat ir + unat coff;
          node = root + 0x10; used = rd32 r (node + 4)
      in case index_scan (\<lambda>e. entry_ref r e = child) r (node + unat (rd32 r node)) (node + unat used) of
          None \<Rightarrow> None
        | Some hit \<Rightarrow>
            (let hl = ucast (rd16 r (hit + 8)) :: u32; ofs = of_nat (hit - root) :: u32; tail = ofs + hl;
                 move = 0x10 + used - tail;
                 r1 = put_bytes (unat move) (root + unat ofs) (\<lambda>i. r (root + unat tail + i)) r;
                 nclen = clen - hl; alen = align8 (ucast coff + nclen);
                 r2 = put_lengths node ir (used - hl) nclen alen r1;
                 next_off = ir + rd32 r (unat ir + 4)
             in Some (if next_off + 4 \<le> rs \<and> rd32 r2 (unat next_off) = ATTR_END then put_end (ir + alen) r2 else r2)))"

text \<open>The record of a directory is read, its resident index root edited by \<open>f\<close> and the record written.\<close>

definition index_edit :: "u64 \<Rightarrow> (buf \<Rightarrow> u32 \<Rightarrow> buf option option) \<Rightarrow> ntfs_state \<Rightarrow> (bool \<times> ntfs_state) option" where
  "index_edit parent f s = with_buf (ucast (mft_record_size (s_vol s))) False
     (\<lambda>b s1. do { (r, ok) \<leftarrow> ntfs_read_mft_record s1 parent b;
        if \<not> ok then Some (False, s1)
        else do { oir \<leftarrow> first_attr s1 r ATTR_INDEX_ROOT;
          (case oir of None \<Rightarrow> Some (False, s1)
           | Some ir \<Rightarrow>
               if attr_is_nonresident r ir then Some (False, s1)
               else do { o' \<leftarrow> f r ir;
                 (case o' of None \<Rightarrow> Some (False, s1) | Some r' \<Rightarrow> ntfs_write_mft_record parent r' s1) }) } }) s"

definition ntfs_index_insert :: "u64 \<Rightarrow> u64 \<Rightarrow> string \<Rightarrow> bool \<Rightarrow> u64 \<Rightarrow> ntfs_state \<Rightarrow> (bool \<times> ntfs_state) option" where
  "ntfs_index_insert parent child nm dir real s =
     index_edit parent (\<lambda>r ir. index_insert_rec (mft_record_size (s_vol s)) r ir parent child nm dir real) s"

definition ntfs_index_remove :: "u64 \<Rightarrow> u64 \<Rightarrow> ntfs_state \<Rightarrow> (bool \<times> ntfs_state) option" where
  "ntfs_index_remove parent child s =
     index_edit parent (\<lambda>r ir. Some (index_remove_rec (mft_record_size (s_vol s)) r ir child)) s"

section \<open>Creating and deleting files\<close>

text \<open>The records from \<open>n\<close> on, at most \<open>k\<close> of them; \<open>b\<close> is the record buffer.\<close>

fun find_free_loop :: "u64 \<Rightarrow> nat \<Rightarrow> buf \<Rightarrow> ntfs_state \<Rightarrow> u64" where
  "find_free_loop n 0 b s = 0"
| "find_free_loop n (Suc k) b s =
     (case ntfs_read_sectors s (record_sector s n) (record_sectors s) b of (b1, ok) \<Rightarrow>
        if \<not> ok then find_free_loop (n + 1) k b1 s
        else if is_magic ''FILE'' b1 0 \<and> rd16 b1 0x16 AND MFT_FLAG_IN_USE \<noteq> 0 then find_free_loop (n + 1) k b1 s
        else n)"

definition ntfs_find_free_record :: "u64 \<Rightarrow> nat \<Rightarrow> ntfs_state \<Rightarrow> (u64 \<times> ntfs_state) option" where
  "ntfs_find_free_record start limit s = with_buf (ucast (mft_record_size (s_vol s))) 0
     (\<lambda>b s1. if bytes_per_sector (s_vol s) = 0 \<and> 0 < limit then None else Some (find_free_loop start limit b s1, s1)) s"

definition record_header :: "u32 \<Rightarrow> u16 \<Rightarrow> u32 \<Rightarrow> bool \<Rightarrow> u64 \<Rightarrow> buf \<Rightarrow> buf" where
  "record_header rs usa_count attrs_off dir rno b =
     (let b1 = (put_zero (unat rs) 0 b)(0 := 0x46, 1 := 0x49, 2 := 0x4C, 3 := 0x45);
          b2 = wr_le 0x08 0 8 (wr_le 0x06 (ucast usa_count) 2 (wr_le 0x04 0x30 2 b1));
          b3 = wr_le 0x14 (ucast attrs_off) 2 (wr_le 0x12 1 2 (wr_le 0x10 1 2 b2));
          b4 = wr_le 0x16 (ucast (MFT_FLAG_IN_USE OR (if dir then MFT_FLAG_DIRECTORY else 0))) 2 b3;
          b5 = wr_le 0x28 4 2 (wr_le 0x20 0 8 (wr_le 0x1C (ucast rs) 4 b4))
      in wr_le 0x30 1 2 (wr_le 0x2C (ucast (ucast rno :: u32)) 4 b5))"

text \<open>An attribute is built in \<open>tmp\<close>, an array of 640 bytes, and copied to the record at \<open>off\<close>.  The array starts
  out arbitrary; every byte of the attribute is written.\<close>

definition add_attr :: "u32 \<Rightarrow> buf \<Rightarrow> u32 \<Rightarrow> string \<Rightarrow> buf \<times> u32 \<Rightarrow> (buf \<times> u32) option" where
  "add_attr ty content clen nm x =
     (case x of (r, off) \<Rightarrow> case build_resident_attr ty content clen nm (\<lambda>_. 0) of (tmp, al) \<Rightarrow>
        if unat clen > 640 \<or> al > 640 then None else Some (put_bytes (unat al) (unat off) tmp r, off + al))"

definition build_record ::
  "ntfs_state \<Rightarrow> u64 \<Rightarrow> u64 \<Rightarrow> string \<Rightarrow> bool \<Rightarrow> buf \<Rightarrow> u32 \<Rightarrow> buf \<Rightarrow> buf option" where
  "build_record s rno parent nm dir content len b =
     (let rs = mft_record_size (s_vol s); bps = ucast (bytes_per_sector (s_vol s)) in
      if bps = 0 then None
      else (let usa_count = ucast (rs div bps + 1) :: u16;
                attrs_off = align8 (0x38 + ucast usa_count * 2);
                flags = (if dir then FILE_ATTR_DIRECTORY else FILE_ATTR_ARCHIVE);
                si = build_stdinfo flags (\<lambda>_. 0);
                fnm = build_filename_content (push_bit 48 1 OR parent) nm flags (if dir then 0 else ucast len)
                        (if dir then 0 else ucast (align8 len)) (\<lambda>_. 0)
            in do {
              x1 \<leftarrow> add_attr ATTR_STANDARD_INFORMATION (fst si) (snd si) [] (record_header rs usa_count attrs_off dir rno b, attrs_off);
              x2 \<leftarrow> (if 66 + 2 * length nm > 320 then None else add_attr ATTR_FILE_NAME (fst fnm) (snd fnm) [] x1);
              (r, off) \<leftarrow> (if dir
                 then (let ix = build_empty_index_root s (\<lambda>_. 0) in add_attr ATTR_INDEX_ROOT (fst ix) (snd ix) ''$I30'' x2)
                 else add_attr ATTR_DATA content len [] x2);
              Some (wr_le 0x18 (ucast (align8 (off + 8))) 4 (wr_le (unat off + 4) 0 4 (wr_le (unat off) (ucast ATTR_END) 4 r))) }))"

text \<open>The record is marked as free, in the undo of a creation and in a deletion.\<close>

definition clear_in_use :: "buf \<Rightarrow> buf" where
  "clear_in_use r = wr_le 0x16 (ucast (rd16 r 0x16 AND NOT MFT_FLAG_IN_USE)) 2 r"

definition free_record :: "u64 \<Rightarrow> ntfs_state \<Rightarrow> (bool option \<times> ntfs_state) option" where
  "free_record rno s = with_buf (ucast (mft_record_size (s_vol s))) None
     (\<lambda>b s1. do { (r, ok) \<leftarrow> ntfs_read_mft_record s1 rno b;
        if ok then do { (w, s2) \<leftarrow> ntfs_write_mft_record rno (clear_in_use r) s1; Some (Some w, s2) }
        else Some (None, s1) }) s"

text \<open>The result is the number of the new record.\<close>

definition ntfs_create_file ::
  "u64 \<Rightarrow> string \<Rightarrow> bool \<Rightarrow> buf \<Rightarrow> u32 \<Rightarrow> ntfs_state \<Rightarrow> (u64 option \<times> ntfs_state) option" where
  "ntfs_create_file parent nm dir content len s =
     (if \<not> mounted (s_vol s) then Some (None, s)
      else do {
        (rno, s1) \<leftarrow> ntfs_find_free_record 27 64 s;
        if rno = 0 then Some (None, s1)
        else do {
          (ok, s2) \<leftarrow> with_buf (ucast (mft_record_size (s_vol s1))) False
            (\<lambda>b s2. do { r \<leftarrow> build_record s2 rno parent nm dir content len b; ntfs_write_mft_record rno r s2 }) s1;
          if \<not> ok then Some (None, s2)
          else do {
            (ins, s3) \<leftarrow> ntfs_index_insert parent (push_bit 48 1 OR rno) nm dir (if dir then 0 else ucast len) s2;
            if ins then Some (Some rno, s3)
            else do { (u, s4) \<leftarrow> free_record rno s3; Some (None, s4) } } } })"

definition ntfs_delete_file :: "u64 \<Rightarrow> u64 \<Rightarrow> ntfs_state \<Rightarrow> (bool \<times> ntfs_state) option" where
  "ntfs_delete_file parent child s =
     (if \<not> mounted (s_vol s) then Some (False, s)
      else do {
        (idx, s1) \<leftarrow> ntfs_index_remove parent child s;
        (w, s2) \<leftarrow> free_record child s1;
        Some (idx \<and> w = Some True, s2) })"

section \<open>Offsets past 4 GiB\<close>

text \<open>The length of a resident file is computed in 32 bits: a write of \<open>len\<close> bytes at the offset 2^32 passes the
  check of the space in the record (the target length wraps to \<open>len\<close>) and the fill of the gap then clears
  all of the 2^32 - \<open>clen\<close> bytes behind the content that the copied data do not cover, far past the end
  of the record.\<close>
theorem write_offset_wraps:
  assumes "rd32 r (unat a + 0x10) = clen" "can_resize rs r a len" "len \<le> clen"
  shows "resident_plan rs r a (2 ^ 32) len False = Some (len, len \<noteq> clen, len) \<and>
    (\<forall>j < 2 ^ 32 - unat clen. clen \<noteq> 0 \<longrightarrow>
       resident_store r a (2 ^ 32) dat len (unat a + unat (rd16 r (unat a + 0x14)) + unat clen + j) = 0)"
proof (intro conjI allI impI)
  have off: "(ucast (4294967296 :: u64) :: u32) = 0" by simp
  have sum: "unat (4294967296 + ucast len :: u64) = 4294967296 + unat len"
  proof -
    have "unat len < 2 ^ LENGTH(32)" by (rule unsigned_less)
    then show ?thesis using unat_of_nat_small [of "4294967296 + unat len", where 'a = 64] by simp
  qed
  have cl: "unat clen < 4294967296" using unsigned_less [of clen] by simp
  have "unat (ucast (4294967296 + ucast len :: u64) :: u32) = (4294967296 + unat len) mod 4294967296"
    unfolding unsigned_ucast_eq sum by (simp add: take_bit_eq_mod)
  also have "\<dots> = unat len" using assms(3) cl by (simp add: word_le_nat_alt)
  finally have down: "(ucast (4294967296 + ucast len :: u64) :: u32) = len" by (simp only: word_unat_eq_iff)
  have t: "target_len (2 ^ 32) len False clen = len"
    using sum cl down by (simp add: target_len_def Let_def word_less_nat_alt unat_ucast32)
  show "resident_plan rs r a (2 ^ 32) len False = Some (len, len \<noteq> clen, len)"
    unfolding resident_plan_def assms(1) Let_def t using assms(2) by simp
  fix j :: nat
  assume j: "j < 2 ^ 32 - unat clen" "clen \<noteq> 0"
  have "- clen = of_nat (4294967296 - unat clen)" using cl by (simp add: of_nat_diff)
  moreover have "unat clen \<noteq> 0" using j(2) by (simp add: unat_eq_0)
  then have "unat (of_nat (4294967296 - unat clen) :: u32) = 4294967296 - unat clen"
    by (intro unat_of_nat_small) simp
  ultimately have n: "unat (- clen) = 2 ^ 32 - unat clen" by simp
  have gt: "(2 ^ 32 :: u64) > ucast clen" using cl by (simp add: word_less_nat_alt unat_ucast32)
  have j': "unat clen + j < 4294967296" using j(1) by simp
  have z: "(4294967296 :: u32) = 0" by simp
  then have n': "unat (4294967296 - clen) = 2 ^ 32 - unat clen" using n by (simp only: diff_0)
  show "resident_store r a (2 ^ 32) dat len (unat a + unat (rd16 r (unat a + 0x14)) + unat clen + j) = 0"
    using j j' n n' gt assms(3) off unfolding resident_store_def assms(1) Let_def
    by (simp add: put_bytes_def put_zero_def word_le_nat_alt)
qed

definition small_file :: buf where
  "small_file = (\<lambda>_. 0)(0x3C := 0x20, 0x48 := 4, 0x4C := 0x18, 0x58 := 0xFF, 0x59 := 0xFF, 0x5A := 0xFF, 0x5B := 0xFF)"

theorem write_offset_wraps_witness:
  "resident_plan 1024 small_file 0x38 (2 ^ 32) 2 False = Some (2, True, 2) \<and>
   resident_store small_file 0x38 (2 ^ 32) (\<lambda>_. 1) 2 2000000 = 0"
proof -
  have f: "rd32 small_file (unat (0x38 :: u32) + 0x10) = 4" "rd32 small_file (unat (0x38 :: u32) + 4) = 0x20"
    "rd16 small_file (unat (0x38 :: u32) + 0x14) = 0x18" "rd32 small_file 0x58 = ATTR_END"
    by (simp_all add: rd16_def rd32_def small_file_def ATTR_END_def)
  have "can_resize 1024 small_file 0x38 2" using f by (simp add: can_resize_def)
  note T = write_offset_wraps [OF f(1) this, of "\<lambda>_. 1", THEN conjunct2, rule_format, of 1999916]
    and P = write_offset_wraps [OF f(1) this, THEN conjunct1]
  have "resident_store small_file 0x38 (2 ^ 32) (\<lambda>_. 1) 2 2000000 = 0" using T unfolding f by simp
  then show ?thesis using P by simp
qed

section \<open>A record that is written is read back\<close>

lemma ucast_down_add: "(ucast (x + y :: u64) :: u32) = ucast x + ucast y"
proof -
  have "unat (ucast (x + y) :: u32) = unat (x + y) mod 2 ^ 32" unfolding unsigned_ucast_eq by (simp add: take_bit_eq_mod)
  also have "\<dots> = (unat x + unat y) mod 2 ^ 64 mod 2 ^ 32" by (simp add: unat_word_ariths)
  also have "\<dots> = (unat x + unat y) mod 2 ^ 32" by (simp add: mod_mod_cancel)
  also have "\<dots> = unat (ucast x + ucast y :: u32)"
    by (simp add: unat_word_ariths unsigned_ucast_eq take_bit_eq_mod mod_add_eq)
  finally show ?thesis by (simp only: word_unat_eq_iff)
qed

lemma ucast_down_of_nat: "(ucast (of_nat i :: u64) :: u32) = of_nat i"
  by (simp add: word_unat_eq_iff unsigned_ucast_eq unsigned_of_nat)

lemma sector_lba_eq: "sector_lba s vs i = part_lba (s_vol s) + ucast vs + of_nat i"
  by (simp add: sector_lba_def ucast_down_add ucast_down_of_nat add.assoc)

lemma sector_lba_inj: "i < 2 ^ 32 \<Longrightarrow> j < 2 ^ 32 \<Longrightarrow> sector_lba s vs i = sector_lba s vs j \<longleftrightarrow> i = j"
  using word_of_nat_eq_iff [of i j, where 'a = 32] by (auto simp: sector_lba_eq take_bit_nat_eq_self)

lemma sector_lba_disk [simp]: "sector_lba (s\<lparr>disk := d\<rparr>) vs i = sector_lba s vs i"
  by (simp add: sector_lba_def)

lemma write_sectors_loop_spec:
  assumes "\<forall>l. \<not> bad s l" "bytes_per_sector (s_vol s) = 512"
  shows "i + n \<le> 2 ^ 32 \<Longrightarrow> \<exists>d. write_sectors_loop vs i n b (s\<lparr>disk := d0\<rparr>) = (True, s\<lparr>disk := d\<rparr>) \<and>
    (\<forall>k. i \<le> k \<and> k < i + n \<longrightarrow> d (sector_lba s vs k) = (\<lambda>j. b (k * 512 + j))) \<and>
    (\<forall>l. (\<forall>k. i \<le> k \<and> k < i + n \<longrightarrow> l \<noteq> sector_lba s vs k) \<longrightarrow> d l = d0 l)"
proof (induction n arbitrary: i d0)
  case 0
  then show ?case by (intro exI [of _ d0]) auto
next
  case (Suc n)
  define d1 where "d1 = d0(sector_lba s vs i := (\<lambda>j. b (i * 512 + j)))"
  obtain d where d: "write_sectors_loop vs (Suc i) n b (s\<lparr>disk := d1\<rparr>) = (True, s\<lparr>disk := d\<rparr>)"
    "\<forall>k. Suc i \<le> k \<and> k < Suc i + n \<longrightarrow> d (sector_lba s vs k) = (\<lambda>j. b (k * 512 + j))"
    "\<forall>l. (\<forall>k. Suc i \<le> k \<and> k < Suc i + n \<longrightarrow> l \<noteq> sector_lba s vs k) \<longrightarrow> d l = d1 l"
    using Suc.IH [of "Suc i" d1] Suc.prems by auto
  have run: "write_sectors_loop vs i (Suc n) b (s\<lparr>disk := d0\<rparr>) = write_sectors_loop vs (Suc i) n b (s\<lparr>disk := d1\<rparr>)"
    using assms by (simp add: Let_def d1_def)
  have ne: "sector_lba s vs i \<noteq> sector_lba s vs k" if "Suc i \<le> k" "k < Suc i + n" for k
    using sector_lba_inj [of i k s vs] that Suc.prems by simp
  then have "d (sector_lba s vs i) = d1 (sector_lba s vs i)" using d(3) by blast
  then have here: "d (sector_lba s vs i) = (\<lambda>j. b (i * 512 + j))" by (simp add: d1_def)
  have "d (sector_lba s vs k) = (\<lambda>j. b (k * 512 + j))" if "i \<le> k" "k < i + Suc n" for k
    using here d(2) that by (cases "k = i") auto
  moreover have "d l = d0 l" if "\<forall>k. i \<le> k \<and> k < i + Suc n \<longrightarrow> l \<noteq> sector_lba s vs k" for l
  proof -
    have "l \<noteq> sector_lba s vs i" "\<forall>k. Suc i \<le> k \<and> k < Suc i + n \<longrightarrow> l \<noteq> sector_lba s vs k" using that by auto
    then show ?thesis using d(3) by (simp add: d1_def)
  qed
  ultimately show ?case using run d(1) by auto
qed

lemma write_sectors_spec:
  assumes "\<forall>l. \<not> bad s l" "bytes_per_sector (s_vol s) = 512"
  obtains d where "ntfs_write_sectors vs cnt b s = (True, s\<lparr>disk := d\<rparr>)"
    "\<And>k. k < unat cnt \<Longrightarrow> d (sector_lba s vs k) = (\<lambda>j. b (k * 512 + j))"
    "\<And>l. (\<And>k. k < unat cnt \<Longrightarrow> l \<noteq> sector_lba s vs k) \<Longrightarrow> d l = disk s l"
proof -
  have "unat cnt < 2 ^ LENGTH(32)" by (rule unsigned_less)
  then have "0 + unat cnt \<le> 2 ^ 32" by simp
  from write_sectors_loop_spec [OF assms this, of vs b "disk s"] show ?thesis
    using that by (auto simp: ntfs_write_sectors_def)
qed

text \<open>Sectors that were written are read back.\<close>

lemma read_written_sectors:
  assumes "\<forall>l. \<not> bad s l" "bytes_per_sector (s_vol s) = 512"
    and "\<And>k. k < unat cnt \<Longrightarrow> d (sector_lba s vs k) = (\<lambda>j. b (k * 512 + j))"
  obtains b' where "ntfs_read_sectors (s\<lparr>disk := d\<rparr>) vs cnt b0 = (b', True)" "\<And>x. x < unat cnt * 512 \<Longrightarrow> b' x = b x"
proof
  let ?s = "s\<lparr>disk := d\<rparr>"
  have "\<forall>l. \<not> bad ?s l" "bytes_per_sector (s_vol ?s) = 512" using assms by simp_all
  note L = read_sectors_loop_bytes [OF this, of vs 0 "unat cnt" b0]
  show "ntfs_read_sectors ?s vs cnt b0 = (fst (ntfs_read_sectors ?s vs cnt b0), True)"
    using L by (simp add: ntfs_read_sectors_def prod_eq_iff)
  fix x :: nat assume x: "x < unat cnt * 512"
  then have "x div 512 < unat cnt" by (rule less_mult_imp_div_less)
  then have "d (sector_lba s vs (x div 512)) (x mod 512) = b x" using assms(3) by simp
  then show "fst (ntfs_read_sectors ?s vs cnt b0) x = b x" using L x by (simp add: ntfs_read_sectors_def)
qed

text \<open>A record whose size is a whole number \<open>n\<close> of sectors and whose update sequence array lies behind the
  fields that describe it, in the first sector.\<close>

definition rec_layout :: "NTFS_VOLUME \<Rightarrow> buf \<Rightarrow> nat \<Rightarrow> bool" where
  "rec_layout v b n \<longleftrightarrow> bytes_per_sector v = 512 \<and> unat (mft_record_size v) = n * 512 \<and>
     fix_layout 512 (mft_record_size v) (unat (rd16 b 0x04)) n \<and> unat (rd16 b 0x06) = n + 1 \<and> 8 \<le> unat (rd16 b 0x04)"

definition in_usa :: "buf \<Rightarrow> nat \<Rightarrow> nat \<Rightarrow> bool" where
  "in_usa b n x \<longleftrightarrow> unat (rd16 b 0x04) \<le> x \<and> x < unat (rd16 b 0x04) + 2 * (n + 1)"

lemma rec_layout_sectors:
  assumes "rec_layout (s_vol s) b n"
  shows "unat (record_sectors s) = n"
proof -
  have n: "unat (mft_record_size (s_vol s)) = n * 512" "bytes_per_sector (s_vol s) = 512" "0 < n"
    using assms by (simp_all add: rec_layout_def fix_layout_def)
  have "unat (mft_record_size (s_vol s) div ucast (bytes_per_sector (s_vol s))) = n"
    by (simp add: unat_div n)
  then show ?thesis using n(3) by (auto simp: record_sectors_def Let_def)
qed

lemma is_magic_cong: "(\<And>i. i < length m \<Longrightarrow> b (off + i) = b' (off + i)) \<Longrightarrow> is_magic m b off = is_magic m b' off"
  by (simp add: is_magic_def)

lemma rd16_cong: "b p = b' p \<Longrightarrow> b (p + 1) = b' (p + 1) \<Longrightarrow> rd16 b p = rd16 b' p"
  by (simp add: rd16_def)

lemma record_write_read_lib:
  assumes "\<forall>l. \<not> bad s l" "mounted (s_vol s)" "rec_layout (s_vol s) b n" "is_magic ''FILE'' b 0"
  shows "\<exists>d. ntfs_write_mft_record rno b s = Some (True, s\<lparr>disk := d\<rparr>) \<and>
    (\<forall>l. (\<forall>k < n. l \<noteq> sector_lba s (record_sector s rno) k) \<longrightarrow> d l = disk s l) \<and>
    (\<forall>h b0. \<exists>r. ntfs_read_mft_record (s\<lparr>nheap := h, disk := d\<rparr>) rno b0 = Some (r, True) \<and>
       (\<forall>x < n * 512. \<not> in_usa b n x \<longrightarrow> r x = b x))"
proof -
  let ?v = "s_vol s" and ?usa = "unat (rd16 b 0x04)" and ?rs = "mft_record_size (s_vol s)"
  have v: "bytes_per_sector ?v = 512" "unat ?rs = n * 512" "unat (rd16 b 0x06) = n + 1" "8 \<le> ?usa"
    and fl: "fix_layout 512 ?rs ?usa n" using assms(3) by (simp_all add: rec_layout_def)
  have b8: "(512 :: u16) = bytes_per_sector ?v" using v(1) by simp
  obtain w r where w: "ntfs_apply_fixups_for_write 512 ?rs (rd16 b 0x04) (rd16 b 0x06) b = (w, True)"
    and r: "ntfs_apply_fixups 512 ?rs (rd16 b 0x04) (rd16 b 0x06) w = (r, True)"
    "\<forall>x. \<not> (?usa \<le> x \<and> x < ?usa + 2 * (n + 1)) \<longrightarrow> r x = b x"
    "\<forall>x. x \<notin> fix_tails 512 0 n \<and> \<not> (?usa \<le> x \<and> x < ?usa + 2 * (n + 1)) \<longrightarrow> w x = b x"
    using fixups_roundtrip_lib [OF fl v(3), of b] by blast
  have hd: "w x = b x" if "x < 8" for x
  proof -
    have "x \<notin> fix_tails 512 0 n" using that by (auto simp: fix_tails_def tail_at_def)
    then show ?thesis using r(3) that v(4) by auto
  qed
  have cnt: "unat (record_sectors s) = n" by (rule rec_layout_sectors [OF assms(3)])
  obtain d where d: "ntfs_write_sectors (record_sector s rno) (record_sectors s) w s = (True, s\<lparr>disk := d\<rparr>)"
    "\<And>k. k < n \<Longrightarrow> d (sector_lba s (record_sector s rno) k) = (\<lambda>j. w (k * 512 + j))"
    "\<And>l. (\<And>k. k < n \<Longrightarrow> l \<noteq> sector_lba s (record_sector s rno) k) \<Longrightarrow> d l = disk s l"
    using write_sectors_spec [OF assms(1) v(1), of "record_sector s rno" "record_sectors s" w] unfolding cnt by metis
  have wr: "ntfs_write_mft_record rno b s = Some (True, s\<lparr>disk := d\<rparr>)"
    using assms(2,4) w d(1) v(1) by (simp add: ntfs_write_mft_record_def)
  have rd: "\<exists>r'. ntfs_read_mft_record (s\<lparr>nheap := h, disk := d\<rparr>) rno b0 = Some (r', True) \<and>
      (\<forall>x < n * 512. \<not> in_usa b n x \<longrightarrow> r' x = b x)" for h b0
  proof -
    let ?s = "s\<lparr>nheap := h, disk := d\<rparr>"
    have sec: "record_sector ?s rno = record_sector s rno" "record_sectors ?s = record_sectors s"
      by (simp_all add: record_sector_def record_sectors_def)
    have sl: "sector_lba (s\<lparr>nheap := h\<rparr>) vs k = sector_lba s vs k" for vs k by (simp add: sector_lba_def)
    obtain b' where b': "ntfs_read_sectors ?s (record_sector s rno) (record_sectors s) b0 = (b', True)"
      "\<And>x. x < n * 512 \<Longrightarrow> b' x = w x"
      using read_written_sectors [of "s\<lparr>nheap := h\<rparr>" "record_sectors s" d "record_sector s rno" w b0] assms(1) v(1) d(2)
      unfolding cnt sl by auto
    have n0: "0 < n" using fl by (simp add: fix_layout_def)
    have h8: "b' x = b x" if "x < 8" for x using b'(2) [of x] hd that n0 by simp
    have u: "rd16 b' 0x04 = rd16 b 0x04" "rd16 b' 0x06 = rd16 b 0x06" by (rule rd16_cong; simp add: h8)+
    have m: "is_magic ''FILE'' b' 0" using assms(4) is_magic_cong [of "''FILE''" b' 0 b] h8 by simp
    obtain r1 r' where r': "ntfs_apply_fixups 512 ?rs (rd16 b 0x04) (rd16 b 0x06) w = (r1, True)"
      "ntfs_apply_fixups 512 ?rs (rd16 b 0x04) (rd16 b 0x06) b' = (r', True)" "\<forall>x < unat ?rs. r1 x = r' x"
      using fixups_agree [OF fl v(3), of w b'] b'(2) v(2) by auto
    have "ntfs_read_mft_record ?s rno b0 = Some (r', True)"
      using b'(1) m u r'(2) v(1) by (simp add: ntfs_read_mft_record_def sec)
    moreover have "r' x = b x" if "x < n * 512" "\<not> in_usa b n x" for x
      using r'(1,3) r(1,2) that v(2) by (auto simp: in_usa_def)
    ultimately show ?thesis by blast
  qed
  show ?thesis using wr rd d(3) by blast
qed

text \<open>C17: A record that is written is read back: on a mounted volume with 512-byte sectors whose transfers do not
  fail, \<open>ntfs_write_mft_record\<close> succeeds, changes no sector but those of the record, and
  \<open>ntfs_read_mft_record\<close> then succeeds with every byte of the record outside the update sequence array as
  it was written, whatever the buffer held before.\<close>
theorem record_write_read:
  assumes "\<forall>l. \<not> bad s l" "mounted (s_vol s)" "rec_layout (s_vol s) b n" "is_magic ''FILE'' b 0"
  shows "\<exists>d. ntfs_write_mft_record rno b s = Some (True, s\<lparr>disk := d\<rparr>) \<and>
    (\<forall>l. (\<forall>k < n. l \<noteq> sector_lba s (record_sector s rno) k) \<longrightarrow> d l = disk s l) \<and>
    (\<forall>h b0. \<exists>r. ntfs_read_mft_record (s\<lparr>nheap := h, disk := d\<rparr>) rno b0 = Some (r, True) \<and>
       (\<forall>x < n * 512. \<not> in_usa b n x \<longrightarrow> r x = b x))"
  by (rule record_write_read_lib [OF assms])

definition demo_rec :: buf where "demo_rec = (\<lambda>_. 7)(0 := 0x46, 1 := 0x49, 2 := 0x4C, 3 := 0x45, 4 := 0x30, 5 := 0, 6 := 3, 7 := 0)"

theorem record_write_read_witness:
  "\<exists>d r. ntfs_write_mft_record 5 demo_rec demo_state = Some (True, demo_state\<lparr>disk := d\<rparr>) \<and>
    ntfs_read_mft_record (demo_state\<lparr>nheap := heap_init, disk := d\<rparr>) 5 (\<lambda>_. 0) = Some (r, True) \<and> r 510 = 7 \<and> r 1023 = 7"
proof -
  have f: "rd16 demo_rec 0x04 = 0x30" "rd16 demo_rec 0x06 = 3" by (simp_all add: rd16_def demo_rec_def)
  have l: "rec_layout (s_vol demo_state) demo_rec 2" by (simp add: rec_layout_def fix_layout_def f)
  have m: "is_magic ''FILE'' demo_rec 0" by (auto simp: is_magic_def demo_rec_def less_Suc_eq numeral_eq_Suc)
  have b: "\<forall>l. \<not> bad demo_state l" by (simp add: demo_state_def demo_ntfs_def)
  have "mounted (s_vol demo_state)" by simp
  from record_write_read [OF b this l m, of 5] obtain d r where
    "ntfs_write_mft_record 5 demo_rec demo_state = Some (True, demo_state\<lparr>disk := d\<rparr>)"
    "ntfs_read_mft_record (demo_state\<lparr>nheap := heap_init, disk := d\<rparr>) 5 (\<lambda>_. 0) = Some (r, True)"
    "\<forall>x < 2 * 512. \<not> in_usa demo_rec 2 x \<longrightarrow> r x = demo_rec x" by blast
  moreover have "demo_rec 510 = 7" "demo_rec 1023 = 7" "\<not> in_usa demo_rec 2 510" "\<not> in_usa demo_rec 2 1023"
    by (simp_all add: demo_rec_def in_usa_def rd16_def)
  ultimately show ?thesis by auto
qed

section \<open>Writing changes the disk only\<close>

text \<open>\<open>stays s r\<close>: the result \<open>r\<close> of an operation run in \<open>s\<close> leaves everything but the disk as in \<open>s\<close>.  The
  rules follow the control structure of the operations.\<close>

definition stays :: "ntfs_state \<Rightarrow> ('r \<times> ntfs_state) option \<Rightarrow> bool" where
  "stays s r \<longleftrightarrow> (\<forall>x s'. r = Some (x, s') \<longrightarrow> (\<exists>d. s' = s\<lparr>disk := d\<rparr>))"

named_theorems stays_rules

lemma staysD: "stays s r \<Longrightarrow> r = Some (x, s') \<Longrightarrow> \<exists>d. s' = s\<lparr>disk := d\<rparr>"
  unfolding stays_def by blast

lemma stays_None [stays_rules]: "stays s None"
  by (simp add: stays_def)

lemma stays_refl [stays_rules]: "stays s (Some (x, s))"
proof -
  have "s = s\<lparr>disk := disk s\<rparr>" by simp
  then show ?thesis unfolding stays_def by blast
qed

lemma stays_if [stays_rules]: "(c \<Longrightarrow> stays s r) \<Longrightarrow> (\<not> c \<Longrightarrow> stays s r') \<Longrightarrow> stays s (if c then r else r')"
  by simp

lemma stays_option [stays_rules]:
  "(o' = None \<Longrightarrow> stays s r) \<Longrightarrow> (\<And>y. o' = Some y \<Longrightarrow> stays s (f y)) \<Longrightarrow> stays s (case o' of None \<Rightarrow> r | Some y \<Rightarrow> f y)"
  by (cases o') simp_all

lemma stays_prod [stays_rules]: "(\<And>a b. p = (a, b) \<Longrightarrow> stays s (f a b)) \<Longrightarrow> stays s (case p of (a, b) \<Rightarrow> f a b)"
  by (cases p) simp

lemma stays_pure [stays_rules]: "(\<And>y. m = Some y \<Longrightarrow> stays s (f y)) \<Longrightarrow> stays s (Option.bind m f)"
  by (cases m) (simp_all add: stays_None)

lemma stays_trans: "stays (s\<lparr>disk := d\<rparr>) r \<Longrightarrow> stays s r"
  unfolding stays_def by auto

lemma stays_bind:
  assumes "stays s m" "\<And>x d. m = Some (x, s\<lparr>disk := d\<rparr>) \<Longrightarrow> stays (s\<lparr>disk := d\<rparr>) (f x (s\<lparr>disk := d\<rparr>))"
  shows "stays s (Option.bind m (\<lambda>(x, s'). f x s'))"
proof (cases m)
  case (Some y)
  then obtain x s' where y: "m = Some (x, s')" by (cases y) simp
  then obtain d where "s' = s\<lparr>disk := d\<rparr>" using staysD [OF assms(1)] by blast
  then show ?thesis using assms(2) [of x d] y stays_trans by simp
qed (simp add: stays_None)

lemma stays_with_buf:
  assumes "heap_inv (nheap s)" "\<And>b h. heap_inv h \<Longrightarrow> stays (s\<lparr>nheap := h\<rparr>) (f b (s\<lparr>nheap := h\<rparr>))"
  shows "stays s (with_buf n r f s)"
proof -
  obtain h p where K: "kmalloc n (nheap s) = (h, p)" by fastforce
  show ?thesis
  proof (cases "p = 0")
    case True
    then have "h = nheap s" using K kmalloc_cases [of n "nheap s"] by auto
    then show ?thesis using K True stays_refl by (simp add: with_buf_def)
  next
    case False
    have st: "stays (s\<lparr>nheap := h\<rparr>) (f (junk s p) (s\<lparr>nheap := h\<rparr>))"
      by (rule assms(2) [OF kmalloc_inv [OF assms(1) K]])
    show ?thesis unfolding stays_def
    proof (intro allI impI)
      fix x s' assume "with_buf n r f s = Some (x, s')"
      then obtain s1 h1 where F: "f (junk s p) (s\<lparr>nheap := h\<rparr>) = Some (x, s1)" "kfree p (nheap s1) = Some h1"
        "s' = s1\<lparr>nheap := h1\<rparr>" using K False by (auto simp: with_buf_def split: Option.bind_splits)
      then obtain d where "s1 = s\<lparr>nheap := h\<rparr>\<lparr>disk := d\<rparr>" using staysD [OF st] by blast
      then have "s' = s\<lparr>disk := d\<rparr>" using F kmalloc_kfree_lib [OF assms(1) K False] by simp
      then show "\<exists>d. s' = s\<lparr>disk := d\<rparr>" by blast
    qed
  qed
qed

lemma stays_write_sectors [stays_rules]: "stays s (Some (ntfs_write_sectors vs cnt b s))"
proof -
  have "\<exists>d. snd (write_sectors_loop vs i n b (s\<lparr>disk := d0\<rparr>)) = s\<lparr>disk := d\<rparr>" for i n d0
    by (induction n arbitrary: i d0) (auto simp: Let_def)
  from this [of 0 "unat cnt" "disk s"] show ?thesis by (auto simp: ntfs_write_sectors_def stays_def)
qed

lemma stays_write_record [stays_rules]: "stays s (ntfs_write_mft_record rno b s)"
  unfolding ntfs_write_mft_record_def by (intro stays_rules)

lemma stays_update_size [stays_rules]: "heap_inv (nheap s) \<Longrightarrow> stays s (ntfs_index_update_size parent child real alloc s)"
  unfolding ntfs_index_update_size_def by (intro stays_rules stays_with_buf)

lemma stays_index_edit [stays_rules]: "heap_inv (nheap s) \<Longrightarrow> stays s (index_edit parent f s)"
  unfolding index_edit_def by (intro stays_rules stays_with_buf)

lemma stays_free_record [stays_rules]: "heap_inv (nheap s) \<Longrightarrow> stays s (free_record rno s)"
  unfolding free_record_def
  by (rule stays_with_buf, assumption, rule stays_pure, rule stays_prod, rule stays_if, rule stays_bind)
    (intro stays_rules)+

lemma stays_find_free [stays_rules]: "heap_inv (nheap s) \<Longrightarrow> stays s (ntfs_find_free_record start limit s)"
  unfolding ntfs_find_free_record_def by (intro stays_rules stays_with_buf)

lemma stays_write_nonres_loop [stays_rules]: "stays s (write_nonres_loop r a off dat len dn cb s)"
proof (induction "len - dn" arbitrary: dn cb s rule: less_induct)
  case less
  define c where "c = unat (bytes_per_cluster (s_vol s))"
  define p where "p = off + of_nat dn"
  define k where "k = min (c - unat p mod c) (len - dn)"
  define v where "v = p div ucast (bytes_per_cluster (s_vol s))"
  note step = write_nonres_loop.simps [of r a off dat len dn cb s, unfolded Let_def, folded c_def p_def v_def, folded k_def]
  have W: "stays s (case ntfs_write_clusters l 1 b s of (ok2, s') \<Rightarrow>
      if \<not> ok2 then Some (dn, s') else write_nonres_loop r a off dat len (dn + k) b s')"
    if "dn < len" "c \<noteq> 0" for l b
  proof -
    obtain ok s' where w: "ntfs_write_clusters l 1 b s = (ok, s')" by fastforce
    then obtain d where d: "s' = s\<lparr>disk := d\<rparr>"
      using staysD [OF stays_write_sectors] unfolding ntfs_write_clusters_def by metis
    have "len - (dn + k) < len - dn" unfolding k_def by (rule chunk_progress) (use that in simp_all)
    then have "stays s' (write_nonres_loop r a off dat len (dn + k) b s')" by (rule less)
    then have "stays s (write_nonres_loop r a off dat len (dn + k) b s')" unfolding d by (rule stays_trans)
    moreover have "stays s (Some (dn, s'))" unfolding d by (rule stays_trans [OF stays_refl])
    ultimately show ?thesis using w by simp
  qed
  show ?case unfolding step
    by (rule stays_if, rule stays_if, rule stays_None, rule stays_option, rule stays_None, rule stays_option,
        rule stays_refl, (rule stays_prod)+, rule stays_if, rule stays_refl, rule stays_prod, rule stays_if,
        rule stays_refl, rule W, assumption+, rule stays_refl)
qed

lemma stays_write_nonresident [stays_rules]: "heap_inv (nheap s) \<Longrightarrow> stays s (write_nonresident r a off dat len s)"
  unfolding write_nonresident_def Let_def
  by (rule stays_if, rule stays_refl, rule stays_with_buf, assumption, rule stays_bind) (intro stays_rules)+

lemma stays_write_resident [stays_rules]:
  assumes H: "heap_inv (nheap s)"
  shows "stays s (write_resident rno r a off dat len set_eof parent s)"
proof -
  have sub: "stays s (let r1 = r0; alloc = al in if resizing
       then do { r2 \<leftarrow> f r1 alloc;
                 (upd, s1) \<leftarrow> (if parent \<noteq> 0 then ntfs_index_update_size parent rno (ucast nl) alloc s else Some (False, s));
                 Some (r2, s1) }
       else Some (r1, s))" for r0 al resizing f and nl :: u32
    unfolding Let_def
    by (rule stays_if, rule stays_pure, rule stays_bind) (intro stays_rules H)+
  show ?thesis unfolding write_resident_def
    by (rule stays_option, rule stays_refl, rule stays_prod, rule stays_prod, rule stays_bind, rule sub, rule stays_bind)
      (intro stays_rules)+
qed

lemma stays_write_file: "heap_inv (nheap s) \<Longrightarrow> stays s (ntfs_write_file rno off dat len set_eof parent s)"
  unfolding ntfs_write_file_def by (intro stays_rules stays_with_buf) simp_all

lemma stays_create_file: "heap_inv (nheap s) \<Longrightarrow> stays s (ntfs_create_file parent nm dir content len s)"
  unfolding ntfs_create_file_def ntfs_index_insert_def
  by (rule stays_if, rule stays_refl, rule stays_bind, erule stays_find_free, rule stays_if, rule stays_refl,
      rule stays_bind, rule stays_with_buf, simp, rule stays_pure, rule stays_write_record,
      rule stays_if, rule stays_refl, rule stays_bind, rule stays_index_edit, simp, rule stays_if, rule stays_refl,
      rule stays_bind, rule stays_free_record, simp, rule stays_refl)

lemma stays_delete_file: "heap_inv (nheap s) \<Longrightarrow> stays s (ntfs_delete_file parent child s)"
  unfolding ntfs_delete_file_def ntfs_index_remove_def
  by (rule stays_if, rule stays_refl, rule stays_bind, erule stays_index_edit, rule stays_bind,
      rule stays_free_record, simp, rule stays_refl)


definition broken_disk :: ntfs_state where "broken_disk = demo_state\<lparr>bad := (\<lambda>_. True)\<rparr>"

lemma broken_fields [simp]:
  "s_vol broken_disk = demo_vol" "nheap broken_disk = heap_init" "bad broken_disk l"
  by (simp_all add: broken_disk_def)

lemma broken_read: "ntfs_read_sectors (broken_disk\<lparr>nheap := h\<rparr>) vs (record_sectors (broken_disk\<lparr>nheap := h\<rparr>)) b = (b, False)"
proof -
  have "unat (record_sectors (broken_disk\<lparr>nheap := h\<rparr>)) = Suc 1" by (simp add: record_sectors_def)
  then show ?thesis by (simp add: ntfs_read_sectors_def)
qed

lemma broken_record: "ntfs_read_mft_record (broken_disk\<lparr>nheap := h\<rparr>) rno b = Some (b, False)"
  by (simp add: ntfs_read_mft_record_def broken_read)

lemma demo_alloc: obtains h p where "kmalloc 1024 heap_init = (h, p)" "p \<noteq> 0"
proof -
  have "snd (kmalloc 1024 heap_init) \<noteq> 0" by (simp add: kmalloc_def heap_init_def heap_consts align16_unat)
  then show ?thesis using that by (cases "kmalloc 1024 heap_init") simp
qed

lemma broken_buf:
  assumes "\<And>b h. f b (broken_disk\<lparr>nheap := h\<rparr>) = Some (x, broken_disk\<lparr>nheap := h\<rparr>)"
  shows "with_buf 1024 r f broken_disk = Some (x, broken_disk)"
proof -
  obtain h p where hp: "kmalloc 1024 heap_init = (h, p)" "p \<noteq> 0" by (rule demo_alloc)
  show ?thesis by (rule with_buf_run [where h = h and p = p]) (use hp assms in \<open>simp_all add: heap_init_inv\<close>)
qed


section \<open>Deletion frees the record\<close>

lemma clear_in_use_flag: "rd16 (clear_in_use r) 0x16 AND MFT_FLAG_IN_USE = 0"
  unfolding clear_in_use_def rd16_wr_le by (rule bit_word_eqI) (auto simp add: bit_simps MFT_FLAG_IN_USE_def)

text \<open>Deleting a file marks its record as free on the disk whether or not the directory lists it: after
  \<open>ntfs_delete_file\<close> the record reads back without the in-use flag, and the result only repeats
  whether the entry was removed from the directory's index, so a deletion that fails because the child is
  not in that directory still destroys the file, which the directory that does list it keeps naming.\<close>
theorem delete_frees_record:
  assumes "heap_inv (nheap s)" "\<forall>l. \<not> bad s l" "mounted (s_vol s)"
    "ntfs_index_remove parent child s = Some (listed, s1)"
    "kmalloc (ucast (mft_record_size (s_vol s))) (nheap s) = (h, p)" "p \<noteq> 0"
    "ntfs_read_mft_record (s1\<lparr>nheap := h\<rparr>) child (junk s p) = Some (r, True)"
    "is_magic ''FILE'' r 0" "rec_layout (s_vol s) r n" "0x18 \<le> unat (rd16 r 0x04)"
  shows "\<exists>s2. ntfs_delete_file parent child s = Some (listed, s2) \<and>
    (\<forall>b. \<exists>r'. ntfs_read_mft_record s2 child b = Some (r', True) \<and> rd16 r' 0x16 AND MFT_FLAG_IN_USE = 0)"
proof -
  obtain d1 where s1: "s1 = s\<lparr>disk := d1\<rparr>"
    using staysD [OF stays_index_edit [OF assms(1)]] assms(4) unfolding ntfs_index_remove_def by metis
  let ?c = "clear_in_use r" and ?s = "s1\<lparr>nheap := h\<rparr>"
  have low: "?c x = r x" if "x < 0x16" for x using that by (simp add: clear_in_use_def wr_le_other)
  have m: "is_magic ''FILE'' ?c 0" using assms(8) is_magic_cong [of "''FILE''" ?c 0 r] low by simp
  have u: "rd16 ?c 0x04 = rd16 r 0x04" "rd16 ?c 0x06 = rd16 r 0x06" by (rule rd16_cong; simp add: low)+
  have l: "rec_layout (s_vol ?s) ?c n" using assms(9) by (simp add: rec_layout_def u s1)
  obtain d where d: "ntfs_write_mft_record child ?c ?s = Some (True, ?s\<lparr>disk := d\<rparr>)"
    "\<And>h b0. \<exists>r'. ntfs_read_mft_record (?s\<lparr>nheap := h, disk := d\<rparr>) child b0 = Some (r', True) \<and>
       (\<forall>x < n * 512. \<not> in_usa ?c n x \<longrightarrow> r' x = ?c x)"
    using record_write_read_lib [of ?s ?c n child] assms(2,3) l m s1 by auto
  have "free_record child s1 = Some (Some True, s1\<lparr>disk := d\<rparr>)"
    using assms(5,6,7) d(1) kmalloc_kfree_lib [OF assms(1,5,6)]
    by (simp add: free_record_def with_buf_def s1)
  then have del: "ntfs_delete_file parent child s = Some (listed, s1\<lparr>disk := d\<rparr>)"
    using assms(3,4) by (simp add: ntfs_delete_file_def)
  have "\<exists>r'. ntfs_read_mft_record (s1\<lparr>disk := d\<rparr>) child b = Some (r', True) \<and> rd16 r' 0x16 AND MFT_FLAG_IN_USE = 0" for b
  proof -
    obtain r' where r': "ntfs_read_mft_record (s1\<lparr>disk := d\<rparr>) child b = Some (r', True)"
      "\<forall>x < n * 512. \<not> in_usa ?c n x \<longrightarrow> r' x = ?c x" using d(2) [of "nheap s1" b] by auto
    have "0 < n" using assms(9) by (simp add: rec_layout_def fix_layout_def)
    then have "r' 0x16 = ?c 0x16" "r' 0x17 = ?c 0x17" using r'(2) assms(10) by (auto simp: in_usa_def u)
    then have "rd16 r' 0x16 = rd16 ?c 0x16" by (intro rd16_cong) simp_all
    then show ?thesis using r'(1) clear_in_use_flag by auto
  qed
  then show ?thesis using del by blast
qed

theorem delete_frees_record_witness:
  "\<exists>d s2 r. ntfs_delete_file 0 5 (demo_state\<lparr>disk := d\<rparr>) = Some (False, s2) \<and>
     ntfs_read_mft_record s2 5 (\<lambda>_. 0) = Some (r, True) \<and> rd16 r 0x16 AND MFT_FLAG_IN_USE = 0"
proof -
  have f: "rd16 demo_rec 0x04 = 0x30" "rd16 demo_rec 0x06 = 3" by (simp_all add: rd16_def demo_rec_def)
  have l: "rec_layout (s_vol demo_state) demo_rec 2" by (simp add: rec_layout_def fix_layout_def f)
  have m: "is_magic ''FILE'' demo_rec 0" by (auto simp: is_magic_def demo_rec_def less_Suc_eq numeral_eq_Suc)
  have b: "\<forall>l. \<not> bad demo_state l" by (simp add: demo_state_def demo_ntfs_def)
  have "mounted (s_vol demo_state)" by simp
  from record_write_read_lib [OF b this l m, of 5] obtain d where
    d: "\<And>l. (\<forall>k < 2. l \<noteq> sector_lba demo_state (record_sector demo_state 5) k) \<Longrightarrow> d l = disk demo_state l"
    "\<And>h b0. \<exists>r. ntfs_read_mft_record (demo_state\<lparr>nheap := h, disk := d\<rparr>) 5 b0 = Some (r, True) \<and>
       (\<forall>x < 2 * 512. \<not> in_usa demo_rec 2 x \<longrightarrow> r x = demo_rec x)" by blast
  let ?s = "demo_state\<lparr>disk := d\<rparr>"
  obtain h p where hp: "kmalloc 1024 heap_init = (h, p)" "p \<noteq> 0" by (rule demo_alloc)
  have comm: "?s\<lparr>nheap := h\<rparr> = demo_state\<lparr>nheap := h, disk := d\<rparr>" by (rule ntfs_state.equality) simp_all
  obtain r where r: "ntfs_read_mft_record (?s\<lparr>nheap := h\<rparr>) 5 (junk ?s p) = Some (r, True)"
    "\<forall>x < 2 * 512. \<not> in_usa demo_rec 2 x \<longrightarrow> r x = demo_rec x" using d(2) [of h "junk ?s p", folded comm] by auto
  have low: "r x = demo_rec x" if "x < 8" for x using r(2) that by (simp add: in_usa_def f)
  have u: "rd16 r 0x04 = 0x30" "rd16 r 0x06 = 3" using low f by (simp_all add: rd16_def)
  have rl: "rec_layout (s_vol ?s) r 2" by (simp add: rec_layout_def fix_layout_def u)
  have rm: "is_magic ''FILE'' r 0" using m is_magic_cong [of "''FILE''" r 0 demo_rec] low by simp
  have zero: "d 0 = (\<lambda>_. 0)"
  proof -
    have "sector_lba demo_state (record_sector demo_state 5) k = of_nat (10 + k)" for k
      by (simp add: sector_lba_eq record_sector_def)
    moreover have "(0 :: u32) \<noteq> of_nat (10 + k)" if "k < 2" for k
    proof -
      have "k = 0 \<or> k = 1" using that by linarith
      then show ?thesis by auto
    qed
    ultimately have "d 0 = disk demo_state 0" by (intro d(1)) (simp only:, blast)
    then show ?thesis by (simp add: demo_state_def demo_ntfs_def)
  qed
  have ir: "ntfs_index_remove 0 5 ?s = Some (False, ?s)"
  proof -
    let ?h = "?s\<lparr>nheap := h\<rparr>"
    have cnt: "unat (record_sectors ?h) = Suc 1" by (simp add: record_sectors_def)
    have s0: "sector_lba ?h (record_sector ?h 0) 0 = 0" "sector_lba ?h (record_sector ?h 0) 1 = 1"
      by (simp_all add: sector_lba_def record_sector_def)
    have nb: "\<not> bad ?h l" for l using b by simp
    obtain b1 where b1: "ntfs_read_sectors ?h (record_sector ?h 0) (record_sectors ?h) (\<lambda>_. 0) = (b1, True)" "b1 0 = 0"
      using s0 nb zero unfolding ntfs_read_sectors_def cnt
      by (simp add: Let_def HAL_SECTOR_SIZE_def put_bytes_def)
    have "\<not> is_magic ''FILE'' b1 0" using b1(2) by (auto simp: is_magic_def intro!: exI [of _ 0])
    then have "ntfs_read_mft_record ?h 0 (\<lambda>_. 0) = Some (b1, False)" using b1(1) by (simp add: ntfs_read_mft_record_def)
    then show ?thesis unfolding ntfs_index_remove_def index_edit_def
      by (intro with_buf_run [where h = h and p = p]) (use hp in \<open>simp_all add: heap_init_inv\<close>)
  qed
  have k: "kmalloc (ucast (mft_record_size (s_vol ?s))) (nheap ?s) = (h, p)" using hp by simp
  have hi: "heap_inv (nheap ?s)" by (simp add: heap_init_inv)
  have nb: "\<forall>l. \<not> bad ?s l" using b by simp
  have mo: "mounted (s_vol ?s)" by simp
  have us: "0x18 \<le> unat (rd16 r 0x04)" by (simp add: u)
  from delete_frees_record [OF hi nb mo ir k hp(2) r(1) rm rl us] show ?thesis by blast
qed

end
