(* ===== verification/NtfsIndex.thy ===== *)
theory NtfsIndex
  imports NtfsWrite
begin

text \<open>
  The entry that \<open>ntfs_index_insert\<close> adds to the index root of a directory is listed by
  \<open>ntfs_walk_index_entries\<close>, behind the entries that were there, which stay as they were.
\<close>

section \<open>Buffers that agree\<close>

text \<open>Buffers that agree from \<open>a\<close> up to \<open>z\<close>.\<close>

definition agree :: "nat \<Rightarrow> nat \<Rightarrow> buf \<Rightarrow> buf \<Rightarrow> bool" where
  "agree a z b b' \<longleftrightarrow> (\<forall>x. a \<le> x \<and> x < z \<longrightarrow> b x = b' x)"

lemma agree_rd:
  assumes "agree a z b b'" "a \<le> p"
  shows "p + 2 \<le> z \<Longrightarrow> rd16 b p = rd16 b' p" "p + 4 \<le> z \<Longrightarrow> rd32 b p = rd32 b' p" "p + 8 \<le> z \<Longrightarrow> rd64 b p = rd64 b' p"
    "p < z \<Longrightarrow> b p = b' p"
  using assms by (simp_all add: agree_def rd16_def rd32_def rd64_def)

lemma agree_utf16: "agree a z b b' \<Longrightarrow> a \<le> p \<Longrightarrow> p + 2 * n \<le> z \<Longrightarrow> utf16_to_ascii b p n m = utf16_to_ascii b' p n m"
  unfolding utf16_to_ascii_def by (intro arg_cong [where f = "takeWhile _"] map_cong refl arg_cong [where f = utf16_char] agree_rd) auto

section \<open>A chain of entries up to the end entry\<close>

fun chain :: "nat \<Rightarrow> buf \<Rightarrow> nat \<Rightarrow> nat \<Rightarrow> bool" where
  "chain 0 b e ee \<longleftrightarrow> e = ee"
| "chain (Suc n) b e ee \<longleftrightarrow>
     0x10 \<le> unat (rd16 b (e + 8)) \<and> rd16 b (e + 0x0C) AND INDEX_ENTRY_END = 0 \<and>
     0x10 + unat (rd16 b (e + 0x0A)) \<le> unat (rd16 b (e + 8)) \<and>
     (0x42 \<le> unat (rd16 b (e + 0x0A)) \<longrightarrow> 0x52 + 2 * unat (b (e + 0x50)) \<le> unat (rd16 b (e + 8))) \<and>
     chain n b (e + unat (rd16 b (e + 8))) ee"

lemma chain_le: "chain n b e ee \<Longrightarrow> e \<le> ee"
  by (induction n arbitrary: e) fastforce+

lemma chain_end:
  "chain n b e ee \<Longrightarrow> ee + 0x10 \<le> fin \<Longrightarrow> 0x10 \<le> unat (rd16 b (ee + 8)) \<Longrightarrow> rd16 b (ee + 0x0C) AND INDEX_ENTRY_END \<noteq> 0 \<Longrightarrow>
   find_end_entry b e fin = Some ee"
proof (induction n arbitrary: e)
  case 0
  then show ?case by (subst find_end_entry.simps) (simp add: Let_def)
next
  case (Suc n)
  have c: "chain n b (e + unat (rd16 b (e + 8))) ee" "0x10 \<le> unat (rd16 b (e + 8))" "rd16 b (e + 0x0C) AND INDEX_ENTRY_END = 0"
    using Suc.prems(1) by auto
  then have "e + 0x10 \<le> fin" using chain_le [OF c(1)] Suc.prems(2) by linarith
  then show ?case using c Suc.IH [OF c(1) Suc.prems(2-)] by (subst find_end_entry.simps) (simp add: Let_def)
qed

text \<open>The entries of a chain are listed the same in any buffer that agrees on them, with whatever the walk
  lists from its end on behind them.\<close>

lemma index_entry_fields:
  "index_entry b e lim =
     (if 0x42 \<le> unat (rd16 b (e + 0x0A)) \<and> e + 0x10 + unat (rd16 b (e + 0x0A)) \<le> lim
      then (let d = (rd32 b (e + 0x48) AND FILE_ATTR_DIRECTORY \<noteq> 0);
                nm = utf16_to_ascii b (e + 0x52) (unat (b (e + 0x50))) (NTFS_MAX_NAME + 1)
            in if b (e + 0x51) \<noteq> 2 \<and> b (e + 0x50) \<noteq> 0 \<and> nm \<noteq> ''.''
               then [\<lparr>mft_record = rd64 b e AND 0x0000FFFFFFFFFFFF, is_dir = d,
                      fsize = (if d then 0 else rd64 b (e + 0x40)), fname = nm\<rparr>]
               else [])
      else [])"
proof -
  have o: "e + 0x10 + 0x38 = e + 0x48" "e + 0x10 + 0x42 = e + 0x52" "e + 0x10 + 0x40 = e + 0x50" "e + 0x10 + 0x41 = e + 0x51"
    "e + 0x10 + 0x30 = e + 0x40" by simp_all
  show ?thesis unfolding index_entry_def Let_def o ..
qed

lemma walk_chain:
  "chain n b e ee \<Longrightarrow> agree e ee b b' \<Longrightarrow> ee + 0x10 \<le> fin \<Longrightarrow> ee + 0x10 \<le> fin' \<Longrightarrow>
   \<exists>es. ntfs_walk_index_entries b e fin = es @ ntfs_walk_index_entries b ee fin \<and>
     ntfs_walk_index_entries b' e fin' = es @ ntfs_walk_index_entries b' ee fin'"
proof (induction n arbitrary: e)
  case (Suc n)
  let ?l = "unat (rd16 b (e + 8))"
  have c: "0x10 \<le> ?l" "rd16 b (e + 0x0C) AND INDEX_ENTRY_END = 0" "0x10 + unat (rd16 b (e + 0x0A)) \<le> ?l"
    "0x42 \<le> unat (rd16 b (e + 0x0A)) \<longrightarrow> 0x52 + 2 * unat (b (e + 0x50)) \<le> ?l" "chain n b (e + ?l) ee"
    using Suc.prems(1) by simp_all
  have le: "e + ?l \<le> ee" by (rule chain_le [OF c(5)])
  have ag: "agree (e + ?l) ee b b'" using Suc.prems(2) by (auto simp: agree_def)
  obtain es where es: "ntfs_walk_index_entries b (e + ?l) fin = es @ ntfs_walk_index_entries b ee fin"
    "ntfs_walk_index_entries b' (e + ?l) fin' = es @ ntfs_walk_index_entries b' ee fin'"
    using Suc.IH [OF c(5) ag Suc.prems(3,4)] by blast
  note R = agree_rd [OF Suc.prems(2)]
  have r: "rd16 b (e + 8) = rd16 b' (e + 8)" "rd16 b (e + 0x0A) = rd16 b' (e + 0x0A)" "rd16 b (e + 0x0C) = rd16 b' (e + 0x0C)"
    using c(1) le by (auto intro: R)
  have ie: "index_entry b e fin = index_entry b' e fin'"
  proof (cases "0x42 \<le> unat (rd16 b (e + 0x0A))")
    case True
    then have k: "0x52 \<le> ?l" "0x52 + 2 * unat (b (e + 0x50)) \<le> ?l" using c by linarith+
    have r': "b (e + 0x50) = b' (e + 0x50)" "b (e + 0x51) = b' (e + 0x51)" "rd32 b (e + 0x48) = rd32 b' (e + 0x48)"
      "rd64 b (e + 0x40) = rd64 b' (e + 0x40)" "rd64 b e = rd64 b' e"
      using k(1) le by (auto intro: R)
    have "utf16_to_ascii b (e + 0x52) (unat (b (e + 0x50))) m = utf16_to_ascii b' (e + 0x52) (unat (b (e + 0x50))) m" for m
      using k le by (intro agree_utf16 [OF Suc.prems(2)]) auto
    moreover have "e + 0x10 + unat (rd16 b' (e + 0x0A)) \<le> fin \<and> e + 0x10 + unat (rd16 b' (e + 0x0A)) \<le> fin'"
      using c(3) le Suc.prems(3,4) r(2) by simp
    ultimately show ?thesis unfolding index_entry_fields Let_def r r' by (simp only: if_True)
  next
    case False
    then show ?thesis using r(2) by (simp add: index_entry_fields)
  qed
  have lim: "e + 0x10 \<le> fin" "e + 0x10 \<le> fin'" using c(1) le Suc.prems(3,4) by linarith+
  have "ntfs_walk_index_entries b e fin = index_entry b e fin @ ntfs_walk_index_entries b (e + ?l) fin"
    using c lim by (subst ntfs_walk_index_entries.simps) (simp add: Let_def)
  moreover have "ntfs_walk_index_entries b' e fin' = index_entry b' e fin' @ ntfs_walk_index_entries b' (e + ?l) fin'"
    using c lim r by (subst ntfs_walk_index_entries.simps) (simp add: Let_def)
  ultimately show ?case using es ie by auto
qed auto

section \<open>The new entry\<close>

definition printable :: "string \<Rightarrow> bool" where
  "printable nm \<longleftrightarrow> (\<forall>c \<in> set nm. 0x20 \<le> (of_char c :: nat) \<and> (of_char c :: nat) < 0x7F)"

lemma printable_char:
  assumes "0x20 \<le> (of_char c :: nat)" "(of_char c :: nat) < 0x7F"
  shows "utf16_char (ucast (of_char c :: u8)) = c" "c \<noteq> CHR 0x00"
proof -
  have w: "(of_char c :: u8) = of_nat (of_char c :: nat)" by (rule of_nat_of_char [symmetric])
  have u8: "unat (of_char c :: u8) = of_char c" unfolding w by (rule unat_of_nat_small) (use assms in simp)
  have "(ucast (of_char c :: u8) :: u16) = of_nat (of_char c)" unfolding u8 [symmetric] by simp
  moreover have "unat (of_nat (of_char c) :: u16) = of_char c" by (rule unat_of_nat_small) (use assms in simp)
  ultimately have u: "unat (ucast (of_char c :: u8) :: u16) = of_char c" by (simp only:)
  have "0x20 \<le> (ucast (of_char c :: u8) :: u16)" "(ucast (of_char c :: u8) :: u16) < 0x7F"
    using assms u by (simp_all only: word_le_nat_alt word_less_nat_alt) simp_all
  then show "utf16_char (ucast (of_char c :: u8)) = c" unfolding utf16_char_def u by (simp only: if_True char_of_char simp_thms)
  show "c \<noteq> CHR 0x00" using assms(1) by auto
qed

lemma utf16_roundtrip:
  assumes "printable nm" "length nm < m" "agree p (p + 2 * length nm) b (ascii_to_utf16 nm (length nm) p b0)"
  shows "utf16_to_ascii b p (length nm) m = nm"
proof -
  have ch: "utf16_char (rd16 b (p + i * 2)) = nm ! i" if i: "i < length nm" for i
  proof -
    have "b (p + i * 2) = of_char (nm ! i)" "b (p + i * 2 + 1) = 0"
      using assms(3) i by (auto simp: agree_def ascii_to_utf16_def)
    then have "rd16 b (p + i * 2) = ucast (of_char (nm ! i) :: u8)" by (simp add: rd16_def)
    moreover have "0x20 \<le> (of_char (nm ! i) :: nat)" "(of_char (nm ! i) :: nat) < 0x7F"
      using assms(1) nth_mem [OF i] by (auto simp: printable_def)
    ultimately show ?thesis using printable_char(1) by metis
  qed
  have "map (\<lambda>i. utf16_char (rd16 b (p + i * 2))) [0..<min (length nm) (m - 1)] = nm"
    using assms(2) ch by (intro nth_equalityI) simp_all
  moreover have "takeWhile (\<lambda>c. c \<noteq> CHR 0x00) nm = nm"
    using assms(1) printable_char(2) by (simp add: printable_def takeWhile_eq_all_conv)
  ultimately show ?thesis by (simp only: utf16_to_ascii_def)
qed

lemma ucast_up_down: "(ucast (ucast (x :: u32) :: u64) :: u32) = x" "(ucast (ucast (y :: u16) :: u64) :: u16) = y"
  by (rule bit_word_eqI, simp add: bit_ucast_iff possible_bit_def)+

lemma filename_fields:
  assumes "build_filename_content pr nm flags real alloc out = (key, klen)" "length nm \<le> 127"
  shows "unat klen = 66 + 2 * length nm" "rd64 key 0x30 = real" "rd32 key 0x38 = flags" "key 0x40 = of_nat (length nm)"
    "key 0x41 = 3" "agree 66 (66 + 2 * length nm) key (ascii_to_utf16 nm (length nm) 66 key)"
proof -
  define b3 where "b3 = wr_le 60 0 4 (wr_le 56 (ucast flags) 4 (wr_le 48 real 8 (wr_le 40 alloc 8
    (fold (\<lambda>i. wr_le (8 + i * 8) NT_TIME_FIXED 8) [0..<4] (wr_le 0 pr 8 out)))))"
  have key: "key = ascii_to_utf16 nm (length nm) 66 (b3(64 := of_nat (length nm), 65 := 3))"
    and kl: "klen = 66 + of_nat (length nm) * 2"
    using assms(1) by (simp_all only: build_filename_content_def Let_def b3_def prod.inject)
  have "klen = of_nat (66 + 2 * length nm)" by (simp add: kl)
  then show "unat klen = 66 + 2 * length nm" using assms(2) by (simp only:) (rule unat_of_nat_small, simp)
  have ag: "agree 0 64 key b3" by (simp add: agree_def key ascii_to_utf16_def)
  have "rd64 b3 0x30 = real" by (simp add: b3_def rd_wr_other rd64_wr_le)
  then show "rd64 key 0x30 = real" using agree_rd(3) [OF ag, where p = "0x30"] by simp
  have "rd32 b3 0x38 = flags" by (simp add: b3_def rd_wr_other rd32_wr_le ucast_up_down)
  then show "rd32 key 0x38 = flags" using agree_rd(2) [OF ag, where p = "0x38"] by simp
  show "key 0x40 = of_nat (length nm)" "key 0x41 = 3" by (simp_all add: key ascii_to_utf16_def)
  show "agree 66 (66 + 2 * length nm) key (ascii_to_utf16 nm (length nm) 66 key)"
    by (simp add: agree_def key ascii_to_utf16_def)
qed

lemma align8_unat: "unat x + 7 < 2 ^ 32 \<Longrightarrow> unat (align8 x) = (unat x + 7) div 8 * 8"
proof -
  assume "unat x + 7 < 2 ^ 32"
  then have "unat (of_nat (unat x + 7) :: u32) = unat x + 7" by (intro unat_of_nat_small) simp
  then have s: "unat (x + 7) = unat x + 7" by simp
  have "(7 :: u32) = mask 3" by (simp add: mask_eq_exp_minus_1)
  then show ?thesis unfolding align8_def using unat_and_not_mask [of "x + 7" 3] s by simp
qed

lemma put_entry_fields:
  fixes ne el :: nat and child :: u64 and key r :: buf and klen elen :: u32
  assumes "16 + unat klen \<le> unat elen" "unat elen < 2 ^ 16" "(elen > 16 + klen) = (unat elen > 16 + unat klen)"
    "unat (elen - (16 + klen)) = unat elen - (16 + unat klen)"
  defines "q \<equiv> put_entry ne el child elen klen key r"
  shows "agree 0 ne q r" "rd64 q ne = child" "rd16 q (ne + 0x08) = ucast elen" "rd16 q (ne + 0x0A) = ucast klen"
    "rd16 q (ne + 0x0C) = 0" "\<And>j. j < unat klen \<Longrightarrow> q (ne + 0x10 + j) = key j"
    "\<And>j. j < el \<Longrightarrow> q (ne + unat elen + j) = r (ne + j)"
proof -
  define r1 where "r1 = put_bytes el (ne + unat elen) (\<lambda>i. r (ne + i)) r"
  define r2 where "r2 = wr_le (ne + 0x0C) 0 4 (wr_le (ne + 0x0A) (ucast klen) 2 (wr_le (ne + 0x08) (ucast elen) 2 (wr_le ne child 8 r1)))"
  define r3 where "r3 = put_bytes (unat klen) (ne + 0x10) key r2"
  have q: "q = (if unat elen > 16 + unat klen then put_zero (unat elen - (16 + unat klen)) (ne + 0x10 + unat klen) r3 else r3)"
    unfolding q_def put_entry_def Let_def assms(3,4) r1_def [symmetric] r2_def [symmetric] r3_def [symmetric] ..
  have low: "agree 0 (ne + 0x10) q r2" by (auto simp: agree_def q r3_def put_zero_def put_bytes_def)
  have "agree 0 ne r2 r1" by (auto simp: agree_def r2_def wr_le_other)
  moreover have "agree 0 ne r1 r" using assms(1) by (auto simp: agree_def r1_def put_bytes_def)
  ultimately show "agree 0 ne q r" using low by (auto simp: agree_def)
  note R = agree_rd [OF low le0]
  have f: "rd64 r2 ne = child" "rd16 r2 (ne + 0x08) = ucast elen" "rd16 r2 (ne + 0x0A) = ucast klen" "rd16 r2 (ne + 0x0C) = 0"
  proof -
    show "rd64 r2 ne = child" by (simp add: r2_def rd_wr_other rd64_wr_le)
    show "rd16 r2 (ne + 0x08) = ucast elen"
      by (simp add: r2_def rd_wr_other rd16_wr_le) (rule bit_word_eqI, simp add: bit_ucast_iff possible_bit_def)
    show "rd16 r2 (ne + 0x0A) = ucast klen"
      by (simp add: r2_def rd_wr_other rd16_wr_le) (rule bit_word_eqI, simp add: bit_ucast_iff possible_bit_def)
    show "rd16 r2 (ne + 0x0C) = 0" by (simp add: r2_def rd16_def wr_le_def)
  qed
  show "rd64 q ne = child" "rd16 q (ne + 0x08) = ucast elen" "rd16 q (ne + 0x0A) = ucast klen" "rd16 q (ne + 0x0C) = 0"
    using f R(1) [where p = "ne + 8"] R(1) [where p = "ne + 10"] R(1) [where p = "ne + 12"] R(3) [where p = ne] by simp_all
  show "q (ne + 0x10 + j) = key j" if "j < unat klen" for j
    using that by (auto simp: q r3_def put_zero_def put_bytes_def)
  show "q (ne + unat elen + j) = r (ne + j)" if "j < el" for j
  proof -
    have "q (ne + unat elen + j) = r2 (ne + unat elen + j)" using assms(1) by (auto simp: q r3_def put_zero_def put_bytes_def)
    also have "\<dots> = r1 (ne + unat elen + j)" using assms(1) by (simp add: r2_def wr_le_other)
    also have "\<dots> = r (ne + j)" using that by (simp add: r1_def put_bytes_def)
    finally show ?thesis .
  qed
qed

section \<open>Insertion adds exactly the new entry\<close>

text \<open>The entries of the resident index root at \<open>ir\<close>, as \<open>ntfs_list_dir\<close> walks them.\<close>

definition root_entries :: "buf \<Rightarrow> u32 \<Rightarrow> NTFS_FILE_INFO list" where
  "root_entries r ir = (case attr_resident_data r ir of (root, clen) \<Rightarrow> walk_node r (root + 0x10) (root + unat clen))"

text \<open>A well-formed index root in a record of \<open>rs\<close> bytes: the content lies behind the headers, its entries form
  a chain that ends in an end entry of 16 bytes at \<open>ee\<close>, and the lengths say so.\<close>

definition root_ok :: "nat \<Rightarrow> buf \<Rightarrow> u32 \<Rightarrow> nat \<Rightarrow> nat \<Rightarrow> bool" where
  "root_ok rs r ir n ee \<longleftrightarrow>
     (let c = unat (rd16 r (unat ir + 0x14)); root = unat ir + c; node = root + 0x10 in
      rs \<le> 8192 \<and> 0x20 \<le> unat ir \<and> 0x18 \<le> c \<and> 0x10 \<le> unat (rd32 r node) \<and>
      chain n r (node + unat (rd32 r node)) ee \<and> rd16 r (ee + 8) = 16 \<and> rd16 r (ee + 0x0C) AND INDEX_ENTRY_END \<noteq> 0 \<and>
      node + unat (rd32 r (node + 4)) = ee + 16 \<and> root + unat (rd32 r (unat ir + 0x10)) = ee + 16 \<and> ee + 16 \<le> rs)"

lemma rd32_shift:
  assumes "\<forall>j < K. b (p + j) = key j" "x + 4 \<le> K"
  shows "rd32 b (p + x) = rd32 key x"
proof -
  have "b (p + (x + i)) = key (x + i)" if "i < 4" for i using assms that by simp
  from this [of 0] this [of 1] this [of 2] this [of 3] show ?thesis by (simp add: rd32_def add.assoc)
qed

lemma rd64_shift:
  assumes "\<forall>j < K. b (p + j) = key j" "x + 8 \<le> K"
  shows "rd64 b (p + x) = rd64 key x"
  using rd32_shift [OF assms(1), of x] rd32_shift [OF assms(1), of "x + 4"] assms(2)
  by (simp add: rd64_def add.assoc)

lemma unat_add32: "unat x + unat y < 2 ^ 32 \<Longrightarrow> unat (x + y :: u32) = unat x + unat y"
  by (simp add: unat_word_ariths)

lemma new_entry_listed:
  assumes key: "\<And>j. j < 66 + 2 * length nm \<Longrightarrow> b (ee + 0x10 + j) = key j"
    and fields: "rd64 key 0x30 = real" "rd32 key 0x38 = flags" "key 0x40 = of_nat (length nm)" "key 0x41 = 3"
      "agree 66 (66 + 2 * length nm) key (ascii_to_utf16 nm (length nm) 66 key)"
    and head: "rd64 b ee = child" "unat (rd16 b (ee + 0x0A)) = 66 + 2 * length nm" "ee + 0x52 + 2 * length nm \<le> fin"
    and nm: "printable nm" "nm \<noteq> []" "nm \<noteq> ''.''" "length nm \<le> 127"
  shows "index_entry b ee fin = [\<lparr>mft_record = child AND 0x0000FFFFFFFFFFFF, is_dir = (flags AND FILE_ATTR_DIRECTORY \<noteq> 0),
    fsize = (if flags AND FILE_ATTR_DIRECTORY \<noteq> 0 then 0 else real), fname = nm\<rparr>]"
proof -
  have "rd32 b (ee + 0x10 + 0x38) = rd32 key 0x38" "rd64 b (ee + 0x10 + 0x30) = rd64 key 0x30"
    by (rule rd32_shift rd64_shift, use key in blast, simp)+
  moreover have "ee + 0x10 + 0x38 = ee + 0x48" "ee + 0x10 + 0x30 = ee + 0x40" by simp_all
  ultimately have a: "rd32 b (ee + 0x48) = flags" "rd64 b (ee + 0x40) = real" by (simp_all only: fields)
  have l: "b (ee + 0x50) = of_nat (length nm)" "b (ee + 0x51) = 3" 
  proof -
    have o: "ee + 0x10 + 0x40 = ee + 0x50" "ee + 0x10 + 0x41 = ee + 0x51" by simp_all
    show "b (ee + 0x50) = of_nat (length nm)" using key [of "0x40"] unfolding o fields by simp
    show "b (ee + 0x51) = 3" using key [of "0x41"] unfolding o fields by simp
  qed
  have ln: "unat (of_nat (length nm) :: u8) = length nm" by (rule unat_of_nat_small) (use nm(4) in simp)
  have "agree (ee + 0x52) (ee + 0x52 + 2 * length nm) b (ascii_to_utf16 nm (length nm) (ee + 0x52) b)"
    unfolding agree_def
  proof (intro allI impI)
    fix x assume x: "ee + 0x52 \<le> x \<and> x < ee + 0x52 + 2 * length nm"
    define y where "y = x - (ee + 0x52)"
    have y: "x = ee + 0x52 + y" "y < 2 * length nm" using x unfolding y_def by linarith+
    have "ee + 0x10 + (66 + y) = x" using y by simp
    then have "b x = key (66 + y)" using key [of "66 + y"] y(2) by (simp only:)
    also have "\<dots> = ascii_to_utf16 nm (length nm) 66 key (66 + y)" using fields(5) y(2) by (simp add: agree_def)
    also have "\<dots> = ascii_to_utf16 nm (length nm) (ee + 0x52) b x" using y by (simp add: ascii_to_utf16_def)
    finally show "b x = ascii_to_utf16 nm (length nm) (ee + 0x52) b x" .
  qed
  then have u: "utf16_to_ascii b (ee + 0x52) (length nm) (NTFS_MAX_NAME + 1) = nm"
    by (intro utf16_roundtrip) (use nm in \<open>simp_all add: NTFS_MAX_NAME_def\<close>)
  have nz: "(of_nat (length nm) :: u8) \<noteq> 0" using ln nm(2) by (metis length_0_conv unat_0)
  show ?thesis unfolding index_entry_fields Let_def head a l ln u using head(3) nm(3) nz by simp
qed

lemma index_insert_some:
  assumes "index_insert_rec rs r ir parent child nm dir real = Some (Some r')"
  obtains key klen ee where "entry_key parent nm dir real (\<lambda>_. 0) = (key, klen)"
    "find_end_entry r (unat ir + unat (rd16 r (unat ir + 0x14)) + 0x10 +
        unat (rd32 r (unat ir + unat (rd16 r (unat ir + 0x14)) + 0x10)))
      (unat ir + unat (rd16 r (unat ir + 0x14)) + 0x10 + unat (rd32 r (unat ir + unat (rd16 r (unat ir + 0x14)) + 0x10 + 4))) = Some ee"
    "r' = put_end (ir + align8 (ucast (rd16 r (unat ir + 0x14)) + (rd32 r (unat ir + 0x10) + align8 (16 + klen))))
      (put_lengths (unat ir + unat (rd16 r (unat ir + 0x14)) + 0x10) ir
        (rd32 r (unat ir + unat (rd16 r (unat ir + 0x14)) + 0x10 + 4) + align8 (16 + klen))
        (rd32 r (unat ir + 0x10) + align8 (16 + klen))
        (align8 (ucast (rd16 r (unat ir + 0x14)) + (rd32 r (unat ir + 0x10) + align8 (16 + klen))))
        (put_entry (unat ir + unat (rd16 r (unat ir + 0x14)) +
             unat (of_nat (ee - (unat ir + unat (rd16 r (unat ir + 0x14)))) :: u32))
           (unat (rd16 r (ee + 0x08))) child (align8 (16 + klen)) klen key r))"
  using assms unfolding index_insert_rec_def Let_def
  by (simp only: split: if_splits prod.splits option.splits) blast+

lemma index_insert_layout:
  assumes ins: "index_insert_rec rs r ir parent child nm dir real = Some (Some r')"
    and ok: "root_ok (unat rs) r ir n ee" and nm: "length nm \<le> 127"
  defines "root \<equiv> unat ir + unat (rd16 r (unat ir + 0x14))"
  obtains E key klen where "entry_key parent nm dir real (\<lambda>_. 0) = (key, klen)" "82 + 2 * length nm \<le> E" "E \<le> 400"
    "rd16 r' (unat ir + 0x14) = rd16 r (unat ir + 0x14)" "root + unat (rd32 r' (unat ir + 0x10)) = ee + 16 + E"
    "root + 16 + unat (rd32 r' (root + 16 + 4)) = ee + 16 + E" "rd32 r' (root + 16) = rd32 r (root + 16)"
    "agree (root + 16 + 16) ee r r'" "rd64 r' ee = child" "unat (rd16 r' (ee + 8)) = E"
    "unat (rd16 r' (ee + 0x0A)) = 66 + 2 * length nm" "rd16 r' (ee + 0x0C) = 0"
    "\<And>j. j < 66 + 2 * length nm \<Longrightarrow> r' (ee + 0x10 + j) = key j" "\<And>j. j < 16 \<Longrightarrow> r' (ee + E + j) = r (ee + j)"
proof -
  define coff where "coff = rd16 r (unat ir + 0x14)"
  define clen where "clen = rd32 r (unat ir + 0x10)"
  define node where "node = root + 16"
  define used where "used = rd32 r (node + 4)"
  have O: "unat rs \<le> 8192" "0x20 \<le> unat ir" "0x18 \<le> unat coff" "0x10 \<le> unat (rd32 r node)"
    "chain n r (node + unat (rd32 r node)) ee" "rd16 r (ee + 8) = 16" "rd16 r (ee + 0x0C) AND INDEX_ENTRY_END \<noteq> 0"
    "node + unat used = ee + 16" "root + unat clen = ee + 16" "ee + 16 \<le> unat rs" "root = unat ir + unat coff"
    using ok by (simp_all add: root_ok_def Let_def root_def node_def used_def clen_def coff_def)
  have e0: "node + 16 \<le> ee" using chain_le [OF O(5)] O(4) by linarith
  obtain key klen ee' where kk: "entry_key parent nm dir real (\<lambda>_. 0) = (key, klen)"
    and fe': "find_end_entry r (node + unat (rd32 r node)) (node + unat used) = Some ee'"
    and r0: "r' = put_end (ir + align8 (ucast coff + (clen + align8 (16 + klen))))
      (put_lengths node ir (used + align8 (16 + klen)) (clen + align8 (16 + klen))
        (align8 (ucast coff + (clen + align8 (16 + klen))))
        (put_entry (root + unat (of_nat (ee' - root) :: u32)) (unat (rd16 r (ee' + 0x08))) child (align8 (16 + klen)) klen key r))"
    by (rule index_insert_some [OF ins, folded coff_def clen_def, folded root_def [folded coff_def], folded node_def, folded used_def])
  have kl: "unat klen = 66 + 2 * length nm"
    using kk filename_fields(1) [OF _ nm] unfolding entry_key_def by blast
  define elen where "elen = align8 (16 + klen)"
  define E where "E = (66 + 2 * length nm + 16 + 7) div 8 * 8"
  have k16: "unat (16 + klen) = 16 + unat klen" using kl nm by (subst unat_add32) simp_all
  have el: "unat elen = E" unfolding elen_def E_def by (subst align8_unat) (use k16 kl nm in simp_all)
  have Eb: "82 + 2 * length nm \<le> E" "E \<le> 400" using nm unfolding E_def by linarith+
  define nclen where "nclen = clen + elen"
  define alen where "alen = align8 (ucast coff + nclen)"
  have fe: "find_end_entry r (node + unat (rd32 r node)) (node + unat used) = Some ee"
    by (rule chain_end [OF O(5)]) (use O in simp_all)
  have ofs: "root + unat (of_nat (ee - root) :: u32) = ee"
  proof -
    have "unat (of_nat (ee - root) :: u32) = ee - root" by (rule unat_of_nat_small) (use O in simp)
    then show ?thesis using e0 by (simp add: node_def)
  qed
  define q where "q = put_entry ee 16 child elen klen key r"
  have e': "ee' = ee" using fe fe' by simp
  have r': "r' = put_end (ir + alen) (put_lengths node ir (used + elen) nclen alen q)"
    unfolding r0 q_def e' ofs O(6) elen_def [symmetric] unfolding nclen_def [symmetric] unfolding alen_def [symmetric]
    by simp
  have lim: "ee + 16 + E \<le> 9000" using O(1,10) Eb(2) by linarith
  have nc: "unat nclen = unat clen + E" unfolding nclen_def by (subst unat_add32) (use el lim O(9) in simp_all)
  have cn: "unat (ucast coff + nclen) = unat coff + (unat clen + E)"
    by (subst unat_add32) (use nc unat_ucast16 [of coff] lim O(9,11) in simp_all)
  have al: "unat alen = (unat coff + (unat clen + E) + 7) div 8 * 8"
    unfolding alen_def by (subst align8_unat) (use cn lim O(9,11) in simp_all)
  define N where "N = unat (ir + alen)"
  have N: "ee + 16 + E \<le> N"
  proof -
    have "unat alen \<le> unat coff + (unat clen + E) + 7" "unat coff + (unat clen + E) \<le> unat alen" unfolding al by linarith+
    moreover have "N = unat ir + unat alen" unfolding N_def
      by (subst unat_add32) (use calculation lim O(9,11) in simp_all)
    ultimately show ?thesis using O(9,11) by linarith
  qed
  have us: "unat (used + elen) = unat used + E" by (subst unat_add32) (use el lim O(8) in simp_all)
  have gt: "elen > 16 + klen \<longleftrightarrow> unat elen > 16 + unat klen" by (simp only: word_less_nat_alt k16)
  have le: "16 + klen \<le> elen" using k16 el kl Eb(1) by (simp add: word_le_nat_alt)
  have sub: "unat (elen - (16 + klen)) = unat elen - (16 + unat klen)" using le by (simp add: unat_sub k16)
  note Q = put_entry_fields [where ne = ee and el = 16 and child = child and key = key and r = r, OF _ _ gt sub, folded q_def]
  have Q1: "16 + unat klen \<le> unat elen" "unat elen < 2 ^ 16" using el kl Eb by simp_all
  note Q = Q [OF Q1]
  have same: "r' x = q x" if "0x1C \<le> x" "x < N" "x < unat ir + 4 \<or> unat ir + 8 \<le> x" "x < unat ir + 0x10 \<or> unat ir + 0x14 \<le> x"
    "x < node + 4 \<or> node + 12 \<le> x" for x
    using that by (auto simp: r' put_end_def put_lengths_def wr_le_def N_def)
  have nd: "unat ir + 0x28 \<le> node" using O(3,11) by (simp add: node_def)
  have new: "agree (node + 16) N r' q" using nd O(2) by (auto simp: agree_def intro!: same)
  note A = agree_rd [OF new]
  have old: "r' x = r x" if "x < node + 4" "unat ir + 0x14 \<le> x" for x
  proof -
    have "r' x = q x" using that nd e0 N O(2) by (intro same) simp_all
    moreover have "q x = r x" using Q(1) that e0 by (simp add: agree_def)
    ultimately show ?thesis by simp
  qed
  show ?thesis
  proof (rule that [of key klen E])
    show "rd16 r' (unat ir + 0x14) = rd16 r (unat ir + 0x14)" using nd by (intro rd16_cong old) simp_all
    have "rd32 r' (unat ir + 0x10) = nclen"
      unfolding r' put_end_def put_lengths_def using O(2) nd N e0
      by (simp add: rd_wr_other rd32_wr_le ucast_up_down N_def [symmetric])
    then show "root + unat (rd32 r' (unat ir + 0x10)) = ee + 16 + E" using nc O(9) by simp
    have "rd32 r' (node + 4) = used + elen"
      unfolding r' put_end_def put_lengths_def using O(2) nd N e0
      by (simp add: rd_wr_other rd32_wr_le ucast_up_down N_def [symmetric])
    then show "root + 16 + unat (rd32 r' (root + 16 + 4)) = ee + 16 + E" using us O(8) by (simp add: node_def)
    have "rd32 r' node = rd32 r node" unfolding rd32_def using nd by (simp add: old)
    then show "rd32 r' (root + 16) = rd32 r (root + 16)" by (simp add: node_def)
    show "agree (root + 16 + 16) ee r r'" using new Q(1) N unfolding agree_def node_def by auto
    have a: "node + 16 \<le> ee" by (rule e0)
    show "rd64 r' ee = child" using A(3) [where p = ee] a N Q(2) Eb by simp
    show "unat (rd16 r' (ee + 8)) = E"
    proof -
      have "rd16 r' (ee + 8) = ucast elen" using A(1) [where p = "ee + 8"] a N Q(3) Eb by simp
      moreover have "unat (ucast elen :: u16) = E" unfolding unsigned_ucast_eq el using Eb by (simp add: take_bit_nat_eq_self)
      ultimately show ?thesis by simp
    qed
    show "unat (rd16 r' (ee + 0x0A)) = 66 + 2 * length nm"
    proof -
      have "rd16 r' (ee + 0x0A) = ucast klen" using A(1) [where p = "ee + 0x0A"] a N Q(4) Eb by simp
      moreover have "unat (ucast klen :: u16) = 66 + 2 * length nm" unfolding unsigned_ucast_eq kl using nm by (simp add: take_bit_nat_eq_self)
      ultimately show ?thesis by simp
    qed
    show "rd16 r' (ee + 0x0C) = 0" using A(1) [where p = "ee + 0x0C"] a N Q(5) Eb by simp
    show "r' (ee + 0x10 + j) = key j" if "j < 66 + 2 * length nm" for j
      using A(4) [where p = "ee + 0x10 + j"] a N Q(6) [of j] Eb that kl by simp
    show "r' (ee + E + j) = r (ee + j)" if "j < 16" for j
      using A(4) [where p = "ee + E + j"] a N Q(7) [of j] el that by simp
  qed (fact kk Eb)+
qed

lemma walk_ends: "rd16 b (e + 8) = 16 \<Longrightarrow> rd16 b (e + 0x0C) AND INDEX_ENTRY_END \<noteq> 0 \<Longrightarrow> ntfs_walk_index_entries b e fin = []"
  by (subst ntfs_walk_index_entries.simps) (simp add: Let_def)

text \<open>C19: Inserting a name into a directory adds exactly that entry: for a record whose resident index root is well
  formed, when the edit of \<open>ntfs_index_insert\<close> goes through, listing the edited root gives the entries it
  listed before, in the same order, and behind them the new one with the child's number, its kind, its
  size (0 for a directory) and its name read back from UTF-16.\<close>
theorem index_insert_lists:
  assumes "index_insert_rec rs r ir parent child nm dir real = Some (Some r')" "root_ok (unat rs) r ir n ee"
    "printable nm" "nm \<noteq> []" "nm \<noteq> ''.''" "length nm \<le> 127"
  shows "root_entries r' ir = root_entries r ir @ [\<lparr>mft_record = child AND 0x0000FFFFFFFFFFFF, is_dir = dir,
    fsize = (if dir then 0 else real), fname = nm\<rparr>]"
proof -
  define root where "root = unat ir + unat (rd16 r (unat ir + 0x14))"
  obtain key klen E where L: "entry_key parent nm dir real (\<lambda>_. 0) = (key, klen)" "82 + 2 * length nm \<le> E" "E \<le> 400"
    "rd16 r' (unat ir + 0x14) = rd16 r (unat ir + 0x14)" "root + unat (rd32 r' (unat ir + 0x10)) = ee + 16 + E"
    "root + 16 + unat (rd32 r' (root + 16 + 4)) = ee + 16 + E" "rd32 r' (root + 16) = rd32 r (root + 16)"
    "agree (root + 16 + 16) ee r r'" "rd64 r' ee = child" "unat (rd16 r' (ee + 8)) = E"
    "unat (rd16 r' (ee + 0x0A)) = 66 + 2 * length nm" "rd16 r' (ee + 0x0C) = 0"
    "\<And>j. j < 66 + 2 * length nm \<Longrightarrow> r' (ee + 0x10 + j) = key j" "\<And>j. j < 16 \<Longrightarrow> r' (ee + E + j) = r (ee + j)"
    by (rule index_insert_layout [OF assms(1,2,6), folded root_def], rule that) assumption+
  define e0 where "e0 = root + 16 + unat (rd32 r (root + 16))"
  have O: "0x10 \<le> unat (rd32 r (root + 16))" "chain n r e0 ee" "rd16 r (ee + 8) = 16" "rd16 r (ee + 0x0C) AND INDEX_ENTRY_END \<noteq> 0"
    "root + 16 + unat (rd32 r (root + 16 + 4)) = ee + 16" "root + unat (rd32 r (unat ir + 0x10)) = ee + 16"
    using assms(2) by (simp_all add: root_ok_def Let_def root_def e0_def)
  have old: "root_entries r ir = ntfs_walk_index_entries r e0 (ee + 16)"
    unfolding root_entries_def attr_resident_data_def walk_node_def split_conv root_def [symmetric] O(5,6) e0_def by simp
  have new: "root_entries r' ir = ntfs_walk_index_entries r' e0 (ee + 16 + E)"
    unfolding root_entries_def attr_resident_data_def walk_node_def split_conv L(4) root_def [symmetric] L(5-7) e0_def by simp
  have "agree e0 ee r r'" using L(8) O(1) by (simp add: agree_def e0_def)
  from walk_chain [OF O(2) this, of "ee + 16" "ee + 16 + E"] obtain es where
    es: "ntfs_walk_index_entries r e0 (ee + 16) = es @ ntfs_walk_index_entries r ee (ee + 16)"
    "ntfs_walk_index_entries r' e0 (ee + 16 + E) = es @ ntfs_walk_index_entries r' ee (ee + 16 + E)" by auto
  have moved: "rd16 r' (ee + E + x) = rd16 r (ee + x)" if "x + 1 < 16" for x
  proof (unfold rd16_def)
    have "r' (ee + E + x) = r (ee + x)" "r' (ee + E + x + 1) = r (ee + x + 1)"
      using L(14) [of x] L(14) [of "x + 1"] that unfolding add.assoc by simp_all
    then show "ucast (r' (ee + E + x)) OR push_bit 8 (ucast (r' (ee + E + x + 1))) =
      (ucast (r (ee + x)) OR push_bit 8 (ucast (r (ee + x + 1))) :: u16)" by (simp only:)
  qed
  have "rd16 r' (ee + E + 8) = rd16 r (ee + 8)" "rd16 r' (ee + E + 0x0C) = rd16 r (ee + 0x0C)" by (simp_all only: moved)
  then have last: "ntfs_walk_index_entries r' (ee + E) (ee + 16 + E) = []" using walk_ends [of r' "ee + E"] O(3,4) by simp
  have "ntfs_walk_index_entries r' ee (ee + 16 + E) = index_entry r' ee (ee + 16 + E)"
    using L(2,10,12) last by (subst ntfs_walk_index_entries.simps) (simp add: Let_def)
  also have "\<dots> = [\<lparr>mft_record = child AND 0x0000FFFFFFFFFFFF,
      is_dir = ((if dir then FILE_ATTR_DIRECTORY else FILE_ATTR_ARCHIVE) AND FILE_ATTR_DIRECTORY \<noteq> 0),
      fsize = (if (if dir then FILE_ATTR_DIRECTORY else FILE_ATTR_ARCHIVE) AND FILE_ATTR_DIRECTORY \<noteq> 0 then 0 else if dir then 0 else real),
      fname = nm\<rparr>]"
    by (rule new_entry_listed [OF L(13) filename_fields(2-6) [OF L(1) [unfolded entry_key_def] assms(6)] L(9,11) _ assms(3-6)])
      (use L(2) in simp_all)
  also have "\<dots> = [\<lparr>mft_record = child AND 0x0000FFFFFFFFFFFF, is_dir = dir, fsize = (if dir then 0 else real), fname = nm\<rparr>]"
    by (simp add: FILE_ATTR_DIRECTORY_def FILE_ATTR_ARCHIVE_def)
  finally show ?thesis unfolding new old es walk_ends [OF O(3,4)] by simp
qed

definition demo_root_rec :: buf where
  "demo_root_rec = demo_dir(0x3C := 0xA8, 0x48 := 0x88, 0x6C := 0x78, 0xD8 := 16, 0xD9 := 0, 0xDA := 0, 0xDB := 0, 0xDC := 2,
     0xE0 := 0xFF, 0xE1 := 0xFF, 0xE2 := 0xFF, 0xE3 := 0xFF)"

theorem index_insert_lists_witness:
  "\<exists>r'. index_insert_rec 1024 demo_root_rec 0x38 5 30 ''new'' False 9 = Some (Some r') \<and>
     root_entries r' 0x38 = root_entries demo_root_rec 0x38 @ [\<lparr>mft_record = 30, is_dir = False, fsize = 9, fname = ''new''\<rparr>]"
proof -
  let ?r = demo_root_rec
  have f: "rd16 ?r 0x4C = 0x20" "rd32 ?r 0x48 = 0x88" "rd32 ?r 0x68 = 0x10" "rd32 ?r 0x6C = 0x78" "rd16 ?r 0x80 = 0x58" "rd16 ?r 0x82 = 0x44"
    "rd16 ?r 0x84 = 0" "?r 0xC8 = 1" "rd16 ?r 0xD8 = 16" "rd16 ?r 0xDC = 2" "rd32 ?r 0x3C = 0xA8" "rd32 ?r 0xE0 = ATTR_END"
    by (simp_all add: rd16_def rd32_def demo_root_rec_def demo_dir_def ATTR_END_def)
  have c: "chain 1 ?r 0x78 0xD0" by (simp add: f)
  have ok: "root_ok (unat (1024 :: u32)) ?r 0x38 1 0xD0"
    using c by (simp add: root_ok_def f INDEX_ENTRY_END_def)
  have fe: "find_end_entry ?r 0x78 0xE0 = Some 0xD0"
    by (rule chain_end [OF c]) (simp_all add: f INDEX_ENTRY_END_def)
  obtain key where key: "entry_key 5 ''new'' False 9 (\<lambda>_. 0) = (key, 72)"
    by (cases "entry_key 5 ''new'' False 9 (\<lambda>_. 0)") (simp add: entry_key_def build_filename_content_def Let_def)
  have al: "align8 88 = 88" "align8 256 = 256" by (simp_all add: align8_def)
  obtain r' where ins: "index_insert_rec 1024 ?r 0x38 5 30 ''new'' False 9 = Some (Some r')"
    using fe by (simp add: index_insert_rec_def Let_def is_last_attr_def f key al)
  have p: "printable ''new''" by (simp add: printable_def)
  have "root_entries r' 0x38 = root_entries ?r 0x38 @ [\<lparr>mft_record = 30 AND 0x0000FFFFFFFFFFFF, is_dir = False,
      fsize = (if False then 0 else 9), fname = ''new''\<rparr>]"
    by (rule index_insert_lists [OF ins ok p]) simp_all
  then show ?thesis using ins by simp
qed

end
