(* ===== verification/Paging.thy ===== *)
theory Paging
  imports Pmm Bytes "HOL-Library.Monad_Syntax" "HOL-Library.Sublist"
begin

text \<open>
  The page tables of \<open>src/ntos/mm/paging.c\<close> and the MMIO windows of \<open>src/hal/hal.c\<close>.  The kernel
  reaches physical memory through the identity map of its first GiB, so a pointer to a table is the
  physical address of the table and the state holds physical memory as bytes; an entry is the
  little-endian 64-bit word at its offset, the one the processor reads.  A table of 512 entries
  that is zeroed or copied entry by entry is 4096 bytes zeroed or copied.  The translation
  look-aside buffer is not part of the state: its flushes have no effect here.  The result
  \<open>None\<close> of a loop is a loop that does not end, which the additions that wrap make possible.
\<close>

record mm_state =
  mm_pmm :: pmm_state
  pmem :: buf
  cr3 :: u64
  g_kuser_page :: nat
  s_mmio_next :: u64
  s_mmio_inited :: bool
  g_ticks :: u64
  g_intercept_cpuid :: bool

definition PT_MASK :: u64 where "PT_MASK = 0x000FFFFFFFFFF000"
definition PG_PRESENT :: u64 where "PG_PRESENT = 1"
definition PG_RW :: u64 where "PG_RW = 2"
definition PG_USER :: u64 where "PG_USER = 4"
definition MMIO_ARENA_BASE :: u64 where "MMIO_ARENA_BASE = 0xFFFFE10000000000"
definition MMIO_ARENA_END :: u64 where "MMIO_ARENA_END = 0xFFFFE20000000000"
definition MMIO_ARENA_PML4 :: nat where "MMIO_ARENA_PML4 = 450"

lemmas pg_defs = PT_MASK_def PG_PRESENT_def PG_RW_def PG_USER_def
lemmas arena_defs = MMIO_ARENA_BASE_def MMIO_ARENA_END_def MMIO_ARENA_PML4_def

text \<open>\<open>t[i]\<close> of a table at \<open>t\<close>, read and written, and the page it points to.\<close>

definition ent :: "buf \<Rightarrow> nat \<Rightarrow> nat \<Rightarrow> u64" where "ent m t i = rd64 m (t + 8 * i)"
definition set_ent :: "nat \<Rightarrow> nat \<Rightarrow> u64 \<Rightarrow> mm_state \<Rightarrow> mm_state" where
  "set_ent t i v s = s\<lparr>pmem := wr_le (t + 8 * i) v 8 (pmem s)\<rparr>"
definition pt_addr :: "u64 \<Rightarrow> nat" where "pt_addr e = unat (e AND PT_MASK)"
definition ix :: "nat \<Rightarrow> u64 \<Rightarrow> nat" where "ix k v = unat (drop_bit k v AND 0x1FF)"
definition has :: "u64 \<Rightarrow> u64 \<Rightarrow> bool" where "has f e \<longleftrightarrow> e AND f \<noteq> 0"

definition mm_get_cr3 :: "mm_state \<Rightarrow> u64" where "mm_get_cr3 s = cr3 s"
definition mm_switch_cr3 :: "u64 \<Rightarrow> mm_state \<Rightarrow> mm_state" where "mm_switch_cr3 c s = s\<lparr>cr3 := c\<rparr>"
definition cur_pml4 :: "mm_state \<Rightarrow> nat" where "cur_pml4 s = pt_addr (mm_get_cr3 s)"

definition alloc_frame :: "mm_state \<Rightarrow> mm_state \<times> nat" where
  "alloc_frame s = (case pmm_alloc_frame (mm_pmm s) of (p, f) \<Rightarrow> (s\<lparr>mm_pmm := p\<rparr>, f))"
definition free_frame :: "nat \<Rightarrow> mm_state \<Rightarrow> mm_state" where
  "free_frame f s = s\<lparr>mm_pmm := pmm_free_frame f (mm_pmm s)\<rparr>"

section \<open>User access to the first GiB\<close>

partial_function (option) map_user_loop :: "u64 \<Rightarrow> nat \<Rightarrow> u64 \<Rightarrow> mm_state \<Rightarrow> mm_state option" where
  "map_user_loop e pd a s =
     (if a < e then
        map_user_loop e pd (a + 0x200000)
          (let i = unat (drop_bit 21 a) in
           if i < 512 then set_ent pd i (ent (pmem s) pd i OR PG_USER) s else s)
      else Some s)"

definition mm_map_user :: "u64 \<Rightarrow> u64 \<Rightarrow> mm_state \<Rightarrow> mm_state option" where
  "mm_map_user addr sz s =
     (let pml4 = cur_pml4 s;
          s1 = set_ent pml4 0 (ent (pmem s) pml4 0 OR PG_USER) s;
          pdpt = pt_addr (ent (pmem s1) pml4 0);
          s2 = set_ent pdpt 0 (ent (pmem s1) pdpt 0 OR PG_USER) s1;
          pd = pt_addr (ent (pmem s2) pdpt 0)
      in map_user_loop (addr + sz) pd (addr AND NOT 0x1FFFFF) s2)"

section \<open>Address spaces\<close>

definition copy_table :: "nat \<Rightarrow> nat \<Rightarrow> mm_state \<Rightarrow> mm_state" where
  "copy_table dst src s = s\<lparr>pmem := put_bytes 4096 dst (\<lambda>i. pmem s (src + i)) (pmem s)\<rparr>"

definition zero_frame :: "nat \<Rightarrow> mm_state \<Rightarrow> mm_state" where
  "zero_frame f s = s\<lparr>pmem := put_zero 4096 f (pmem s)\<rparr>"

definition clone_table :: "nat \<Rightarrow> mm_state \<Rightarrow> mm_state \<times> nat" where
  "clone_table src s =
     (case alloc_frame s of (s1, frame) \<Rightarrow>
        if frame = 0 then (s1, 0) else (copy_table frame src s1, frame))"

definition mm_create_address_space :: "mm_state \<Rightarrow> mm_state \<times> nat" where
  "mm_create_address_space s =
     (let kpml4 = cur_pml4 s in
      if \<not> has PG_PRESENT (ent (pmem s) kpml4 0) then (s, 0)
      else let kpdpt = pt_addr (ent (pmem s) kpml4 0) in
      if \<not> has PG_PRESENT (ent (pmem s) kpdpt 0) then (s, 0)
      else let kpd = pt_addr (ent (pmem s) kpdpt 0) in
      case clone_table kpd s of (s1, new_pd) \<Rightarrow>
      if new_pd = 0 then (s1, 0)
      else case alloc_frame s1 of (s2, new_pdpt) \<Rightarrow>
      if new_pdpt = 0 then (free_frame new_pd s2, 0)
      else let s3 = copy_table new_pdpt kpdpt s2;
               s4 = set_ent new_pdpt 0
                      ((ent (pmem s3) kpdpt 0 AND NOT PT_MASK) OR (of_nat new_pd AND PT_MASK)) s3 in
      case alloc_frame s4 of (s5, new_pml4) \<Rightarrow>
      if new_pml4 = 0 then (free_frame new_pdpt (free_frame new_pd s5), 0)
      else let s6 = copy_table new_pml4 kpml4 s5;
               s7 = set_ent new_pml4 0
                      ((ent (pmem s6) kpml4 0 AND NOT PT_MASK) OR (of_nat new_pdpt AND PT_MASK)) s6 in
      (s7, new_pml4))"

section \<open>Tables on demand\<close>

definition ensure_table :: "nat \<Rightarrow> nat \<Rightarrow> u64 \<Rightarrow> mm_state \<Rightarrow> mm_state \<times> nat" where
  "ensure_table parent idx flags s =
     (if has PG_PRESENT (ent (pmem s) parent idx) then (s, pt_addr (ent (pmem s) parent idx))
      else case alloc_frame s of (s1, f) \<Rightarrow>
        if f = 0 then (s1, 0)
        else let s2 = set_ent parent idx (of_nat f OR flags) (zero_frame f s1)
             in (s2, pt_addr (ent (pmem s2) parent idx)))"

text \<open>\<open>*(uint32_t*)(data + off) = v\<close> and the other stores through a typed pointer.\<close>

definition st32 :: "nat \<Rightarrow> u64 \<Rightarrow> mm_state \<Rightarrow> mm_state" where
  "st32 a v s = s\<lparr>pmem := wr_le a v 4 (pmem s)\<rparr>"
definition st16 :: "nat \<Rightarrow> u64 \<Rightarrow> mm_state \<Rightarrow> mm_state" where
  "st16 a v s = s\<lparr>pmem := wr_le a v 2 (pmem s)\<rparr>"
definition st8 :: "nat \<Rightarrow> u64 \<Rightarrow> mm_state \<Rightarrow> mm_state" where
  "st8 a v s = s\<lparr>pmem := wr_le a v 1 (pmem s)\<rparr>"

definition kSysRoot :: string where "kSysRoot = ''C:'' @ [CHR 0x5C] @ ''Windows'' @ [CHR 0x00]"

definition fill_kuser :: "nat \<Rightarrow> mm_state \<Rightarrow> mm_state" where
  "fill_kuser data s =
     (let s1 = st32 (data + 0x004) 0x0FA00000 s;
          s2 = st32 (data + 0x014) (g_ticks s * 10) s1;
          s3 = st32 (data + 0x01C) 0 (st32 (data + 0x018) 0 s2);
          s4 = st8 (data + 0x268) 1 (st32 (data + 0x264) 1 (st32 (data + 0x260) 26100 s3));
          s5 = st32 (data + 0x270) 0 (st32 (data + 0x26C) 10 s4);
          s6 = st32 (data + 0x2D4) 65536 s5
      in fold (\<lambda>i. st16 (data + 0x30 + i * 2) (of_char (kSysRoot ! i))) [0..<11] s6)"

definition mm_map_kuser_shared_data :: "mm_state \<Rightarrow> mm_state" where
  "mm_map_kuser_shared_data s =
     (if g_kuser_page s \<noteq> 0 then s
      else let addr = 0xFFFFF78000000000; pml4 = cur_pml4 s; fl = PG_PRESENT OR PG_RW in
      case ensure_table pml4 (ix 39 addr) fl s of (s1, pdpt) \<Rightarrow>
      if pdpt = 0 then s1
      else case ensure_table pdpt (ix 30 addr) fl s1 of (s2, pd) \<Rightarrow>
      if pd = 0 then s2
      else case ensure_table pd (ix 21 addr) fl s2 of (s3, pt) \<Rightarrow>
      if pt = 0 then s3
      else case alloc_frame s3 of (s4, data) \<Rightarrow>
      if data = 0 then s4
      else let s5 = fill_kuser data (zero_frame data s4);
               s6 = set_ent pt (ix 12 addr) (of_nat data OR PG_PRESENT OR PG_RW) s5
           in s6\<lparr>g_kuser_page := data\<rparr>)"

definition mm_kuser_tick :: "mm_state \<Rightarrow> mm_state" where
  "mm_kuser_tick s =
     (if g_kuser_page s = 0 then s
      else if g_intercept_cpuid s then s
      else let data = g_kuser_page s; ms = g_ticks s * 10 in
        st32 (data + 0x104) 0 (st32 (data + 0x100) (ms * 10000) (st32 (data + 0x014) ms s)))"

section \<open>Mapping and unmapping ranges\<close>

text \<open>One round of the loop of \<open>mm_map_phys_range\<close>; the flag is False for \<open>return 0\<close>.\<close>

definition map_page :: "nat \<Rightarrow> u64 \<Rightarrow> u64 \<Rightarrow> u64 \<Rightarrow> u64 \<Rightarrow> mm_state \<Rightarrow> mm_state \<times> bool" where
  "map_page pml4 pte_flags tbl_flags v p s =
     (case ensure_table pml4 (ix 39 v) tbl_flags s of (s1, pdpt) \<Rightarrow>
      if pdpt = 0 then (s1, False)
      else case ensure_table pdpt (ix 30 v) tbl_flags s1 of (s2, pd) \<Rightarrow>
      if pd = 0 then (s2, False)
      else if has 0x80 (ent (pmem s2) pd (ix 21 v)) then (s2, False)
      else case ensure_table pd (ix 21 v) tbl_flags s2 of (s3, pt) \<Rightarrow>
      if pt = 0 then (s3, False)
      else (set_ent pt (ix 12 v) ((p AND PT_MASK) OR pte_flags) s3, True))"

partial_function (option) map_range_loop ::
  "u64 \<Rightarrow> nat \<Rightarrow> u64 \<Rightarrow> u64 \<Rightarrow> u64 \<Rightarrow> u64 \<Rightarrow> mm_state \<Rightarrow> (mm_state \<times> bool) option" where
  "map_range_loop e pml4 pte_flags tbl_flags v p s =
     (if v < e then
        (case map_page pml4 pte_flags tbl_flags v p s of (s1, ok) \<Rightarrow>
           if ok then map_range_loop e pml4 pte_flags tbl_flags (v + 0x1000) (p + 0x1000) s1
           else Some (s1, False))
      else Some (s, True))"

definition page_down :: "u64 \<Rightarrow> u64" where "page_down v = v AND NOT 0xFFF"

definition mm_map_phys_range :: "u64 \<Rightarrow> u64 \<Rightarrow> u64 \<Rightarrow> u64 \<Rightarrow> mm_state \<Rightarrow> (mm_state \<times> bool) option" where
  "mm_map_phys_range virt phys sz flags s =
     (if sz = 0 then Some (s, False)
      else map_range_loop (page_down (virt + sz + 0xFFF)) (cur_pml4 s)
             (flags OR PG_PRESENT OR PG_RW OR PG_USER) (PG_PRESENT OR PG_RW OR PG_USER)
             (page_down virt) (page_down phys) s)"

definition unmap_page :: "nat \<Rightarrow> u64 \<Rightarrow> mm_state \<Rightarrow> mm_state \<times> bool" where
  "unmap_page pml4 v s =
     (if \<not> has PG_PRESENT (ent (pmem s) pml4 (ix 39 v)) then (s, True)
      else let pdpt = pt_addr (ent (pmem s) pml4 (ix 39 v)) in
      if \<not> has PG_PRESENT (ent (pmem s) pdpt (ix 30 v)) then (s, True)
      else let pd = pt_addr (ent (pmem s) pdpt (ix 30 v)) in
      if has 0x80 (ent (pmem s) pd (ix 21 v)) then (s, False)
      else if \<not> has PG_PRESENT (ent (pmem s) pd (ix 21 v)) then (s, True)
      else (set_ent (pt_addr (ent (pmem s) pd (ix 21 v))) (ix 12 v) 0 s, True))"

partial_function (option) unmap_loop :: "u64 \<Rightarrow> nat \<Rightarrow> u64 \<Rightarrow> mm_state \<Rightarrow> (mm_state \<times> bool) option" where
  "unmap_loop e pml4 v s =
     (if v < e then
        (case unmap_page pml4 v s of (s1, ok) \<Rightarrow>
           if ok then unmap_loop e pml4 (v + 0x1000) s1 else Some (s1, False))
      else Some (s, True))"

definition mm_unmap_range :: "u64 \<Rightarrow> u64 \<Rightarrow> mm_state \<Rightarrow> (mm_state \<times> bool) option" where
  "mm_unmap_range virt sz s =
     (if sz = 0 then Some (s, False)
      else unmap_loop (page_down (virt + sz + 0xFFF)) (cur_pml4 s) (page_down virt) s)"

section \<open>Page-fault recovery\<close>

text \<open>The common path: a zeroed frame, mapped.\<close>

definition map_new_frame :: "u64 \<Rightarrow> mm_state \<Rightarrow> (mm_state \<times> bool) option" where
  "map_new_frame addr s =
     (case alloc_frame s of (s1, frame) \<Rightarrow>
      if frame = 0 then Some (s1, False)
      else mm_map_phys_range addr (of_nat frame) 0x1000 (PG_PRESENT OR PG_RW OR PG_USER) (zero_frame frame s1))"

definition mm_map_zero_page :: "u64 \<Rightarrow> mm_state \<Rightarrow> (mm_state \<times> bool) option" where
  "mm_map_zero_page va s =
     (if va = 0 then Some (s, False)
      else let addr = page_down va; pml4 = cur_pml4 s; e4 = ent (pmem s) pml4 (ix 39 addr) in
      if \<not> has PG_PRESENT e4 then map_new_frame addr s
      else let pdpt = pt_addr e4; e3 = ent (pmem s) pdpt (ix 30 addr) in
      if \<not> has PG_PRESENT e3 then map_new_frame addr s
      else let pd = pt_addr e3; e2 = ent (pmem s) pd (ix 21 addr) in
      if has 0x80 e2 then
        (let s1 = set_ent pml4 (ix 39 addr) (e4 OR PG_USER) s;
             s2 = set_ent pdpt (ix 30 addr) (ent (pmem s1) pdpt (ix 30 addr) OR PG_USER) s1;
             s3 = set_ent pd (ix 21 addr) (ent (pmem s2) pd (ix 21 addr) OR PG_USER OR PG_RW) s2
         in Some (s3, True))
      else if has PG_PRESENT e2 \<and> has PG_PRESENT (ent (pmem s) (pt_addr e2) (ix 12 addr))
      then Some (zero_frame (pt_addr (ent (pmem s) (pt_addr e2) (ix 12 addr))) s, True)
      else map_new_frame addr s)"

section \<open>The MMIO arena\<close>

definition mm_mmio_init :: "mm_state \<Rightarrow> mm_state" where
  "mm_mmio_init s =
     (if s_mmio_inited s then s
      else let pml4 = cur_pml4 s in
      if has PG_PRESENT (ent (pmem s) pml4 MMIO_ARENA_PML4) then s\<lparr>s_mmio_inited := True\<rparr>
      else case alloc_frame s of (s1, f) \<Rightarrow>
        if f = 0 then s1
        else (set_ent pml4 MMIO_ARENA_PML4 (of_nat f OR PG_PRESENT OR PG_RW) (zero_frame f s1))
               \<lparr>s_mmio_inited := True\<rparr>)"

definition mm_mmio_reserve :: "u64 \<Rightarrow> mm_state \<Rightarrow> mm_state \<times> u64" where
  "mm_mmio_reserve sz s0 =
     (let s = (if \<not> s_mmio_inited s0 then mm_mmio_init s0 else s0) in
      if sz = 0 then (s, 0)
      else let bytes = page_down (sz + 0xFFF) in
      if s_mmio_next s + bytes > MMIO_ARENA_END then (s, 0)
      else (s\<lparr>s_mmio_next := s_mmio_next s + bytes\<rparr>, s_mmio_next s))"

definition HAL_IDENTITY_LIMIT :: u64 where "HAL_IDENTITY_LIMIT = 0x40000000"
definition MM_FLAG_PWT :: u64 where "MM_FLAG_PWT = 8"
definition MM_FLAG_PCD :: u64 where "MM_FLAG_PCD = 16"

definition hal_map_mmio :: "u64 \<Rightarrow> u64 \<Rightarrow> mm_state \<Rightarrow> (mm_state \<times> u64) option" where
  "hal_map_mmio phys sz s =
     (if sz = 0 then Some (s, 0)
      else if phys + sz \<le> HAL_IDENTITY_LIMIT then Some (s, phys)
      else let intra = phys AND 0xFFF; span = page_down (intra + sz + 0xFFF) in
        case mm_mmio_reserve span s of (s1, va) \<Rightarrow>
        if va = 0 then Some (s1, 0)
        else do {
          (s2, ok) \<leftarrow> mm_map_phys_range va (page_down phys) span
                        (PG_PRESENT OR PG_RW OR MM_FLAG_PCD OR MM_FLAG_PWT) s1;
          if ok then Some (s2, va + intra) else Some (s2, 0)
        })"

definition hal_unmap_mmio :: "u64 \<Rightarrow> u64 \<Rightarrow> mm_state \<Rightarrow> mm_state option" where
  "hal_unmap_mmio v sz s =
     (if v = 0 \<or> sz = 0 then Some s
      else if v < HAL_IDENTITY_LIMIT then Some s
      else map_option fst
             (mm_unmap_range (page_down v) (page_down ((v AND 0xFFF) + sz + 0xFFF)) s))"

section \<open>The entries of a tree of tables\<close>

lemma aligned_slots:
  fixes t t' i j :: nat
  assumes "t mod 4096 = 0" "t' mod 4096 = 0" "i < 512" "j < 512" "\<not> (t = t' \<and> i = j)"
  shows "t + 8 * i + 8 \<le> t' + 8 * j \<or> t' + 8 * j + 8 \<le> t + 8 * i"
proof -
  obtain a b where ab: "t = 4096 * a" "t' = 4096 * b" using assms(1,2) by (auto simp: mod_eq_0_iff_dvd dvd_def)
  consider "a < b" | "a = b" | "b < a" by linarith
  then show ?thesis using assms(3-5) unfolding ab by cases auto
qed

lemma ent_wr:
  assumes "t mod 4096 = 0" "t' mod 4096 = 0" "i < 512" "j < 512"
  shows "ent (wr_le (t + 8 * i) v 8 m) t' j = (if t' = t \<and> j = i then v else ent m t' j)"
proof (cases "t' = t \<and> j = i")
  case True
  then show ?thesis by (simp add: ent_def rd64_wr_le)
next
  case False
  then have "\<not> (t = t' \<and> i = j)" by auto
  from aligned_slots [OF assms this] False show ?thesis by (auto simp: ent_def intro: rd_wr_other)
qed

lemma ent_cong: "(\<And>k. k < 4096 \<Longrightarrow> m (t + k) = m' (t' + k)) \<Longrightarrow> j < 512 \<Longrightarrow> ent m t j = ent m' t' j"
proof -
  assume eq: "\<And>k. k < 4096 \<Longrightarrow> m (t + k) = m' (t' + k)" and j: "j < 512"
  have "m (t + 8 * j + k) = m' (t' + 8 * j + k)" if "k < 8" for k
    using eq [of "8 * j + k"] j that by (simp add: add.assoc)
  then have "k < 64 \<Longrightarrow> m (t + 8 * j + k div 8) = m' (t' + 8 * j + k div 8)" for k by simp
  then show "ent m t j = ent m' t' j"
    unfolding ent_def by (intro bit_word_eqI) (auto simp: rd64_bit)
qed

lemma frames_apart: "(f :: nat) mod 4096 = 0 \<Longrightarrow> t mod 4096 = 0 \<Longrightarrow> t \<noteq> f \<Longrightarrow> k < 4096 \<Longrightarrow> \<not> (f \<le> t + k \<and> t + k < f + 4096)"
proof -
  assume a: "f mod 4096 = 0" "t mod 4096 = 0" "t \<noteq> f" "k < 4096"
  then obtain a b where ab: "t = 4096 * a" "f = 4096 * b" by (auto simp: mod_eq_0_iff_dvd dvd_def)
  have "a \<noteq> b" using a(3) ab by simp
  then show ?thesis using a(4) unfolding ab by linarith
qed

lemma ent_zero:
  assumes "f mod 4096 = 0" "t mod 4096 = 0" "j < 512"
  shows "ent (put_zero 4096 f m) t j = (if t = f then 0 else ent m t j)"
proof (cases "t = f")
  case True
  have "ent (put_zero 4096 f m) t j = ent (\<lambda>i. 0) 0 j"
    by (rule ent_cong [OF _ assms(3)]) (simp add: put_zero_def True)
  also have "\<dots> = 0" by (simp add: ent_def rd64_def rd32_def)
  finally show ?thesis using True by simp
next
  case False
  moreover have "ent (put_zero 4096 f m) t j = ent m t j"
    using frames_apart [OF assms(1,2) False] by (intro ent_cong [OF _ assms(3)]) (simp only: put_zero_def if_False)
  ultimately show ?thesis by simp
qed

lemma ent_copy:
  assumes "d mod 4096 = 0" "t mod 4096 = 0" "j < 512"
  shows "ent (put_bytes 4096 d (\<lambda>i. m (src + i)) m) t j = (if t = d then ent m src j else ent m t j)"
proof (cases "t = d")
  case True
  have "ent (put_bytes 4096 d (\<lambda>i. m (src + i)) m) t j = ent m src j"
    by (rule ent_cong [OF _ assms(3)]) (simp add: put_bytes_def True)
  then show ?thesis using True by simp
next
  case False
  moreover have "ent (put_bytes 4096 d (\<lambda>i. m (src + i)) m) t j = ent m t j"
    using frames_apart [OF assms(1,2) False] by (intro ent_cong [OF _ assms(3)]) (simp only: put_bytes_def if_False)
  ultimately show ?thesis by simp
qed

lemma ix_eq: "ix k v = unat v div 2 ^ k mod 512"
proof -
  have "(0x1FF :: u64) = mask 9" by (simp add: mask_eq_exp_minus_1)
  then have "ix k v = unat (take_bit 9 (drop_bit k v))" by (simp add: ix_def take_bit_eq_mask)
  moreover have "unat (drop_bit k v) = drop_bit k (unat v)" unfolding unsigned_drop_bit_eq
    by (rule arg_cong [where f = "drop_bit k"], rule take_bit_nat_eq_self, rule unsigned_less)
  moreover have "unat (take_bit 9 w) = unat w mod 512" for w :: u64
    unfolding unsigned_take_bit_eq by (simp add: take_bit_eq_mod)
  ultimately show ?thesis by (simp only: drop_bit_eq_div)
qed

lemma ix_less [simp]: "ix k v < 512"
  by (simp add: ix_eq)

lemma has_bit:
  "has 1 e \<longleftrightarrow> bit e 0" "has 0x80 e \<longleftrightarrow> bit e 7"
  using and_exp_eq_0_iff_not_bit [of e 0] and_exp_eq_0_iff_not_bit [of e 7] by (simp_all add: has_def)

definition is_tab :: "u64 \<Rightarrow> bool" where "is_tab e \<longleftrightarrow> has PG_PRESENT e \<and> \<not> has 0x80 e"

text \<open>The table reached from the table \<open>t\<close> along a path of indices, and the entry at the end of a
  path: 0 when there is no table that holds it.\<close>

fun node :: "buf \<Rightarrow> nat \<Rightarrow> nat list \<Rightarrow> nat option" where
  "node m t [] = Some t"
| "node m t (i # p) = (if is_tab (ent m t i) then node m (pt_addr (ent m t i)) p else None)"

definition pent :: "buf \<Rightarrow> nat \<Rightarrow> nat list \<Rightarrow> u64" where
  "pent m t q = (case node m t (butlast q) of None \<Rightarrow> 0 | Some u \<Rightarrow> ent m u (last q))"

definition vpath :: "nat \<Rightarrow> nat list \<Rightarrow> bool" where
  "vpath n p \<longleftrightarrow> length p \<le> n \<and> (\<forall>i \<in> set p. i < 512)"

lemma vpath_simps [simp]:
  "vpath n []" "vpath (Suc n) (p @ [i]) \<longleftrightarrow> vpath n p \<and> i < 512"
  "vpath n (p @ [i]) \<Longrightarrow> vpath n p"
  by (auto simp: vpath_def)

lemma vpath_mono: "vpath n p \<Longrightarrow> n \<le> k \<Longrightarrow> vpath k p"
  by (auto simp: vpath_def)

lemma not_tab_0 [simp]: "\<not> is_tab 0"
  by (simp add: is_tab_def has_def)

lemma node_append: "node m t (p @ q) = (case node m t p of None \<Rightarrow> None | Some u \<Rightarrow> node m u q)"
  by (induction m t p rule: node.induct) auto

lemma pent_snoc: "pent m t (p @ [i]) = (case node m t p of None \<Rightarrow> 0 | Some u \<Rightarrow> ent m u i)"
  unfolding pent_def by (cases "node m t p") simp_all

lemma node_pent:
  "node m t (p @ [i]) = (if is_tab (pent m t (p @ [i])) then Some (pt_addr (pent m t (p @ [i]))) else None)"
  by (auto simp: node_append pent_snoc split: option.splits)

lemma pt_addr_aligned [simp]: "pt_addr e mod 4096 = 0"
proof -
  have "PT_MASK = PT_MASK AND NOT (mask 12)" by (simp add: PT_MASK_def mask_eq_exp_minus_1)
  then have "pt_addr e = unat ((e AND PT_MASK) AND NOT (mask 12))"
    unfolding pt_addr_def by (metis and.assoc)
  then show ?thesis by (simp add: unat_and_not_mask)
qed

lemma node_aligned: "node m t p = Some a \<Longrightarrow> t mod 4096 = 0 \<Longrightarrow> a mod 4096 = 0"
  by (induction m t p rule: node.induct) (auto split: if_splits)

section \<open>Well-formed trees\<close>

text \<open>No table is reached twice, no table is a frame the allocator may hand out, and the two upper
  levels hold no huge page.  \<open>A\<close> is the set of the frames that are free.\<close>

definition tree_ok :: "nat set \<Rightarrow> buf \<Rightarrow> nat \<Rightarrow> bool" where
  "tree_ok A m r \<longleftrightarrow> r mod 4096 = 0 \<and> (\<forall>a \<in> A. a mod 4096 = 0) \<and>
     (\<forall>p q a. vpath 3 p \<longrightarrow> vpath 3 q \<longrightarrow> node m r p = Some a \<longrightarrow> node m r q = Some a \<longrightarrow> p = q) \<and>
     (\<forall>p a. vpath 3 p \<longrightarrow> node m r p = Some a \<longrightarrow> a \<notin> A) \<and>
     (\<forall>q. vpath 2 q \<longrightarrow> q \<noteq> [] \<longrightarrow> has PG_PRESENT (pent m r q) \<longrightarrow> \<not> has 0x80 (pent m r q))"

lemma tree_okD:
  assumes "tree_ok A m r"
  shows "r mod 4096 = 0" "a \<in> A \<Longrightarrow> a mod 4096 = 0"
    "vpath 3 p \<Longrightarrow> vpath 3 q \<Longrightarrow> node m r p = Some a \<Longrightarrow> node m r q = Some a \<Longrightarrow> p = q"
    "vpath 3 p \<Longrightarrow> node m r p = Some a \<Longrightarrow> a \<notin> A"
    "vpath 2 q \<Longrightarrow> q \<noteq> [] \<Longrightarrow> has PG_PRESENT (pent m r q) \<Longrightarrow> \<not> has 0x80 (pent m r q)"
  using assms unfolding tree_ok_def by blast+

text \<open>A write to one entry changes that entry and what lies below it.\<close>

lemma node_write:
  assumes ok: "tree_ok A m r" and p: "vpath 3 p" "node m r p = Some t" "i < 512"
    and m': "m' = wr_le (t + 8 * i) e 8 m"
  shows "vpath 3 q \<Longrightarrow> \<not> prefix (p @ [i]) q \<Longrightarrow> node m' r q = node m r q"
proof (induction q rule: rev_induct)
  case Nil
  then show ?case by simp
next
  case (snoc j q)
  have q: "vpath 3 q" "j < 512" "\<not> prefix (p @ [i]) q" and ne: "q @ [j] \<noteq> p @ [i]"
    using snoc.prems by (auto simp: vpath_def)
  have IH: "node m' r q = node m r q" by (rule snoc.IH [OF q(1,3)])
  show ?case
  proof (cases "node m r q")
    case None
    then show ?thesis by (simp add: node_append IH)
  next
    case (Some u)
    have "\<not> (u = t \<and> j = i)"
      using tree_okD(3) [OF ok p(1) q(1) p(2)] Some ne by auto
    moreover have "t mod 4096 = 0" "u mod 4096 = 0"
      using node_aligned [OF p(2)] node_aligned [OF Some] tree_okD(1) [OF ok] by simp_all
    ultimately have "ent m' u j = ent m u j"
      using ent_wr [of t u i j e m] p(3) q(2) unfolding m' by presburger
    then show ?thesis by (simp add: node_append IH Some)
  qed
qed

lemma pent_write:
  assumes ok: "tree_ok A m r" and p: "vpath 3 p" "node m r p = Some t" "i < 512"
    and m': "m' = wr_le (t + 8 * i) e 8 m"
    and q: "vpath 3 q" "j < 512" "\<not> prefix (p @ [i]) q"
  shows "pent m' r (q @ [j]) = (if q @ [j] = p @ [i] then e else pent m r (q @ [j]))"
proof -
  have n: "node m' r q = node m r q" by (rule node_write [OF ok p m' q(1,3)])
  show ?thesis
  proof (cases "node m r q")
    case None
    then show ?thesis using p(2) n by (auto simp: pent_snoc)
  next
    case (Some u)
    have al: "t mod 4096 = 0" "u mod 4096 = 0"
      using node_aligned [OF p(2)] node_aligned [OF Some] tree_okD(1) [OF ok] by simp_all
    have "u = t \<longleftrightarrow> q = p" using tree_okD(3) [OF ok p(1) q(1) p(2)] Some p(2) by auto
    moreover have "ent m' u j = (if u = t \<and> j = i then e else ent m u j)"
      unfolding m' by (rule ent_wr [OF al p(3) q(2)])
    ultimately show ?thesis by (auto simp: pent_snoc n Some)
  qed
qed

lemma tree_ok_cong:
  assumes "tree_ok A m r" "\<And>q. vpath 3 q \<Longrightarrow> node m' r q = node m r q"
    "\<And>q. vpath 2 q \<Longrightarrow> q \<noteq> [] \<Longrightarrow> pent m' r q = pent m r q"
  shows "tree_ok A m' r"
  using assms(1) unfolding tree_ok_def by (simp add: assms(2,3) cong: imp_cong)

lemma node_zero:
  assumes ok: "tree_ok A m r" and f: "f \<in> A"
  shows "vpath 3 q \<Longrightarrow> node (put_zero 4096 f m) r q = node m r q"
proof (induction q rule: rev_induct)
  case (snoc j q)
  have q: "vpath 3 q" "j < 512" using snoc.prems by (auto simp: vpath_def)
  have IH: "node (put_zero 4096 f m) r q = node m r q" by (rule snoc.IH [OF q(1)])
  show ?case
  proof (cases "node m r q")
    case (Some u)
    have "u \<noteq> f" using tree_okD(4) [OF ok q(1) Some] f by auto
    moreover have "u mod 4096 = 0" using node_aligned [OF Some] tree_okD(1) [OF ok] by simp
    ultimately have "ent (put_zero 4096 f m) u j = ent m u j"
      using ent_zero [OF tree_okD(2) [OF ok f] _ q(2)] by simp
    then show ?thesis by (simp add: node_append IH Some)
  qed (simp add: node_append IH)
qed simp

lemma vpath_snocD: "vpath 4 q \<Longrightarrow> q \<noteq> [] \<Longrightarrow> \<exists>p i. q = p @ [i] \<and> vpath 3 p \<and> i < 512"
  by (cases q rule: rev_exhaust) (auto simp: vpath_def)

lemma pent_zero:
  assumes ok: "tree_ok A m r" and f: "f \<in> A" and q: "vpath 4 q" "q \<noteq> []"
  shows "pent (put_zero 4096 f m) r q = pent m r q"
proof -
  obtain p j where p: "q = p @ [j]" "vpath 3 p" "j < 512" using vpath_snocD [OF q] by blast
  have n: "node (put_zero 4096 f m) r p = node m r p" by (rule node_zero [OF ok f p(2)])
  show ?thesis
  proof (cases "node m r p")
    case None
    then show ?thesis by (simp add: p(1) pent_snoc n)
  next
    case (Some u)
    have "u \<noteq> f" using tree_okD(4) [OF ok p(2) Some] f by auto
    moreover have "u mod 4096 = 0" using node_aligned [OF Some] tree_okD(1) [OF ok] by simp
    ultimately have "ent (put_zero 4096 f m) u j = ent m u j"
      using ent_zero [OF tree_okD(2) [OF ok f] _ p(3)] by simp
    then show ?thesis by (simp add: p(1) pent_snoc n Some)
  qed
qed

lemma tree_ok_zero:
  assumes "tree_ok A m r" "f \<in> A"
  shows "tree_ok A (put_zero 4096 f m) r"
  using assms by (intro tree_ok_cong [OF assms(1)] node_zero pent_zero) (auto intro: vpath_mono)

lemma pent_below: "node m r p = None \<Longrightarrow> q \<noteq> [] \<Longrightarrow> pent m r (p @ q) = 0"
  by (simp add: pent_def butlast_append node_append)

lemma tree_set_leaf:
  assumes ok: "tree_ok A m r" and p: "vpath 3 p" "length p = 3" "node m r p = Some t" "i < 512"
    and m': "m' = wr_le (t + 8 * i) e 8 m"
  shows "tree_ok A m' r"
    "vpath 4 q \<Longrightarrow> q \<noteq> [] \<Longrightarrow> pent m' r q = (if q = p @ [i] then e else pent m r q)"
proof -
  have np: "\<not> prefix (p @ [i]) q" if "vpath 3 q" for q
    using that p(2) prefix_length_le [of "p @ [i]" q] by (auto simp: vpath_def)
  have *: "pent m' r q = (if q = p @ [i] then e else pent m r q)" if q: "vpath 4 q" "q \<noteq> []" for q
  proof -
    obtain q' j where q': "q = q' @ [j]" "vpath 3 q'" "j < 512" using vpath_snocD [OF q] by blast
    show ?thesis unfolding q'(1) by (rule pent_write [OF ok p(1,3,4) m' q'(2,3) np [OF q'(2)]])
  qed
  then show "vpath 4 q \<Longrightarrow> q \<noteq> [] \<Longrightarrow> pent m' r q = (if q = p @ [i] then e else pent m r q)" .
  show "tree_ok A m' r"
  proof (rule tree_ok_cong [OF ok])
    show "node m' r q = node m r q" if "vpath 3 q" for q
      by (rule node_write [OF ok p(1,3,4) m' that np [OF that]])
    show "pent m' r q = pent m r q" if q: "vpath 2 q" "q \<noteq> []" for q
    proof -
      have "q \<noteq> p @ [i]" using q(1) p(2) by (auto simp: vpath_def)
      then show ?thesis using * [OF vpath_mono [OF q(1)] q(2)] by simp
    qed
  qed
qed

lemma tree_new_table:
  assumes ok: "tree_ok A m r" and f: "f \<in> A" and p: "vpath 2 p" "node m r p = Some t" "i < 512"
    and absent: "\<not> has PG_PRESENT (ent m t i)" and e: "is_tab e" "pt_addr e = f"
    and m': "m' = wr_le (t + 8 * i) e 8 (put_zero 4096 f m)"
  shows "tree_ok (A - {f}) m' r" "node m' r (p @ [i]) = Some f"
    "vpath 4 q \<Longrightarrow> q \<noteq> [] \<Longrightarrow> pent m' r q = (if q = p @ [i] then e else pent m r q)"
proof -
  let ?m0 = "put_zero 4096 f m"
  have p3: "vpath 3 p" by (rule vpath_mono [OF p(1)]) simp
  have ok0: "tree_ok A ?m0 r" by (rule tree_ok_zero [OF ok f])
  have n0: "node ?m0 r p = Some t" using node_zero [OF ok f p3] p(2) by simp
  have tf: "t \<noteq> f" using tree_okD(4) [OF ok p3 p(2)] f by auto
  have al: "t mod 4096 = 0" "f mod 4096 = 0"
    using node_aligned [OF p(2)] tree_okD(1,2) [OF ok] f by simp_all
  have below0: "node m r (p @ [i]) = None"
    using absent by (simp add: node_append p(2) is_tab_def)
  have pe: "pent m' r (p @ [i]) = e"
    using pent_write [OF ok0 p3 n0 p(3) m' p3 p(3)] by simp
  show n: "node m' r (p @ [i]) = Some f" unfolding node_pent pe using e by simp
  have zero: "ent m' f j = 0" if "j < 512" for j
    using ent_wr [OF al p(3) that, of e ?m0] ent_zero [OF al(2,2) that, of m] tf unfolding m' by simp
  have *: "pent m' r q = (if q = p @ [i] then e else pent m r q)" if q: "vpath 4 q" "q \<noteq> []" for q
  proof -
    obtain q' j where q': "q = q' @ [j]" "vpath 3 q'" "j < 512" using vpath_snocD [OF q] by blast
    show ?thesis
    proof (cases "prefix (p @ [i]) q'")
      case False
      then show ?thesis
        using pent_write [OF ok0 p3 n0 p(3) m' q'(2,3)] pent_zero [OF ok f q] unfolding q'(1) by simp
    next
      case True
      then obtain ks where ks: "q' = (p @ [i]) @ ks" by (auto simp: prefix_def)
      have "pent m r q = 0" unfolding q'(1) ks using pent_below [OF below0, of "ks @ [j]"] by simp
      moreover have "pent m' r q = 0"
      proof (cases ks)
        case Nil
        then show ?thesis using zero [OF q'(3)] n unfolding q'(1) ks by (simp only: append_Nil2 pent_snoc option.case)
      next
        case (Cons k ks')
        then have "k < 512" using q'(2) ks by (simp add: vpath_def)
        then have "node m' r q' = None" unfolding ks node_append [of _ _ "p @ [i]"] n using zero Cons by simp
        then show ?thesis unfolding q'(1) pent_snoc by simp
      qed
      moreover have "q \<noteq> p @ [i]" using q'(1) ks by simp
      ultimately show ?thesis by simp
    qed
  qed
  then show "vpath 4 q \<Longrightarrow> q \<noteq> [] \<Longrightarrow> pent m' r q = (if q = p @ [i] then e else pent m r q)" .
  have nodes: "node m' r q = (if q = p @ [i] then Some f else node m r q)" if q: "vpath 3 q" for q
  proof (cases q rule: rev_exhaust)
    case Nil
    then show ?thesis by simp
  next
    case (snoc q' j)
    have "pent m' r q = (if q = p @ [i] then e else pent m r q)"
      using * [OF vpath_mono [OF q]] snoc by simp
    then show ?thesis unfolding snoc node_pent [of m'] node_pent [of m] using e
      by (cases "q' @ [j] = p @ [i]") (simp_all only: refl if_True if_False)
  qed
  show "tree_ok (A - {f}) m' r"
    unfolding tree_ok_def
  proof (intro conjI allI impI ballI)
    show "r mod 4096 = 0" by (rule tree_okD(1) [OF ok])
    show "a mod 4096 = 0" if "a \<in> A - {f}" for a using tree_okD(2) [OF ok] that by simp
    show "q = q'" if q: "vpath 3 q" "vpath 3 q'" and a: "node m' r q = Some a" "node m' r q' = Some a" for q q' a
    proof -
      have "node m r x \<noteq> Some f" if "vpath 3 x" for x using tree_okD(4) [OF ok that] f by blast
      then show ?thesis
        using a tree_okD(3) [OF ok q] q unfolding nodes [OF q(1)] nodes [OF q(2)] by (auto split: if_splits)
    qed
    show "a \<notin> A - {f}" if q: "vpath 3 q" "node m' r q = Some a" for q a
      using tree_okD(4) [OF ok q(1)] q(2) unfolding nodes [OF q(1)] by (auto split: if_splits)
    show "\<not> has 0x80 (pent m' r q)" if q: "vpath 2 q" "q \<noteq> []" "has PG_PRESENT (pent m' r q)" for q
      using tree_okD(5) [OF ok q(1,2)] q(3) * [OF vpath_mono [OF q(1)] q(2)] e(1)
      by (auto simp: is_tab_def split: if_splits)
  qed
qed

section \<open>What the processor does with a virtual address\<close>

text \<open>The walk of the hardware: the physical address, or \<open>None\<close> for a page fault.  Bit 7 in an entry of
  the two middle levels maps a page of 1 GiB or 2 MiB.\<close>

definition walk :: "buf \<Rightarrow> nat \<Rightarrow> u64 \<Rightarrow> u64 option" where
  "walk m r v =
     (let e4 = ent m r (ix 39 v) in
      if \<not> has PG_PRESENT e4 then None
      else let e3 = ent m (pt_addr e4) (ix 30 v) in
      if \<not> has PG_PRESENT e3 then None
      else if has 0x80 e3 then Some ((e3 AND 0x000FFFFFC0000000) OR (v AND 0x3FFFFFFF))
      else let e2 = ent m (pt_addr e3) (ix 21 v) in
      if \<not> has PG_PRESENT e2 then None
      else if has 0x80 e2 then Some ((e2 AND 0x000FFFFFFFE00000) OR (v AND 0x1FFFFF))
      else let e1 = ent m (pt_addr e2) (ix 12 v) in
      if \<not> has PG_PRESENT e1 then None
      else Some ((e1 AND PT_MASK) OR (v AND 0xFFF)))"

definition pd_path :: "u64 \<Rightarrow> nat list" where "pd_path v = [ix 39 v, ix 30 v]"
definition pt_path :: "u64 \<Rightarrow> nat list" where "pt_path v = [ix 39 v, ix 30 v, ix 21 v]"
definition page_path :: "u64 \<Rightarrow> nat list" where "page_path v = [ix 39 v, ix 30 v, ix 21 v, ix 12 v]"

lemma path_snoc:
  "pd_path v = [ix 39 v] @ [ix 30 v]" "pt_path v = pd_path v @ [ix 21 v]" "page_path v = pt_path v @ [ix 12 v]"
  by (simp_all add: pd_path_def pt_path_def page_path_def)

lemma vpath_of [simp]:
  "vpath 2 [ix 39 v]" "vpath 2 (pd_path v)" "vpath 3 (pt_path v)" "vpath 4 (page_path v)" "vpath 4 (pt_path v)"
  "length (pd_path v) = 2" "length (pt_path v) = 3" "length (page_path v) = 4"
  "pt_path v \<noteq> []" "page_path v \<noteq> []" "pd_path v \<noteq> []"
  by (simp_all add: vpath_def pd_path_def pt_path_def page_path_def)

definition xlate :: "u64 \<Rightarrow> u64 \<Rightarrow> u64 \<Rightarrow> u64 option" where
  "xlate e2 e1 v =
     (if \<not> has PG_PRESENT e2 then None
      else if has 0x80 e2 then Some ((e2 AND 0x000FFFFFFFE00000) OR (v AND 0x1FFFFF))
      else if \<not> has PG_PRESENT e1 then None
      else Some ((e1 AND PT_MASK) OR (v AND 0xFFF)))"

lemma has_0 [simp]: "\<not> has f 0"
  by (simp add: has_def)

lemma walk_pent:
  assumes ok: "tree_ok A m r"
  shows "walk m r v = xlate (pent m r (pt_path v)) (pent m r (page_path v)) v"
proof -
  define e4 where "e4 = ent m r (ix 39 v)"
  define e3 where "e3 = ent m (pt_addr e4) (ix 30 v)"
  define e2 where "e2 = ent m (pt_addr e3) (ix 21 v)"
  define e1 where "e1 = ent m (pt_addr e2) (ix 12 v)"
  note es = e4_def [symmetric] e3_def [symmetric] e2_def [symmetric] e1_def [symmetric]
  have p4: "pent m r [ix 39 v] = e4" by (simp add: pent_def e4_def)
  have p3: "pent m r (pd_path v) = (if is_tab e4 then e3 else 0)"
    by (simp add: pent_def pd_path_def es)
  have p2: "pent m r (pt_path v) = (if is_tab e4 \<and> is_tab e3 then e2 else 0)"
    by (simp add: pent_def pt_path_def es)
  have p1: "pent m r (page_path v) = (if is_tab e4 \<and> is_tab e3 \<and> is_tab e2 then e1 else 0)"
    by (simp add: pent_def page_path_def es)
  have t4: "is_tab e4 \<longleftrightarrow> has PG_PRESENT e4"
    using tree_okD(5) [OF ok, of "[ix 39 v]"] by (auto simp: p4 is_tab_def)
  have t3: "is_tab e3 \<longleftrightarrow> has PG_PRESENT e3" if "is_tab e4"
    using tree_okD(5) [OF ok, of "pd_path v"] that by (auto simp: p3 is_tab_def)
  show ?thesis
    unfolding walk_def Let_def es p1 p2 xlate_def using t4 t3 by (auto simp: is_tab_def)
qed

section \<open>Frames for tables\<close>

definition avail :: "mm_state \<Rightarrow> nat set" where "avail s = pmm_addr (pmm_clear (mm_pmm s))"

definition pool :: "mm_state \<Rightarrow> nat set" where "pool s = pmm_addr (pmm_managed (mm_pmm s))"

definition mm_ok :: "nat \<Rightarrow> mm_state \<Rightarrow> bool" where
  "mm_ok r s \<longleftrightarrow> pmm_inv (mm_pmm s) \<and> tree_ok (avail s) (pmem s) r"

text \<open>Only the allocator and the memory differ.\<close>

definition same_regs :: "mm_state \<Rightarrow> mm_state \<Rightarrow> bool" where
  "same_regs s s' \<longleftrightarrow> s' = s\<lparr>mm_pmm := mm_pmm s', pmem := pmem s'\<rparr>"

lemma same_regs_refl [simp, intro]: "same_regs s s"
  by (simp add: same_regs_def)

lemma same_regs_trans: "same_regs s s' \<Longrightarrow> same_regs s' s'' \<Longrightarrow> same_regs s s''"
  by (cases s; cases s'; cases s'') (simp add: same_regs_def)

lemma same_regs_set_ent [simp]: "same_regs s (set_ent t i e s)" "same_regs s (zero_frame f s)" "same_regs s (copy_table a b s)"
  by (simp_all add: same_regs_def set_ent_def zero_frame_def copy_table_def)

lemma same_regs_fields:
  "same_regs s s' \<Longrightarrow> cr3 s' = cr3 s" "same_regs s s' \<Longrightarrow> cur_pml4 s' = cur_pml4 s"
  "same_regs s s' \<Longrightarrow> g_kuser_page s' = g_kuser_page s" "same_regs s s' \<Longrightarrow> s_mmio_next s' = s_mmio_next s"
  by (cases s; cases s'; simp add: same_regs_def cur_pml4_def mm_get_cr3_def)+

lemma set_ent_fields [simp]:
  "mm_pmm (set_ent t i e s) = mm_pmm s" "pmem (set_ent t i e s) = wr_le (t + 8 * i) e 8 (pmem s)"
  "mm_pmm (zero_frame f s) = mm_pmm s" "pmem (zero_frame f s) = put_zero 4096 f (pmem s)"
  "avail (set_ent t i e s) = avail s" "avail (zero_frame f s) = avail s"
  "pool (set_ent t i e s) = pool s" "pool (zero_frame f s) = pool s"
  by (simp_all add: set_ent_def zero_frame_def avail_def pool_def)

lemma pmm_addr_frame: "F \<subseteq> pmm_managed s \<Longrightarrow> s_top_frame s \<le> MAX_FRAMES \<Longrightarrow> a \<in> pmm_addr F \<Longrightarrow> a mod 4096 = 0 \<and> 0 < a \<and> a < 2 ^ 30"
  by (auto simp: pmm_addr_def pmm_managed_def pmm_consts)

lemma alloc_frame_cases:
  assumes "pmm_inv (mm_pmm s)" "alloc_frame s = (s', f)"
  shows "pmm_inv (mm_pmm s')" "same_regs s s'" "pmem s' = pmem s"
    "f = 0 \<Longrightarrow> s' = s \<and> avail s = {}"
    "f \<noteq> 0 \<Longrightarrow> f \<in> avail s \<and> f mod 4096 = 0 \<and> f < 2 ^ 30 \<and> avail s' = avail s - {f}"
    "f \<noteq> 0 \<Longrightarrow> f \<in> pool s" "pool s' = pool s"
proof -
  obtain p where p: "pmm_alloc_frame (mm_pmm s) = (p, f)" "s' = s\<lparr>mm_pmm := p\<rparr>"
    using assms(2) by (auto simp: alloc_frame_def split: prod.splits)
  show "pmm_inv (mm_pmm s')" using pmm.alloc_inv [OF assms(1) p(1)] by (simp add: p(2))
  show "same_regs s s'" "pmem s' = pmem s" by (simp_all add: p(2) same_regs_def)
  show "pool s' = pool s" using pmm.alloc_pool [OF assms(1) p(1)] by (simp add: p(2) pool_def)
  show "f \<in> pool s" if "f \<noteq> 0" using pmm.alloc_fresh [OF assms(1) p(1) that] by (simp add: pool_def)
  show "s' = s \<and> avail s = {}" if "f = 0"
    using pmm.alloc_cases [OF assms(1) p(1)] that by (auto simp: p(2) avail_def)
  show "f \<in> avail s \<and> f mod 4096 = 0 \<and> f < 2 ^ 30 \<and> avail s' = avail s - {f}" if "f \<noteq> 0"
  proof -
    have f: "f \<in> avail s" "avail s' = avail s - {f}"
      using pmm.alloc_cases [OF assms(1) p(1)] that by (auto simp: p(2) avail_def)
    then show ?thesis
      using pmm_addr_frame [of "pmm_clear (mm_pmm s)" "mm_pmm s" f] assms(1) by (auto simp: pmm_inv_def avail_def)
  qed
qed

lemma pt_mask_id:
  assumes "unat x mod 4096 = 0" "unat x < 2 ^ 52"
  shows "x AND PT_MASK = x"
proof (rule bit_word_eqI)
  fix k assume "k < LENGTH(64)"
  have m: "PT_MASK = mask 52 AND NOT (mask 12)" by (simp add: PT_MASK_def mask_eq_exp_minus_1)
  have "\<not> bit (unat x) k" if "52 \<le> k"
  proof -
    have "unat x < 2 ^ k" using assms(2) power_increasing [of 52 k "2::nat"] that by linarith
    then show ?thesis by (simp add: bit_iff_odd)
  qed
  moreover have "\<not> bit (unat x) k" if "k < 12"
  proof -
    obtain g where "unat x = push_bit 12 g" using assms(1) by (auto simp: mod_eq_0_iff_dvd dvd_def push_bit_eq_mult)
    then show ?thesis using that by (simp add: bit_push_bit_iff)
  qed
  moreover have "bit (unat x) k = bit x k" using \<open>k < LENGTH(64)\<close> by (simp add: bit_unsigned_iff)
  ultimately show "bit (x AND PT_MASK) k = bit x k"
    unfolding m by (cases "52 \<le> k") (auto simp: bit_simps possible_bit_def)
qed

text \<open>A frame address with flags in its low bits is an entry that points to the frame.\<close>

lemma frame_entry:
  assumes "f mod 4096 = 0" "f < 2 ^ 30" "fl AND PT_MASK = 0"
  shows "pt_addr (of_nat f OR fl) = f"
proof -
  have f: "unat (of_nat f :: u64) = f" using assms(2) by (intro unat_of_nat_small) simp
  have "(of_nat f OR fl) AND PT_MASK = (of_nat f :: u64) AND PT_MASK"
    using assms(3) by (simp add: and.commute bit.conj_disj_distrib)
  also have "\<dots> = of_nat f" using assms by (intro pt_mask_id) (simp_all add: f)
  finally show ?thesis using f by (simp add: pt_addr_def)
qed

lemma frame_entry_tab:
  assumes "f mod 4096 = 0" "has PG_PRESENT fl" "\<not> has 0x80 fl"
  shows "is_tab (of_nat f OR fl)"
proof -
  obtain g where "f = push_bit 12 g" using assms(1) by (auto simp: mod_eq_0_iff_dvd dvd_def push_bit_eq_mult)
  then have "\<not> bit f 7" by (simp add: bit_push_bit_iff)
  then show ?thesis
    using assms(2,3) by (simp add: is_tab_def PG_PRESENT_def has_bit bit_or_iff bit_of_nat_iff)
qed

definition tab_flags :: "u64 \<Rightarrow> bool" where
  "tab_flags fl \<longleftrightarrow> has PG_PRESENT fl \<and> \<not> has 0x80 fl \<and> fl AND PT_MASK = 0"

lemma node_tab:
  assumes "node m r (p @ [i]) = Some t"
  shows "is_tab (pent m r (p @ [i]))"
  using assms unfolding node_pent by (simp split: if_splits)

lemma walk_new_table:
  assumes ok: "tree_ok A m r" "tree_ok A' m' r" and p: "vpath 2 p" and absent: "\<not> has PG_PRESENT (pent m r (p @ [i]))"
    and e: "is_tab e"
    and same: "\<And>q. vpath 4 q \<Longrightarrow> q \<noteq> [] \<Longrightarrow> pent m' r q = (if q = p @ [i] then e else pent m r q)"
  shows "walk m' r v = walk m r v"
proof -
  have "length (p @ [i]) \<le> 3" using p by (simp add: vpath_def)
  then have "length (page_path v) \<noteq> length (p @ [i])" unfolding vpath_of(8) by linarith
  then have "page_path v \<noteq> p @ [i]" by metis
  then have p1: "pent m' r (page_path v) = pent m r (page_path v)" using same by simp
  show ?thesis
  proof (cases "pt_path v = p @ [i]")
    case True
    then have "\<not> is_tab (pent m r (pt_path v))" using absent by (simp add: is_tab_def)
    then have "node m r (pt_path v) = None" unfolding True node_pent by simp
    then have "pent m r (page_path v) = 0" unfolding path_snoc(3) by (intro pent_below) simp_all
    moreover have "pent m' r (pt_path v) = e"
      using same [OF vpath_of(5) vpath_of(9), of v] unfolding True by (simp only: refl if_True)
    ultimately show ?thesis
      unfolding walk_pent [OF ok(1)] walk_pent [OF ok(2)] p1 using absent e True
      by (simp add: xlate_def is_tab_def)
  next
    case False
    then show ?thesis
      unfolding walk_pent [OF ok(1)] walk_pent [OF ok(2)] p1 using same [of "pt_path v"] by simp
  qed
qed

lemma ensure_table_spec:
  assumes ok: "mm_ok r s" and p: "vpath 2 p" "node (pmem s) r p = Some t" "i < 512" and fl: "tab_flags fl"
    and nohuge: "length p = 2 \<longrightarrow> \<not> has 0x80 (ent (pmem s) t i)"
    and e: "ensure_table t i fl s = (s', a)"
  shows "mm_ok r s'" "same_regs s s'" "a \<noteq> 0 \<Longrightarrow> node (pmem s') r (p @ [i]) = Some a"
    "walk (pmem s') r v = walk (pmem s) r v" "avail s' \<subseteq> avail s"
proof -
  have inv: "pmm_inv (mm_pmm s)" and tree: "tree_ok (avail s) (pmem s) r" using ok by (simp_all add: mm_ok_def)
  have pent: "pent (pmem s) r (p @ [i]) = ent (pmem s) t i" by (simp add: pent_snoc p(2))
  have *: "mm_ok r s' \<and> same_regs s s' \<and> (a \<noteq> 0 \<longrightarrow> node (pmem s') r (p @ [i]) = Some a) \<and>
    walk (pmem s') r v = walk (pmem s) r v \<and> avail s' \<subseteq> avail s"
  proof (cases "has PG_PRESENT (ent (pmem s) t i)")
    case True
    have "\<not> has 0x80 (ent (pmem s) t i)"
    proof (cases "length p = 2")
      case False
      then have "vpath 2 (p @ [i])" using p(1,3) by (auto simp: vpath_def)
      then show ?thesis using tree_okD(5) [OF tree, of "p @ [i]"] True pent by simp
    qed (use nohuge in simp)
    then have "node (pmem s) r (p @ [i]) = Some (pt_addr (ent (pmem s) t i))"
      using True by (simp add: node_append p(2) is_tab_def)
    moreover have "s' = s" "a = pt_addr (ent (pmem s) t i)" using e True by (auto simp: ensure_table_def)
    ultimately show ?thesis using ok by simp
  next
    case False
    obtain s1 f where af: "alloc_frame s = (s1, f)" by fastforce
    note al = alloc_frame_cases [OF inv af]
    show ?thesis
    proof (cases "f = 0")
      case True
      then have "s' = s" "a = 0" using e False af al(4) by (simp_all add: ensure_table_def)
      then show ?thesis using ok by simp
    next
      case nz: False
      note f = al(5) [OF nz]
      have s': "s' = set_ent t i (of_nat f OR fl) (zero_frame f s1)"
          "a = pt_addr (ent (pmem s') t i)"
        using e False af nz by (auto simp: ensure_table_def Let_def)
      have tabe: "is_tab (of_nat f OR fl)" "pt_addr (of_nat f OR fl) = f"
        using frame_entry_tab [of f fl] frame_entry [of f fl] f fl by (auto simp: tab_flags_def)
      have mem: "pmem s' = wr_le (t + 8 * i) (of_nat f OR fl) 8 (put_zero 4096 f (pmem s))"
        unfolding s'(1) by (simp add: al(3))
      have av: "avail s' = avail s - {f}" unfolding s'(1) using f by simp
      note new = tree_new_table [OF tree conjunct1 [OF f] p False tabe mem]
      have "mm_ok r s'" using new(1) al(1) av unfolding mm_ok_def s'(1) by simp
      moreover have "same_regs s s'" unfolding s'(1) by (meson al(2) same_regs_set_ent same_regs_trans)
      moreover have "node (pmem s') r (p @ [i]) = Some a"
      proof -
        have t: "t mod 4096 = 0" using node_aligned [OF p(2)] tree_okD(1) [OF tree] .
        have "ent (pmem s') t i = of_nat f OR fl" unfolding mem using ent_wr [OF t t p(3) p(3)] by simp
        then show ?thesis using new(2) tabe(2) s'(2) by simp
      qed
      moreover have "walk (pmem s') r v = walk (pmem s) r v"
        using False pent by (intro walk_new_table [OF tree new(1) p(1) _ tabe(1) new(3)]) simp_all
      ultimately show ?thesis using av by auto
    qed
  qed
  then show "mm_ok r s'" "same_regs s s'" "a \<noteq> 0 \<Longrightarrow> node (pmem s') r (p @ [i]) = Some a"
    "walk (pmem s') r v = walk (pmem s) r v" "avail s' \<subseteq> avail s" by blast+
qed

lemma walk_set_leaf:
  assumes ok: "tree_ok A m r" and t: "node m r (pt_path v) = Some t"
    and m': "m' = wr_le (t + 8 * ix 12 v) e 8 m"
  shows "tree_ok A m' r" "page_path w \<noteq> page_path v \<Longrightarrow> walk m' r w = walk m r w"
    "page_path w = page_path v \<Longrightarrow> walk m' r w = (if has PG_PRESENT e then Some ((e AND PT_MASK) OR (w AND 0xFFF)) else None)"
proof -
  note leaf = tree_set_leaf [OF ok vpath_of(3) vpath_of(7) t ix_less m']
  show ok': "tree_ok A m' r" by (rule leaf(1))
  have p2: "pent m' r (pt_path x) = pent m r (pt_path x)" for x
  proof -
    have "length (pt_path x) \<noteq> length (pt_path v @ [ix 12 v])" by simp
    then have "pt_path x \<noteq> pt_path v @ [ix 12 v]" by metis
    then show ?thesis using leaf(2) by simp
  qed
  have p1: "pent m' r (page_path x) = (if page_path x = page_path v then e else pent m r (page_path x))" for x
    using leaf(2) [OF vpath_of(4) vpath_of(10), of x] unfolding path_snoc(3) [of v] .
  show "walk m' r w = walk m r w" if "page_path w \<noteq> page_path v"
    unfolding walk_pent [OF ok] walk_pent [OF ok'] p1 p2 using that by simp
  show "walk m' r w = (if has PG_PRESENT e then Some ((e AND PT_MASK) OR (w AND 0xFFF)) else None)"
    if same: "page_path w = page_path v"
  proof -
    have "pt_path w = pt_path v" using same unfolding path_snoc(3) by simp
    moreover have "is_tab (pent m r (pt_path v))" using t unfolding path_snoc(2) by (rule node_tab)
    ultimately show ?thesis
      unfolding walk_pent [OF ok'] p1 p2 using same by (auto simp: xlate_def is_tab_def)
  qed
qed

lemma map_page_spec:
  assumes ok: "mm_ok r s" and tf: "tab_flags tf" and pf: "has PG_PRESENT pf" "pf AND PT_MASK = 0"
    and mp: "map_page r pf tf v p s = (s', b)"
  shows "mm_ok r s'" "same_regs s s'" "page_path w \<noteq> page_path v \<Longrightarrow> walk (pmem s') r w = walk (pmem s) r w"
    "b \<Longrightarrow> page_path w = page_path v \<Longrightarrow> walk (pmem s') r w = Some ((p AND PT_MASK) OR (w AND 0xFFF))"
    "avail s' \<subseteq> avail s"
proof -
  obtain s1 t3 where e3: "ensure_table r (ix 39 v) tf s = (s1, t3)" by fastforce
  obtain s2 t2 where e2: "ensure_table t3 (ix 30 v) tf s1 = (s2, t2)" by fastforce
  obtain s3 t1 where e1: "ensure_table t2 (ix 21 v) tf s2 = (s3, t1)" by fastforce
  have len: "length ([] :: nat list) = 2 \<longrightarrow> \<not> has 0x80 x" "length [ix 39 v] = 2 \<longrightarrow> \<not> has 0x80 x" for x
    by simp_all
  have "vpath 2 []" "node (pmem s) r [] = Some r" by (simp_all add: vpath_def)
  note A = ensure_table_spec [OF ok this ix_less tf len(1) e3, unfolded append_Nil]
  have G: "mm_ok r s' \<and> same_regs s s' \<and> avail s' \<subseteq> avail s \<and>
    (page_path w \<noteq> page_path v \<longrightarrow> walk (pmem s') r w = walk (pmem s) r w) \<and>
    (b \<longrightarrow> page_path w = page_path v \<longrightarrow> walk (pmem s') r w = Some ((p AND PT_MASK) OR (w AND 0xFFF)))"
  proof (cases "t3 = 0")
    case True
    then have "s' = s1" "\<not> b" using mp e3 by (auto simp: map_page_def)
    then show ?thesis using A by simp
  next
    case nz3: False
    note B = ensure_table_spec [OF A(1) vpath_of(1) A(3) [OF nz3] ix_less tf len(2) e2, folded path_snoc(1)]
    have AB: "same_regs s s2" "walk (pmem s2) r x = walk (pmem s) r x" "avail s2 \<subseteq> avail s" for x
      using same_regs_trans [OF A(2) B(2)] A(4) B(4) A(5) B(5) by simp_all
    show ?thesis
    proof (cases "t2 = 0 \<or> has 0x80 (ent (pmem s2) t2 (ix 21 v))")
      case True
      then have "s' = s2" "\<not> b" using mp e3 e2 nz3 by (auto simp: map_page_def split: if_splits)
      then show ?thesis using AB B(1) by simp
    next
      case False
      then have nz2: "t2 \<noteq> 0" and nh: "\<not> has 0x80 (ent (pmem s2) t2 (ix 21 v))" by simp_all
      have "length (pd_path v) = 2 \<longrightarrow> \<not> has 0x80 (ent (pmem s2) t2 (ix 21 v))" using nh by simp
      note C = ensure_table_spec [OF B(1) vpath_of(2) B(3) [OF nz2] ix_less tf this e1, folded path_snoc(2)]
      have AC: "same_regs s s3" "walk (pmem s3) r x = walk (pmem s) r x" "avail s3 \<subseteq> avail s" for x
        using same_regs_trans [OF AB(1) C(2)] AB(2) C(4) AB(3) C(5) by simp_all
      show ?thesis
      proof (cases "t1 = 0")
        case True
        then have "s' = s3" "\<not> b" using mp e3 e2 e1 nz3 nz2 nh by (auto simp: map_page_def)
        then show ?thesis using AC C(1) by simp
      next
        case nz1: False
        have s': "s' = set_ent t1 (ix 12 v) ((p AND PT_MASK) OR pf) s3"
          using mp e3 e2 e1 nz3 nz2 nz1 nh by (auto simp: map_page_def)
        have tree: "tree_ok (avail s3) (pmem s3) r" using C(1) by (simp add: mm_ok_def)
        have mem: "pmem s' = wr_le (t1 + 8 * ix 12 v) ((p AND PT_MASK) OR pf) 8 (pmem s3)"
          unfolding s' by simp
        note W = walk_set_leaf [OF tree C(3) [OF nz1] mem]
        have "has PG_PRESENT ((p AND PT_MASK) OR pf)"
          using pf(1) by (simp add: PG_PRESENT_def has_bit bit_or_iff)
        moreover have "((p AND PT_MASK) OR pf) AND PT_MASK = p AND PT_MASK"
          using pf(2) by (simp add: and.commute bit.conj_disj_distrib)
        moreover have "mm_ok r s'" using W(1) C(1) unfolding mm_ok_def s' by simp
        moreover have "same_regs s s'" unfolding s' by (meson AC(1) same_regs_set_ent same_regs_trans)
        moreover have "avail s' \<subseteq> avail s" using AC(3) unfolding s' by simp
        ultimately show ?thesis using W(2,3) AC(2) by simp
      qed
    qed
  qed
  then show "mm_ok r s'" "same_regs s s'" "page_path w \<noteq> page_path v \<Longrightarrow> walk (pmem s') r w = walk (pmem s) r w"
    "b \<Longrightarrow> page_path w = page_path v \<Longrightarrow> walk (pmem s') r w = Some ((p AND PT_MASK) OR (w AND 0xFFF))"
    "avail s' \<subseteq> avail s"
    by blast+
qed

section \<open>Page numbers\<close>

definition vpn :: "u64 \<Rightarrow> nat" where "vpn v = unat v div 2 ^ 12 mod 2 ^ 36"

lemma digits512: "(x :: nat) mod 2 ^ 36 = x mod 512 + 512 * (x div 512 mod 512 + 512 * (x div 2 ^ 18 mod 512 + 512 * (x div 2 ^ 27 mod 512)))"
proof -
  have a: "x mod (512 * y) = x mod 512 + 512 * (x div 512 mod y)" for x y :: nat
    using mod_mult2_eq [of x 512 y] by simp
  have "x mod 2 ^ 36 = x mod (512 * (512 * (512 * 512)))" by simp
  also have "\<dots> = x mod 512 + 512 * (x div 512 mod 512 + 512 * (x div 512 div 512 mod 512 + 512 * (x div 512 div 512 div 512 mod 512)))"
    by (simp only: a)
  finally show ?thesis by (simp add: div_mult2_eq [symmetric])
qed

lemma page_path_vpn: "page_path w = page_path v \<longleftrightarrow> vpn w = vpn v"
proof -
  have d: "ix 12 u = unat u div 2 ^ 12 mod 512" "ix 21 u = unat u div 2 ^ 12 div 512 mod 512"
    "ix 30 u = unat u div 2 ^ 12 div 2 ^ 18 mod 512" "ix 39 u = unat u div 2 ^ 12 div 2 ^ 27 mod 512" for u
    unfolding ix_eq div_mult2_eq [symmetric] by simp_all
  have v: "vpn u = ix 12 u + 512 * (ix 21 u + 512 * (ix 30 u + 512 * ix 39 u))" for u
    unfolding vpn_def d by (rule digits512)
  have l: "(a :: nat) + 512 * b = a' + 512 * b' \<longleftrightarrow> a = a' \<and> b = b'" if "a < 512" "a' < 512" for a b a' b'
  proof
    assume e: "a + 512 * b = a' + 512 * b'"
    have "(a + 512 * b) mod 512 = a" "(a' + 512 * b') mod 512 = a'" using that by simp_all
    then have "a = a'" using e by metis
    then show "a = a' \<and> b = b'" using e by simp
  qed simp
  show ?thesis
    unfolding v page_path_def by (simp only: l ix_less list.inject simp_thms) blast
qed

section \<open>Loops over the pages of a range\<close>

text \<open>The effect of a loop on the translation: outside the pages of \<open>V\<close> nothing changes, and inside it
  is \<open>g\<close> when the loop succeeds.\<close>

definition remap :: "nat \<Rightarrow> u64 set \<Rightarrow> (u64 \<Rightarrow> u64 option) \<Rightarrow> mm_state \<Rightarrow> mm_state \<Rightarrow> bool \<Rightarrow> bool" where
  "remap r V g s s' b \<longleftrightarrow> mm_ok r s' \<and> same_regs s s' \<and> avail s' \<subseteq> avail s \<and>
     (\<forall>w. vpn w \<notin> vpn ` V \<longrightarrow> walk (pmem s') r w = walk (pmem s) r w) \<and>
     (b \<longrightarrow> (\<forall>w \<in> V. walk (pmem s') r w = g w))"

lemma remap_refl: "mm_ok r s \<Longrightarrow> remap r {} g s s b"
  by (simp add: remap_def)

lemma remap_trans:
  assumes a: "remap r V g s s1 True" and b: "remap r V' g s1 s2 b" and d: "vpn ` V \<inter> vpn ` V' = {}"
  shows "remap r (V \<union> V') g s s2 b"
proof -
  have "same_regs s s2" using a b same_regs_trans by (auto simp: remap_def)
  moreover have "walk (pmem s2) r w = walk (pmem s) r w" if "vpn w \<notin> vpn ` (V \<union> V')" for w
  proof -
    have "vpn w \<notin> vpn ` V" "vpn w \<notin> vpn ` V'" using that by blast+
    then show ?thesis using a b by (simp add: remap_def)
  qed
  moreover have "walk (pmem s2) r w = g w" if "b" "w \<in> V \<union> V'" for w
  proof (cases "w \<in> V'")
    case True
    then show ?thesis using b that(1) by (simp add: remap_def)
  next
    case False
    then have w: "w \<in> V" using that(2) by simp
    then have "vpn w \<notin> vpn ` V'" using d by blast
    then show ?thesis using a b w by (simp add: remap_def)
  qed
  ultimately show ?thesis using a b by (auto simp: remap_def)
qed

definition aligned12 :: "u64 \<Rightarrow> bool" where "aligned12 v \<longleftrightarrow> unat v mod 4096 = 0"

lemma page_step_unat:
  assumes "aligned12 v" "aligned12 e" "v < e"
  shows "unat (v + 0x1000) = unat v + 4096" "unat (v + 0xFFF) = unat v + 4095" "unat v + 4096 \<le> unat e" "aligned12 (v + 0x1000)"
proof -
  obtain a b where ab: "unat v = 4096 * a" "unat e = 4096 * b"
    using assms(1,2) by (auto simp: aligned12_def mod_eq_0_iff_dvd dvd_def)
  have "unat v < unat e" using assms(3) by (simp add: word_less_nat_alt)
  then show le: "unat v + 4096 \<le> unat e" unfolding ab by simp
  have lt: "unat e < 2 ^ 64" using unsigned_less [of e] by simp
  show u: "unat (v + 0x1000) = unat v + 4096" using le lt by (simp add: unat_word_ariths)
  show "unat (v + 0xFFF) = unat v + 4095" using le lt by (simp add: unat_word_ariths)
  show "aligned12 (v + 0x1000)" using assms(1) by (simp add: aligned12_def u)
qed

lemma page_split:
  assumes "aligned12 v" "aligned12 e" "v < e"
  shows "{v..v + 0xFFF} \<union> {v + 0x1000..<e} = {v..<e}"
  using page_step_unat [OF assms] by (auto simp: word_less_nat_alt word_le_nat_alt)

lemma page_vpn_disjoint:
  assumes "aligned12 v" "aligned12 e" "v < e" "unat e - unat v \<le> 2 ^ 48"
  shows "vpn ` {v..v + 0xFFF} \<inter> vpn ` {v + 0x1000..<e} = {}"
proof -
  note u = page_step_unat [OF assms(1-3)]
  have "vpn x \<noteq> vpn y" if x: "x \<in> {v..v + 0xFFF}" and y: "y \<in> {v + 0x1000..<e}" for x y
  proof -
    have x': "unat v \<le> unat x" "unat x \<le> unat v + 4095" using x u by (simp_all add: word_le_nat_alt)
    have y': "unat v + 4096 \<le> unat y" "unat y < unat e" using y u by (simp_all add: word_le_nat_alt word_less_nat_alt)
    obtain a b where ab: "unat v = 4096 * a" "unat e = 4096 * b"
      using assms(1,2) by (auto simp: aligned12_def mod_eq_0_iff_dvd dvd_def)
    have X: "unat x div 4096 = a" using x' unfolding ab by simp
    have Y: "a < unat y div 4096" "unat y div 4096 < b" using y' unfolding ab by (simp_all add: less_mult_imp_div_less div_less_iff_less_mult Suc_le_eq [symmetric] less_eq_div_iff_mult_less_eq mult.commute)
    have "b - a \<le> 2 ^ 36" using assms(4) unfolding ab by simp
    then have "unat y div 4096 - a < 2 ^ 36" using Y by linarith
    moreover have "0 < unat y div 4096 - a" using Y(1) by simp
    ultimately have "\<not> 2 ^ 36 dvd unat y div 4096 - a" using nat_dvd_not_less by blast
    then have "a mod 2 ^ 36 \<noteq> (unat y div 4096) mod 2 ^ 36"
      using mod_eq_dvd_iff_nat [of a "unat y div 4096" "2 ^ 36"] Y(1) by (metis less_imp_le_nat)
    then show ?thesis using X by (simp add: vpn_def)
  qed
  then show ?thesis by blast
qed

lemma pages_loop:
  assumes step: "\<And>v s s' b. mm_ok r s \<Longrightarrow> aligned12 v \<Longrightarrow> v < e \<Longrightarrow> stp v s = (s', b) \<Longrightarrow> remap r {v..v + 0xFFF} g s s' b"
    and loop: "\<And>v s. lp v s = (if v < e then (case stp v s of (s1, ok) \<Rightarrow> if ok then lp (v + 0x1000) s1 else Some (s1, False))
      else Some (s, True))"
    and e: "aligned12 e"
  shows "aligned12 v \<Longrightarrow> unat v + n * 4096 = unat e \<Longrightarrow> n \<le> 2 ^ 36 \<Longrightarrow> mm_ok r s \<Longrightarrow>
    \<exists>s' b. lp v s = Some (s', b) \<and> remap r {v..<e} g s s' b"
proof (induction n arbitrary: v s)
  case 0
  then have "v = e" by (simp add: word_unat_eq_iff)
  then show ?case using 0 loop [of v s] by (auto simp: remap_def)
next
  case (Suc n)
  have ve: "v < e" using Suc.prems(2) by (simp add: word_less_nat_alt)
  note u = page_step_unat [OF Suc.prems(1) e ve]
  obtain s1 b where st: "stp v s = (s1, b)" by fastforce
  have R: "remap r {v..v + 0xFFF} g s s1 b" by (rule step [OF Suc.prems(4,1) ve st])
  show ?case
  proof (cases b)
    case False
    have "lp v s = Some (s1, False)" using loop [of v s] ve st False by simp
    moreover have "remap r {v..<e} g s s1 False"
      using R unfolding page_split [OF Suc.prems(1) e ve, symmetric] by (auto simp: remap_def)
    ultimately show ?thesis by blast
  next
    case True
    have "mm_ok r s1" using R by (simp add: remap_def)
    then obtain s2 b2 where IH: "lp (v + 0x1000) s1 = Some (s2, b2)" "remap r {v + 0x1000..<e} g s1 s2 b2"
      using Suc.IH [of "v + 0x1000" s1] u Suc.prems(2,3) by auto
    have "lp v s = Some (s2, b2)" using loop [of v s] ve st True IH(1) by simp
    moreover have "vpn ` {v..v + 0xFFF} \<inter> vpn ` {v + 0x1000..<e} = {}"
      using Suc.prems(2,3) by (intro page_vpn_disjoint [OF Suc.prems(1) e ve]) simp
    with R True IH(2) have "remap r {v..<e} g s s2 b2"
      unfolding page_split [OF Suc.prems(1) e ve, symmetric] by (intro remap_trans) simp_all
    ultimately show ?thesis by blast
  qed
qed

section \<open>Mapping a range\<close>

lemma mask12: "(0xFFF :: u64) = mask 12"
  by (simp add: mask_eq_exp_minus_1)

lemma unat_page_down: "unat (page_down v) = unat v div 4096 * 4096"
  unfolding page_down_def mask12 unat_and_not_mask by simp

lemma page_down_aligned [simp]: "aligned12 (page_down v)"
  by (simp add: aligned12_def unat_page_down)

lemma unat_and_fff: "unat (w AND 0xFFF :: u64) = unat w mod 4096"
proof -
  have "unat (w AND 0xFFF) = unat (take_bit 12 w)" by (simp only: mask12 take_bit_eq_mask)
  also have "\<dots> = unat w mod 4096" unfolding unsigned_take_bit_eq by (simp add: take_bit_eq_mod)
  finally show ?thesis .
qed

lemma page_or_offset:
  assumes "aligned12 x"
  shows "x OR (w AND 0xFFF) = x + (w AND 0xFFF)"
proof -
  obtain g where "unat x = push_bit 12 g"
    using assms by (auto simp: aligned12_def mod_eq_0_iff_dvd dvd_def push_bit_eq_mult)
  then have "\<not> bit x k" if "k < 12" for k
    using that bit_unsigned_iff [where w = x and n = k, where 'a = nat] by (simp add: bit_push_bit_iff)
  then have "x AND (w AND 0xFFF) = 0"
    unfolding mask12 by (intro bit_word_eqI) (auto simp: bit_simps)
  then show ?thesis by (rule disjunctive_add_eq_or [symmetric])
qed

text \<open>The address that a page of a linear mapping gives: \<open>phys\<close> plus the offset in the range.\<close>

definition lin :: "u64 \<Rightarrow> u64 \<Rightarrow> u64 \<Rightarrow> u64 option" where
  "lin virt phys w = Some (((page_down phys + (page_down w - page_down virt)) AND PT_MASK) OR (w AND 0xFFF))"

lemma unat_add64: "unat a + unat b < 2 ^ 64 \<Longrightarrow> unat (a + b) = unat a + unat b" for a b :: u64
  by (simp add: unat_word_ariths)

lemma div_bounds: "(n :: nat) div 4096 * 4096 \<le> n" "n < n div 4096 * 4096 + 4096"
  using div_mult_mod_eq [of n 4096] mod_less_divisor [of 4096 n] by linarith+

lemma lin_linear:
  assumes cong: "unat virt mod 4096 = unat phys mod 4096" and b: "unat virt + k < 2 ^ 64" "unat phys + k < 2 ^ 52"
  shows "lin virt phys (virt + of_nat k) = Some (phys + of_nat k)"
proof -
  let ?w = "virt + of_nat k :: u64"
  have k: "unat (of_nat k :: u64) = k" using b(1) by (intro unat_of_nat_small) simp
  have w: "unat ?w = unat virt + k" using b(1) by (simp add: unat_word_ariths k)
  define ov where "ov = unat virt mod 4096"
  obtain a where va: "unat virt = 4096 * a + ov" using ov_def by (metis mult_div_mod_eq)
  obtain c where pc: "unat phys = 4096 * c + ov" using cong ov_def by (metis mult_div_mod_eq)
  define q where "q = (ov + k) div 4096"
  have dw: "unat ?w div 4096 = a + q" unfolding w va q_def by (simp add: add.assoc)
  have ov: "ov < 4096" by (simp add: ov_def)
  have dv: "unat virt div 4096 = a" "unat phys div 4096 = c" unfolding va pc using ov by simp_all
  have sub: "unat (page_down ?w - page_down virt) = 4096 * q"
    by (subst unat_sub) (simp_all add: word_le_nat_alt unat_page_down dw dv)
  have q4: "4096 * q \<le> ov + k" unfolding q_def by simp
  let ?x = "page_down phys + (page_down ?w - page_down virt)"
  have x: "unat ?x = 4096 * (c + q)"
    using b(2) q4 unfolding pc by (subst unat_word_ariths) (simp add: sub unat_page_down dv)
  have "?x AND PT_MASK = ?x" using q4 b(2) unfolding pc by (intro pt_mask_id) (simp_all add: x)
  moreover have "?x OR (?w AND 0xFFF) = ?x + (?w AND 0xFFF)"
    by (rule page_or_offset) (simp add: aligned12_def x)
  moreover have "?x + (?w AND 0xFFF) = phys + of_nat k"
  proof (rule word_unat_eq_iff [THEN iffD2])
    have "unat ?w mod 4096 = (ov + k) mod 4096" unfolding w va by (simp add: add.assoc)
    then have off: "unat (?w AND 0xFFF) = (ov + k) - 4096 * q" unfolding unat_and_fff q_def by (simp add: minus_mult_div_eq_mod)
    show "unat (?x + (?w AND 0xFFF)) = unat (phys + of_nat k)"
      using b(2) q4 unat_add64 [of ?x "?w AND 0xFFF"] unat_add64 [of phys "of_nat k"]
      unfolding x off k pc by simp
  qed
  ultimately show ?thesis by (simp add: lin_def)
qed

lemma range_pages:
  assumes "sz \<noteq> 0" "unat virt + unat sz + 0xFFF < 2 ^ 64"
  defines "e \<equiv> page_down (virt + sz + 0xFFF)"
  shows "\<exists>n. unat (page_down virt) + n * 4096 = unat e \<and> n \<le> unat sz div 4096 + 2"
    "w \<in> {page_down virt..<e} \<Longrightarrow> \<exists>k < unat sz. unat (virt + of_nat k) = unat virt + k \<and> vpn (virt + of_nat k) = vpn w"
    "k < unat sz \<Longrightarrow> virt + of_nat k \<in> {page_down virt..<e}"
proof -
  have s0: "0 < unat sz" using assms(1) by (simp add: unat_gt_0)
  have e: "unat e = (unat virt + unat sz + 4095) div 4096 * 4096"
    using assms(2) by (simp add: e_def unat_page_down unat_word_ariths)
  let ?a = "unat virt div 4096" and ?b = "(unat virt + unat sz + 4095) div 4096"
  have k: "unat (virt + of_nat k) = unat virt + k" if "k < unat sz" for k
  proof -
    have kb: "unat virt + k < 2 ^ 64" using that assms(2) by linarith
    then have "unat (of_nat k :: u64) = k" by (intro unat_of_nat_small) simp
    then show ?thesis using kb by (simp add: unat_word_ariths)
  qed
  show "\<exists>n. unat (page_down virt) + n * 4096 = unat e \<and> n \<le> unat sz div 4096 + 2"
  proof (intro exI conjI)
    have "?a \<le> ?b" by (intro div_le_mono) simp
    then show "unat (page_down virt) + (?b - ?a) * 4096 = unat e"
      unfolding e unat_page_down by (simp add: diff_mult_distrib)
    show "?b - ?a \<le> unat sz div 4096 + 2"
      using div_bounds [of "unat virt"] div_bounds [of "unat virt + unat sz + 4095"] div_bounds [of "unat sz"] by linarith
  qed
  show "virt + of_nat k \<in> {page_down virt..<e}" if ks: "k < unat sz"
    using k [OF ks] ks div_bounds [of "unat virt"] div_bounds [of "unat virt + unat sz + 4095"]
    unfolding atLeastLessThan_iff word_less_nat_alt word_le_nat_alt unat_page_down e by linarith
  show "\<exists>k < unat sz. unat (virt + of_nat k) = unat virt + k \<and> vpn (virt + of_nat k) = vpn w" if w: "w \<in> {page_down virt..<e}"
  proof -
    have w': "?a * 4096 \<le> unat w" "unat w < ?b * 4096"
      using w by (simp_all add: word_less_nat_alt word_le_nat_alt unat_page_down e)
    then have d: "?a \<le> unat w div 4096" "unat w div 4096 < ?b" by (simp_all add: less_eq_div_iff_mult_less_eq div_less_iff_less_mult)
    define j where "j = max (unat virt) (unat w div 4096 * 4096) - unat virt"
    have jv: "unat virt + j = max (unat virt) (unat w div 4096 * 4096)" by (simp add: j_def)
    have "unat w div 4096 * 4096 + 4096 \<le> ?b * 4096" using d(2) by simp
    then have "j < unat sz" using s0 div_bounds [of "unat virt + unat sz + 4095"] unfolding j_def by linarith
    moreover have "max (unat virt) (unat w div 4096 * 4096) div 4096 = unat w div 4096"
      using d(1) by (cases "unat virt \<le> unat w div 4096 * 4096") (auto simp: max_def intro!: antisym div_le_mono [of _ _ 4096, simplified])
    ultimately have j: "j < unat sz" "(unat virt + j) div 4096 = unat w div 4096" unfolding jv by simp_all
    then show ?thesis using k [OF j(1)] by (intro exI [of _ j]) (simp add: vpn_def)
  qed
qed

definition range_va :: "u64 \<Rightarrow> u64 \<Rightarrow> u64 set" where
  "range_va virt sz = {page_down virt..<page_down (virt + sz + 0xFFF)}"

definition range_ok :: "u64 \<Rightarrow> u64 \<Rightarrow> bool" where
  "range_ok virt sz \<longleftrightarrow> sz \<noteq> 0 \<and> unat virt + unat sz + 0xFFF < 2 ^ 64 \<and> unat sz \<le> 2 ^ 47"

lemma range_run:
  assumes "range_ok virt sz" "mm_ok r s"
    and step: "\<And>v s s' b. mm_ok r s \<Longrightarrow> aligned12 v \<Longrightarrow> stp v s = (s', b) \<Longrightarrow> remap r {v..v + 0xFFF} g s s' b"
    and loop: "\<And>v s. lp v s = (if v < page_down (virt + sz + 0xFFF)
      then (case stp v s of (s1, ok) \<Rightarrow> if ok then lp (v + 0x1000) s1 else Some (s1, False)) else Some (s, True))"
  shows "\<exists>s' b. lp (page_down virt) s = Some (s', b) \<and> remap r (range_va virt sz) g s s' b"
proof -
  have "sz \<noteq> 0" "unat virt + unat sz + 0xFFF < 2 ^ 64" using assms(1) by (simp_all add: range_ok_def)
  from range_pages(1) [OF this] obtain n where n: "unat (page_down virt) + n * 4096 = unat (page_down (virt + sz + 0xFFF))"
    "n \<le> unat sz div 4096 + 2" by blast
  have "unat sz div 4096 \<le> 2 ^ 47 div 4096" using assms(1) by (intro div_le_mono) (simp add: range_ok_def)
  then have "n \<le> 2 ^ 36" using n(2) by simp
  then show ?thesis unfolding range_va_def
    using pages_loop [OF step loop page_down_aligned page_down_aligned n(1) _ assms(2)] by blast
qed

lemma same_page:
  assumes "aligned12 v" "w \<in> {v..v + 0xFFF}"
  shows "page_path w = page_path v" "page_down w = v"
proof -
  obtain a where a: "unat v = 4096 * a" using assms(1) by (auto simp: aligned12_def mod_eq_0_iff_dvd dvd_def)
  have "unat v < 2 ^ 64" using unsigned_less [of v] by simp
  then have "unat (v + 0xFFF) = unat v + 4095" unfolding a by (intro trans [OF unat_add64]) (simp_all add: a)
  then have "4096 * a \<le> unat w" "unat w \<le> 4096 * a + 4095" using assms(2) by (simp_all add: word_le_nat_alt a)
  then have "unat w div 4096 = a" by simp
  then show "page_path w = page_path v" "page_down w = v"
    by (simp_all add: page_path_vpn vpn_def a word_unat_eq_iff unat_page_down)
qed

lemma tbl_flags_ok: "tab_flags (PG_PRESENT OR PG_RW OR PG_USER)"
  by (simp add: tab_flags_def has_def pg_defs)

lemma pte_flags_ok:
  assumes "flags AND PT_MASK = 0"
  shows "has PG_PRESENT (flags OR PG_PRESENT OR PG_RW OR PG_USER)"
    "(flags OR PG_PRESENT OR PG_RW OR PG_USER) AND PT_MASK = 0"
proof -
  show "has PG_PRESENT (flags OR PG_PRESENT OR PG_RW OR PG_USER)"
    by (simp add: PG_PRESENT_def has_bit bit_or_iff)
  have "(flags OR PG_PRESENT OR PG_RW OR PG_USER) AND PT_MASK =
      (flags AND PT_MASK) OR ((PG_PRESENT OR PG_RW OR PG_USER) AND PT_MASK)"
    by (simp add: bit.conj_disj_distrib2)
  also have "\<dots> = 0" using assms by (simp add: pg_defs)
  finally show "(flags OR PG_PRESENT OR PG_RW OR PG_USER) AND PT_MASK = 0" .
qed

lemma map_range_remap:
  assumes "range_ok virt sz" "mm_ok (cur_pml4 s) s" "flags AND PT_MASK = 0"
  shows "\<exists>s' b. mm_map_phys_range virt phys sz flags s = Some (s', b) \<and>
    remap (cur_pml4 s) (range_va virt sz) (lin virt phys) s s' b"
proof -
  let ?r = "cur_pml4 s" and ?c = "page_down phys - page_down virt"
  let ?pf = "flags OR PG_PRESENT OR PG_RW OR PG_USER" and ?tf = "PG_PRESENT OR PG_RW OR PG_USER"
  note fl = pte_flags_ok [OF assms(3)]
  have step: "remap ?r {v..v + 0xFFF} (lin virt phys) t t' b"
    if "mm_ok ?r t" "aligned12 v" "map_page ?r ?pf ?tf v (v + ?c) t = (t', b)" for v t t' b
  proof -
    note M = map_page_spec [OF that(1) tbl_flags_ok fl that(3)]
    note P = same_page [OF that(2)]
    have c: "v + (page_down phys - page_down virt) = page_down phys + (v - page_down virt)" by simp
    have "walk (pmem t') ?r w = lin virt phys w" if "b" "w \<in> {v..v + 0xFFF}" for w
      using M(4) [OF that(1) P(1) [OF that(2)]] unfolding lin_def c P(2) [OF that(2)] .
    moreover have "page_path w \<noteq> page_path v" if "vpn w \<notin> vpn ` {v..v + 0xFFF}" for w
    proof -
      have "v \<in> {v..v + 0xFFF}"
      proof -
        obtain a where a: "unat v = 4096 * a" using \<open>aligned12 v\<close> by (auto simp: aligned12_def mod_eq_0_iff_dvd dvd_def)
        have "unat v < 2 ^ 64" using unsigned_less [of v] by simp
        then have "unat (v + 0xFFF) = unat v + 4095" unfolding a by (intro trans [OF unat_add64]) (simp_all add: a)
        then show ?thesis by (simp add: word_le_nat_alt)
      qed
      then show ?thesis using that unfolding page_path_vpn by (metis image_eqI)
    qed
    ultimately show ?thesis using M unfolding remap_def by blast
  qed
  have loop: "map_range_loop e ?r ?pf ?tf v (v + ?c) t = (if v < e
      then (case map_page ?r ?pf ?tf v (v + ?c) t of (t1, ok) \<Rightarrow>
        if ok then map_range_loop e ?r ?pf ?tf (v + 0x1000) ((v + 0x1000) + ?c) t1 else Some (t1, False))
      else Some (t, True))" for e v t
  proof -
    have a: "v + ?c + 0x1000 = v + 0x1000 + ?c" by simp
    from map_range_loop.simps [of e ?r ?pf ?tf v "v + ?c" t] show ?thesis unfolding a .
  qed
  have start: "page_down virt + ?c = page_down phys" by simp
  have "sz \<noteq> 0" using assms(1) by (simp add: range_ok_def)
  then have "mm_map_phys_range virt phys sz flags s =
      map_range_loop (page_down (virt + sz + 0xFFF)) ?r ?pf ?tf (page_down virt) (page_down phys) s"
    by (simp only: mm_map_phys_range_def if_False)
  moreover note range_run [OF assms(1,2), where stp = "\<lambda>v. map_page ?r ?pf ?tf v (v + ?c)"
      and lp = "\<lambda>v. map_range_loop (page_down (virt + sz + 0xFFF)) ?r ?pf ?tf v (v + ?c)", OF step loop, unfolded start]
  ultimately show ?thesis by (simp only:)
qed

lemma range_va_vpn:
  assumes "range_ok virt sz"
  shows "vpn ` range_va virt sz = vpn ` {virt..virt + (sz - 1)}"
proof -
  have r: "sz \<noteq> 0" "unat virt + unat sz + 0xFFF < 2 ^ 64" using assms by (simp_all add: range_ok_def)
  have s0: "0 < unat sz" using r(1) by (simp add: unat_gt_0)
  have s1: "unat (sz - 1) = unat sz - 1" using r(1) by (simp add: unat_sub unat_gt_0 word_le_nat_alt Suc_le_eq)
  have last: "unat (virt + (sz - 1)) = unat virt + unat sz - 1"
    using r(2) s0 s1 unat_add64 [of virt "sz - 1"] by linarith
  show ?thesis
  proof (intro equalityI subsetI; elim imageE; hypsubst)
    fix w assume "w \<in> range_va virt sz"
    then obtain k where k: "k < unat sz" "unat (virt + of_nat k) = unat virt + k" "vpn (virt + of_nat k) = vpn w"
      using range_pages(2) [OF r] unfolding range_va_def by blast
    have "virt + of_nat k \<in> {virt..virt + (sz - 1)}" using k(1) by (simp add: word_le_nat_alt k(2) last)
    then show "vpn w \<in> vpn ` {virt..virt + (sz - 1)}" using k(3) by (metis image_eqI)
  next
    fix w assume "w \<in> {virt..virt + (sz - 1)}"
    then have w: "unat virt \<le> unat w" "unat w \<le> unat virt + unat sz - 1" by (simp_all add: word_le_nat_alt last)
    define k where "k = unat w - unat virt"
    have "k < unat sz" using w s0 unfolding k_def by linarith
    moreover have "w = virt + of_nat k"
      using w(1) by (simp add: k_def)
    ultimately show "vpn w \<in> vpn ` range_va virt sz" using range_pages(3) [OF r] unfolding range_va_def by blast
  qed
qed

lemma map_range_translates_lib:
  assumes "mm_ok (cur_pml4 s) s" "range_ok virt sz" "flags AND PT_MASK = 0"
    "unat virt mod 4096 = unat phys mod 4096" "unat phys + unat sz \<le> 2 ^ 52"
    "mm_map_phys_range virt phys sz flags s = Some (s', True)" "k < unat sz"
  shows "walk (pmem s') (cur_pml4 s') (virt + of_nat k) = Some (phys + of_nat k)"
proof -
  have R: "remap (cur_pml4 s) (range_va virt sz) (lin virt phys) s s' True"
    using map_range_remap [OF assms(2,1,3), of phys] assms(6) by auto
  have r: "sz \<noteq> 0" "unat virt + unat sz + 0xFFF < 2 ^ 64" using assms(2) by (simp_all add: range_ok_def)
  have "walk (pmem s') (cur_pml4 s) (virt + of_nat k) = lin virt phys (virt + of_nat k)"
    using R range_pages(3) [OF r assms(7)] by (simp add: remap_def range_va_def)
  moreover have "lin virt phys (virt + of_nat k) = Some (phys + of_nat k)"
    using assms(4,5,7) r(2) by (intro lin_linear) simp_all
  moreover have "cur_pml4 s' = cur_pml4 s" using R same_regs_fields(2) by (simp add: remap_def)
  ultimately show ?thesis by simp
qed

text \<open>C4: Mapping a physical range (\<open>mm_map_phys_range\<close>) refines the table of translations: when it
  succeeds, the processor translates every address of the virtual range to the corresponding
  physical address.\<close>

theorem map_range_translates:
  assumes "mm_ok (cur_pml4 s) s" "range_ok virt sz" "flags AND PT_MASK = 0"
    "unat virt mod 4096 = unat phys mod 4096" "unat phys + unat sz \<le> 2 ^ 52"
    "mm_map_phys_range virt phys sz flags s = Some (s', True)" "k < unat sz"
  shows "walk (pmem s') (cur_pml4 s') (virt + of_nat k) = Some (phys + of_nat k)"
  by (rule map_range_translates_lib [OF assms])

text \<open>Mapping a range always returns, keeps the tables well formed, and leaves the translation of
  every address outside the pages of the range as it was, also when it fails half-way.\<close>

theorem map_range_frame:
  assumes "mm_ok (cur_pml4 s) s" "range_ok virt sz" "flags AND PT_MASK = 0"
  shows "\<exists>s' b. mm_map_phys_range virt phys sz flags s = Some (s', b) \<and> mm_ok (cur_pml4 s') s' \<and>
    (\<forall>w. vpn w \<notin> vpn ` {virt..virt + (sz - 1)} \<longrightarrow> walk (pmem s') (cur_pml4 s') w = walk (pmem s) (cur_pml4 s) w)"
proof -
  from map_range_remap [OF assms(2,1,3), of phys] obtain s' b
    where m: "mm_map_phys_range virt phys sz flags s = Some (s', b)"
      and R: "remap (cur_pml4 s) (range_va virt sz) (lin virt phys) s s' b" by blast
  have "cur_pml4 s' = cur_pml4 s" using R same_regs_fields(2) by (simp add: remap_def)
  then show ?thesis using m R unfolding remap_def range_va_vpn [OF assms(2)] by simp
qed

section \<open>Unmapping a range\<close>

lemma page_path_ix:
  assumes "page_path w = page_path v"
  shows "ix 39 w = ix 39 v" "ix 30 w = ix 30 v" "ix 21 w = ix 21 v" "ix 12 w = ix 12 v"
  using assms by (simp_all add: page_path_def)

lemma unmap_page_spec:
  assumes ok: "mm_ok r s" and up: "unmap_page r v s = (s', b)"
  shows "mm_ok r s'" "same_regs s s'" "page_path w \<noteq> page_path v \<Longrightarrow> walk (pmem s') r w = walk (pmem s) r w"
    "b \<Longrightarrow> page_path w = page_path v \<Longrightarrow> walk (pmem s') r w = None"
    "avail s' = avail s"
proof -
  have tree: "tree_ok (avail s) (pmem s) r" using ok by (simp add: mm_ok_def)
  define e4 where "e4 = ent (pmem s) r (ix 39 v)"
  define e3 where "e3 = ent (pmem s) (pt_addr e4) (ix 30 v)"
  define e2 where "e2 = ent (pmem s) (pt_addr e3) (ix 21 v)"
  note es = e4_def [symmetric] e3_def [symmetric] e2_def [symmetric]
  have up': "(s', b) = (if \<not> has PG_PRESENT e4 then (s, True) else if \<not> has PG_PRESENT e3 then (s, True)
      else if has 0x80 e2 then (s, False) else if \<not> has PG_PRESENT e2 then (s, True)
      else (set_ent (pt_addr e2) (ix 12 v) 0 s, True))"
    using up unfolding unmap_page_def Let_def es by simp
  have p4: "pent (pmem s) r [ix 39 v] = e4" by (simp add: pent_def e4_def)
  have p3: "pent (pmem s) r (pd_path v) = (if is_tab e4 then e3 else 0)"
    by (simp add: pent_def pd_path_def es)
  have t4: "is_tab e4 \<longleftrightarrow> has PG_PRESENT e4"
    using tree_okD(5) [OF tree, of "[ix 39 v]"] by (auto simp: p4 is_tab_def)
  have t3: "is_tab e3 \<longleftrightarrow> has PG_PRESENT e3" if "is_tab e4"
    using tree_okD(5) [OF tree, of "pd_path v"] that by (auto simp: p3 is_tab_def)
  have unchanged: "walk (pmem s) r w = None" if "b" "s' = s" "page_path w = page_path v" for w
  proof -
    have "\<not> has PG_PRESENT e4 \<or> \<not> has PG_PRESENT e3 \<or> \<not> has PG_PRESENT e2 \<or>
        s = set_ent (pt_addr e2) (ix 12 v) 0 s"
      using up' that(1,2) by (auto split: if_splits)
    moreover have "\<not> has PG_PRESENT (ent (pmem s) (pt_addr e2) (ix 12 v))"
      if "s = set_ent (pt_addr e2) (ix 12 v) 0 s"
    proof -
      have "ent (pmem s) (pt_addr e2) (ix 12 v) = ent (pmem (set_ent (pt_addr e2) (ix 12 v) 0 s)) (pt_addr e2) (ix 12 v)"
        using that by metis
      then show ?thesis by (simp add: ent_wr)
    qed
    moreover have "\<not> has 0x80 e3 \<or> \<not> has PG_PRESENT e4 \<or> \<not> has PG_PRESENT e3" using t4 t3 by (auto simp: is_tab_def)
    moreover have "\<not> has 0x80 e2 \<or> \<not> has PG_PRESENT e4 \<or> \<not> has PG_PRESENT e3" using up' that(1) by (auto split: if_splits)
    ultimately show ?thesis unfolding walk_def Let_def page_path_ix [OF that(3)] es by auto
  qed
  have "mm_ok r s' \<and> same_regs s s' \<and> avail s' = avail s \<and>
      (page_path w \<noteq> page_path v \<longrightarrow> walk (pmem s') r w = walk (pmem s) r w) \<and>
      (b \<longrightarrow> page_path w = page_path v \<longrightarrow> walk (pmem s') r w = None)"
  proof (cases "s' = s")
    case True
    then show ?thesis using ok unchanged by simp
  next
    case False
    then have s': "s' = set_ent (pt_addr e2) (ix 12 v) 0 s" and e: "is_tab e4" "is_tab e3" "is_tab e2"
      using up' t4 t3 by (auto simp: is_tab_def split: if_splits)
    have "node (pmem s) r (pt_path v) = Some (pt_addr e2)"
      using e by (simp add: pt_path_def es)
    moreover have "pmem s' = wr_le (pt_addr e2 + 8 * ix 12 v) 0 8 (pmem s)" by (simp add: s')
    ultimately show ?thesis
      using walk_set_leaf [OF tree] ok by (simp add: s' mm_ok_def)
  qed
  then show "mm_ok r s'" "same_regs s s'" "page_path w \<noteq> page_path v \<Longrightarrow> walk (pmem s') r w = walk (pmem s) r w"
    "b \<Longrightarrow> page_path w = page_path v \<Longrightarrow> walk (pmem s') r w = None" "avail s' = avail s"
    by blast+
qed

lemma page_self:
  assumes "aligned12 v"
  shows "v \<in> {v..v + 0xFFF}"
proof -
  obtain a where a: "unat v = 4096 * a" using assms by (auto simp: aligned12_def mod_eq_0_iff_dvd dvd_def)
  have "unat v < 2 ^ 64" using unsigned_less [of v] by simp
  then have "unat (v + 0xFFF) = unat v + 4095" unfolding a by (intro trans [OF unat_add64]) (simp_all add: a)
  then show ?thesis by (simp add: word_le_nat_alt)
qed

lemma unmap_range_remap:
  assumes "range_ok virt sz" "mm_ok (cur_pml4 s) s"
  shows "\<exists>s' b. mm_unmap_range virt sz s = Some (s', b) \<and> remap (cur_pml4 s) (range_va virt sz) (\<lambda>_. None) s s' b"
proof -
  let ?r = "cur_pml4 s"
  have step: "remap ?r {v..v + 0xFFF} (\<lambda>_. None) t t' b"
    if "mm_ok ?r t" "aligned12 v" "unmap_page ?r v t = (t', b)" for v t t' b
  proof -
    note M = unmap_page_spec [OF that(1,3)]
    have "page_path w \<noteq> page_path v" if "vpn w \<notin> vpn ` {v..v + 0xFFF}" for w
      using page_self [OF \<open>aligned12 v\<close>] that unfolding page_path_vpn by (metis image_eqI)
    then show ?thesis using M same_page(1) [OF that(2)] unfolding remap_def by blast
  qed
  have "sz \<noteq> 0" using assms(1) by (simp add: range_ok_def)
  then have "mm_unmap_range virt sz s = unmap_loop (page_down (virt + sz + 0xFFF)) ?r (page_down virt) s"
    by (simp only: mm_unmap_range_def if_False)
  moreover note range_run [OF assms(1,2), where stp = "unmap_page ?r" and lp = "unmap_loop (page_down (virt + sz + 0xFFF)) ?r",
      OF step unmap_loop.simps]
  ultimately show ?thesis by (simp only:)
qed

text \<open>C6: Unmapping a range (\<open>mm_unmap_range\<close>) makes every address of the range fault when it
  succeeds, and leaves the translation of every other address as it was.\<close>

theorem unmap_range_faults:
  assumes "mm_ok (cur_pml4 s) s" "range_ok virt sz" "mm_unmap_range virt sz s = Some (s', True)"
  shows "walk (pmem s') (cur_pml4 s') w =
    (if vpn w \<in> vpn ` {virt..virt + (sz - 1)} then None else walk (pmem s) (cur_pml4 s) w)"
proof -
  have R: "remap (cur_pml4 s) (range_va virt sz) (\<lambda>_. None) s s' True"
    using unmap_range_remap [OF assms(2,1)] assms(3) by auto
  have c: "cur_pml4 s' = cur_pml4 s" using R same_regs_fields(2) by (simp add: remap_def)
  have tree: "tree_ok (avail s') (pmem s') (cur_pml4 s)" using R by (simp add: remap_def mm_ok_def)
  have "walk (pmem s') (cur_pml4 s) w = None" if in_r: "vpn w \<in> vpn ` range_va virt sz"
  proof -
    obtain u where u: "u \<in> range_va virt sz" "vpn w = vpn u" using in_r by blast
    have p: "page_path w = page_path u" using u(2) by (simp add: page_path_vpn)
    then have "pt_path w = pt_path u" by (simp add: page_path_def pt_path_def)
    moreover have "walk (pmem s') (cur_pml4 s) u = None" using R u(1) by (simp add: remap_def)
    ultimately show ?thesis unfolding walk_pent [OF tree] p by (auto simp: xlate_def split: if_splits)
  qed
  then show ?thesis using R unfolding c remap_def range_va_vpn [OF assms(2)] by simp
qed

section \<open>Mapping succeeds when there are frames\<close>

text \<open>No table lies at the physical address 0, which the code takes for a failure.\<close>

definition nz :: "nat \<Rightarrow> mm_state \<Rightarrow> bool" where
  "nz r s \<longleftrightarrow> (\<forall>q. vpath 3 q \<longrightarrow> node (pmem s) r q \<noteq> Some 0)"

definition huge :: "nat \<Rightarrow> mm_state \<Rightarrow> u64 \<Rightarrow> bool" where
  "huge r s v \<longleftrightarrow> has 0x80 (pent (pmem s) r (pt_path v))"

lemma nz_pent:
  assumes "nz r s" "r \<noteq> 0" "\<And>q. vpath 3 q \<Longrightarrow> q \<noteq> [] \<Longrightarrow> pent (pmem s') r q = (if q = x then e else pent (pmem s) r q)"
    "pt_addr e \<noteq> 0"
  shows "nz r s'"
  unfolding nz_def
proof (intro allI impI)
  fix q assume q: "vpath 3 q"
  show "node (pmem s') r q \<noteq> Some 0"
  proof (cases q rule: rev_exhaust)
    case Nil
    then show ?thesis using assms(2) by simp
  next
    case (snoc p i)
    have "pent (pmem s') r q = (if q = x then e else pent (pmem s) r q)" using assms(3) [OF q] snoc by simp
    moreover have "node (pmem s) r q \<noteq> Some 0" using assms(1) q by (simp add: nz_def)
    ultimately show ?thesis using assms(4) unfolding snoc node_pent by (auto split: if_splits)
  qed
qed

lemma finite_avail [simp]: "finite (avail s)"
  by (simp add: avail_def pmm_addr_def)

lemma ensure_table_new:
  assumes ok: "mm_ok r s" and p: "vpath 2 p" "node (pmem s) r p = Some t" "i < 512" and fl: "tab_flags fl"
    and nohuge: "length p = 2 \<longrightarrow> \<not> has 0x80 (ent (pmem s) t i)" and z: "nz r s" "r \<noteq> 0" and av: "avail s \<noteq> {}"
    and e: "ensure_table t i fl s = (s', a)"
  shows "a \<noteq> 0" "nz r s'" "huge r s' v \<Longrightarrow> huge r s v" "card (avail s) \<le> Suc (card (avail s'))"
proof -
  have inv: "pmm_inv (mm_pmm s)" and tree: "tree_ok (avail s) (pmem s) r" using ok by (simp_all add: mm_ok_def)
  have pent: "pent (pmem s) r (p @ [i]) = ent (pmem s) t i" by (simp add: pent_snoc p(2))
  have "a \<noteq> 0 \<and> nz r s' \<and> (huge r s' v \<longrightarrow> huge r s v) \<and> card (avail s) \<le> Suc (card (avail s'))"
  proof (cases "has PG_PRESENT (ent (pmem s) t i)")
    case True
    then have s': "s' = s" "a = pt_addr (ent (pmem s) t i)" using e by (auto simp: ensure_table_def)
    have "a \<noteq> 0"
    proof
      assume "a = 0"
      then have "a \<noteq> 0" if "node (pmem s') r (p @ [i]) = Some a"
        using that z(1) p(1,3) s'(1) by (auto simp: nz_def vpath_def)
      moreover have "\<not> has 0x80 (ent (pmem s) t i)"
      proof (cases "length p = 2")
        case False
        then have "vpath 2 (p @ [i])" using p(1,3) by (auto simp: vpath_def)
        then show ?thesis using tree_okD(5) [OF tree, of "p @ [i]"] True pent by simp
      qed (use nohuge in simp)
      ultimately show False using True \<open>a = 0\<close> by (simp add: s' node_append p(2) is_tab_def)
    qed
    then show ?thesis using z s' by simp
  next
    case False
    obtain s1 f where af: "alloc_frame s = (s1, f)" by fastforce
    note al = alloc_frame_cases [OF inv af]
    have nf: "f \<noteq> 0" using al(4) av by blast
    note f = al(5) [OF nf]
    have s': "s' = set_ent t i (of_nat f OR fl) (zero_frame f s1)" "a = pt_addr (ent (pmem s') t i)"
      using e False af nf by (auto simp: ensure_table_def Let_def)
    have tabe: "is_tab (of_nat f OR fl)" "pt_addr (of_nat f OR fl) = f"
      using frame_entry_tab [of f fl] frame_entry [of f fl] f fl by (auto simp: tab_flags_def)
    have mem: "pmem s' = wr_le (t + 8 * i) (of_nat f OR fl) 8 (put_zero 4096 f (pmem s))"
      unfolding s'(1) by (simp add: al(3))
    note new = tree_new_table [OF tree conjunct1 [OF f] p False tabe mem]
    have t: "t mod 4096 = 0" using node_aligned [OF p(2)] tree_okD(1) [OF tree] .
    have "ent (pmem s') t i = of_nat f OR fl" unfolding mem using ent_wr [OF t t p(3) p(3)] by simp
    then have "a \<noteq> 0" using s'(2) tabe(2) nf by simp
    moreover have "nz r s'" using tabe(2) nf by (intro nz_pent [OF z new(3)]) (auto intro: vpath_mono)
    moreover have "huge r s' v \<longrightarrow> huge r s v"
      unfolding huge_def new(3) [OF vpath_of(5) vpath_of(9)] using tabe(1) by (auto simp: is_tab_def)
    moreover have "avail s' = avail s - {f}" unfolding s'(1) using f by simp
    moreover have "card (avail s) = Suc (card (avail s - {f}))" using f by (intro card.remove) simp_all
    ultimately show ?thesis by simp
  qed
  then show "a \<noteq> 0" "nz r s'" "huge r s' v \<Longrightarrow> huge r s v" "card (avail s) \<le> Suc (card (avail s'))" by blast+
qed

lemma map_page_succeeds:
  assumes ok: "mm_ok r s" and tf: "tab_flags tf" and z: "nz r s" "r \<noteq> 0" and nh: "\<not> huge r s v"
    and av: "3 \<le> card (avail s)" and mp: "map_page r pf tf v p s = (s', b)"
  shows "b" "nz r s'" "huge r s' w \<Longrightarrow> huge r s w" "card (avail s) \<le> card (avail s') + 3"
proof -
  obtain s1 t3 where e3: "ensure_table r (ix 39 v) tf s = (s1, t3)" by fastforce
  obtain s2 t2 where e2: "ensure_table t3 (ix 30 v) tf s1 = (s2, t2)" by fastforce
  obtain s3 t1 where e1: "ensure_table t2 (ix 21 v) tf s2 = (s3, t1)" by fastforce
  have len: "length ([] :: nat list) = 2 \<longrightarrow> \<not> has 0x80 x" "length [ix 39 v] = 2 \<longrightarrow> \<not> has 0x80 x" for x
    by simp_all
  have r: "vpath 2 []" "node (pmem s) r [] = Some r" by (simp_all add: vpath_def)
  have ne: "avail x \<noteq> {}" if "0 < card (avail x)" for x using that by auto
  have av0: "avail s \<noteq> {}" using av ne [of s] by linarith
  note A = ensure_table_spec [OF ok r ix_less tf len(1) e3, unfolded append_Nil]
  note A' = ensure_table_new [OF ok r ix_less tf len(1) z av0 e3]
  have av1: "avail s1 \<noteq> {}" using av A'(4) ne [of s1] by linarith
  note B = ensure_table_spec [OF A(1) vpath_of(1) A(3) [OF A'(1)] ix_less tf len(2) e2, folded path_snoc(1)]
  note B' = ensure_table_new [OF A(1) vpath_of(1) A(3) [OF A'(1)] ix_less tf len(2) A'(2) z(2) av1 e2]
  have av2: "avail s2 \<noteq> {}" using av A'(4) B'(4) ne [of s2] by linarith
  have "\<not> huge r s2 v" using nh A'(3) B'(3) by blast
  then have h: "\<not> has 0x80 (ent (pmem s2) t2 (ix 21 v))"
    unfolding huge_def path_snoc(2) pent_snoc B(3) [OF B'(1)] by simp
  then have "length (pd_path v) = 2 \<longrightarrow> \<not> has 0x80 (ent (pmem s2) t2 (ix 21 v))" by simp
  note C = ensure_table_spec [OF B(1) vpath_of(2) B(3) [OF B'(1)] ix_less tf this e1, folded path_snoc(2)]
    and C' = ensure_table_new [OF B(1) vpath_of(2) B(3) [OF B'(1)] ix_less tf this B'(2) z(2) av2 e1]
  have m: "b \<and> s' = set_ent t1 (ix 12 v) ((p AND PT_MASK) OR pf) s3"
    using mp e3 e2 e1 A'(1) B'(1) C'(1) h by (auto simp: map_page_def)
  then show "b" by simp
  have tree: "tree_ok (avail s3) (pmem s3) r" using C(1) by (simp add: mm_ok_def)
  have mem: "pmem s' = wr_le (t1 + 8 * ix 12 v) ((p AND PT_MASK) OR pf) 8 (pmem s3)" using m by simp
  note leaf = tree_set_leaf [OF tree vpath_of(3) vpath_of(7) C(3) [OF C'(1)] ix_less mem]
  have l: "pent (pmem s') r q = pent (pmem s3) r q" if "vpath 3 q" "q \<noteq> []" for q
  proof -
    have "length q \<noteq> length (pt_path v @ [ix 12 v])" using that(1) by (auto simp: vpath_def)
    then have "q \<noteq> pt_path v @ [ix 12 v]" by metis
    then show ?thesis using leaf(2) [OF vpath_mono [OF that(1)] that(2)] by simp
  qed
  have "node (pmem s') r q = node (pmem s3) r q" if "vpath 3 q" for q
  proof (cases q rule: rev_exhaust)
    case (snoc p i)
    then show ?thesis using l [OF that] by (simp add: node_pent)
  qed simp
  then show "nz r s'" using C'(2) by (simp add: nz_def)
  have "huge r s' w = huge r s3 w" unfolding huge_def using l [OF vpath_of(3) vpath_of(9)] by simp
  then show "huge r s' w \<Longrightarrow> huge r s w" using A'(3) B'(3) C'(3) by blast
  show "card (avail s) \<le> card (avail s') + 3" using A'(4) B'(4) C'(4) m by simp
qed

lemma map_loop_succeeds:
  assumes tf: "tab_flags tf" and pf: "has PG_PRESENT pf" "pf AND PT_MASK = 0" and e: "aligned12 e" and r: "r \<noteq> 0"
  shows "aligned12 v \<Longrightarrow> unat v + n * 4096 = unat e \<Longrightarrow> mm_ok r s \<Longrightarrow> nz r s \<Longrightarrow> (\<And>w. v \<le> w \<Longrightarrow> w < e \<Longrightarrow> \<not> huge r s w) \<Longrightarrow>
    3 * n \<le> card (avail s) \<Longrightarrow> \<exists>s'. map_range_loop e r pf tf v p s = Some (s', True)"
proof (induction n arbitrary: v p s)
  case 0
  then have "v = e" by (simp add: word_unat_eq_iff)
  then show ?case by (subst map_range_loop.simps) simp
next
  case (Suc n)
  have ve: "v < e" using Suc.prems(2) by (simp add: word_less_nat_alt)
  note u = page_step_unat [OF Suc.prems(1) e ve]
  obtain s1 b where mp: "map_page r pf tf v p s = (s1, b)" by fastforce
  have av: "3 \<le> card (avail s)" using Suc.prems(6) by simp
  note M = map_page_spec [OF Suc.prems(3) tf pf mp]
  note S = map_page_succeeds [OF Suc.prems(3) tf Suc.prems(4) r Suc.prems(5) [OF order_refl ve] av mp]
  have le: "v \<le> v + 0x1000" using u(1) by (simp add: word_le_nat_alt)
  have "\<exists>s'. map_range_loop e r pf tf (v + 0x1000) (p + 0x1000) s1 = Some (s', True)"
  proof (rule Suc.IH [OF u(4) _ M(1) S(2)])
    show "unat (v + 0x1000) + n * 4096 = unat e" using u(1) Suc.prems(2) by simp
    show "\<not> huge r s1 w" if "v + 0x1000 \<le> w" "w < e" for w using Suc.prems(5) [of w] S(3) that le by force
    show "3 * n \<le> card (avail s1)" using S(4) Suc.prems(6) by simp
  qed
  then show ?case using ve mp S(1) by (subst map_range_loop.simps) simp
qed

lemma map_range_succeeds_lib:
  assumes "mm_ok (cur_pml4 s) s" "range_ok virt sz" "flags AND PT_MASK = 0"
    "nz (cur_pml4 s) s" "\<forall>w \<in> range_va virt sz. \<not> huge (cur_pml4 s) s w" "3 * (unat sz div 4096 + 2) \<le> card (avail s)"
  shows "\<exists>s'. mm_map_phys_range virt phys sz flags s = Some (s', True)"
proof -
  have r: "sz \<noteq> 0" "unat virt + unat sz + 0xFFF < 2 ^ 64" using assms(2) by (simp_all add: range_ok_def)
  obtain n where n: "unat (page_down virt) + n * 4096 = unat (page_down (virt + sz + 0xFFF))" "n \<le> unat sz div 4096 + 2"
    using range_pages(1) [OF r] by blast
  have "cur_pml4 s \<noteq> 0" using assms(4) by (auto simp: nz_def dest: spec [of _ "[]"])
  moreover have "3 * n \<le> card (avail s)" by (rule order_trans [OF mult_le_mono2 [OF n(2)] assms(6)])
  ultimately have "\<exists>s'. map_range_loop (page_down (virt + sz + 0xFFF)) (cur_pml4 s) (flags OR PG_PRESENT OR PG_RW OR PG_USER)
      (PG_PRESENT OR PG_RW OR PG_USER) (page_down virt) (page_down phys) s = Some (s', True)"
    using assms(5) unfolding range_va_def
    by (intro map_loop_succeeds [OF tbl_flags_ok pte_flags_ok [OF assms(3)] page_down_aligned _ page_down_aligned n(1) assms(1,4)]) auto
  then show ?thesis using r(1) by (simp only: mm_map_phys_range_def if_False)
qed

text \<open>Mapping a range succeeds when three frames are free for each of its pages, no huge page is in
  the way and no table lies at the physical address 0.\<close>

theorem map_range_succeeds:
  assumes "mm_ok (cur_pml4 s) s" "range_ok virt sz" "flags AND PT_MASK = 0"
    "nz (cur_pml4 s) s" "\<forall>w \<in> range_va virt sz. \<not> huge (cur_pml4 s) s w" "3 * (unat sz div 4096 + 2) \<le> card (avail s)"
  shows "\<exists>s'. mm_map_phys_range virt phys sz flags s = Some (s', True)"
  by (rule map_range_succeeds_lib [OF assms])

section \<open>A concrete machine\<close>

text \<open>Memory up to \<open>top\<close>, an empty top-level table at the address 0x1000: the smallest state in which
  the hypotheses hold.\<close>

definition boot_mm :: "nat \<Rightarrow> mm_state" where
  "boot_mm mem = \<lparr>mm_pmm = pmm_init mem \<lparr>bitmap = (\<lambda>_. 0), s_free = 0, s_top_frame = 0\<rparr>, pmem = (\<lambda>_. 0), cr3 = 0x1000,
     g_kuser_page = 0, s_mmio_next = MMIO_ARENA_BASE, s_mmio_inited = True, g_ticks = 0, g_intercept_cpuid = False\<rparr>"

lemma boot_pml4 [simp]: "cur_pml4 (boot_mm mem) = 0x1000"
  by (simp add: boot_mm_def cur_pml4_def mm_get_cr3_def pt_addr_def PT_MASK_def)

lemma node_empty: "node (\<lambda>_. 0) r q = (if q = [] then Some r else None)"
  by (cases q) (simp_all add: ent_def rd64_def rd32_def)

lemma pent_empty: "pent (\<lambda>_. 0) r q = 0"
  by (simp add: pent_def node_empty ent_def rd64_def rd32_def split: option.splits)

lemma boot_avail: "avail (boot_mm mem) = pmm_addr (pmm_managed (pmm_init mem \<lparr>bitmap = (\<lambda>_. 0), s_free = 0, s_top_frame = 0\<rparr>))"
  by (simp add: avail_def boot_mm_def pmm_init_clear)

lemma boot_ok: "mm_ok 0x1000 (boot_mm mem)" "nz 0x1000 (boot_mm mem)"
proof -
  have inv: "pmm_inv (mm_pmm (boot_mm mem))" by (simp add: boot_mm_def pmm_init_inv)
  have mem: "pmem (boot_mm mem) = (\<lambda>_. 0)" by (simp add: boot_mm_def)
  have al: "a mod 4096 = 0 \<and> 0x4000000 \<le> a" if "a \<in> avail (boot_mm mem)" for a
    using that unfolding boot_avail by (auto simp: pmm_addr_def pmm_managed_def pmm_consts)
  have "tree_ok (avail (boot_mm mem)) (pmem (boot_mm mem)) 0x1000"
    unfolding tree_ok_def mem using al [of "0x1000"] al by (auto simp: node_empty pent_empty split: if_splits)
  then show "mm_ok 0x1000 (boot_mm mem)" using inv by (simp add: mm_ok_def)
  show "nz 0x1000 (boot_mm mem)" by (simp add: nz_def mem node_empty)
qed

lemma boot_frames: "card (avail (boot_mm mem)) = min mem MAX_PHYS div FRAME - 16384"
proof -
  have "inj_on (\<lambda>f. f * FRAME) A" for A by (rule inj_onI) (simp add: FRAME_def)
  then show ?thesis unfolding boot_avail pmm_addr_def
    by (simp add: card_image pmm_managed_def pmm_init_fields PMM_BASE_dvd(2))
qed

lemma boot_not_huge: "\<not> huge r (boot_mm mem) v"
proof -
  have "pmem (boot_mm mem) = (\<lambda>_. 0)" by (simp add: boot_mm_def)
  then show ?thesis by (simp add: huge_def pent_empty)
qed

lemmas boot_simps = boot_ok [simplified] boot_not_huge boot_frames FRAME_def MAX_PHYS_def range_ok_def

lemma map_range_succeeds_witness:
  "\<exists>s'. mm_map_phys_range 0xFFFFE10000000000 0xFEE00000 0x2000 0 (boot_mm 0x4020000) = Some (s', True)"
  by (rule map_range_succeeds) (simp_all add: boot_simps)

lemma boot_map:
  "\<exists>s'. mm_map_phys_range 0xFFFFE10000000000 0xFEE00000 0x1000 0 (boot_mm 0x4020000) = Some (s', True)"
  by (rule map_range_succeeds_lib) (simp_all add: boot_simps)

lemma map_range_translates_witness:
  "\<exists>s'. mm_map_phys_range 0xFFFFE10000000000 0xFEE00000 0x1000 0 (boot_mm 0x4020000) = Some (s', True) \<and>
    walk (pmem s') (cur_pml4 s') 0xFFFFE10000000020 = Some 0xFEE00020"
proof -
  obtain s' where m: "mm_map_phys_range 0xFFFFE10000000000 0xFEE00000 0x1000 0 (boot_mm 0x4020000) = Some (s', True)"
    using boot_map by blast
  have "walk (pmem s') (cur_pml4 s') (0xFFFFE10000000000 + of_nat 0x20) = Some (0xFEE00000 + of_nat 0x20)"
    by (rule map_range_translates [OF _ _ _ _ _ m]) (simp_all add: boot_simps)
  with m show ?thesis by simp
qed

lemma map_range_frame_witness:
  "\<exists>s' b. mm_map_phys_range 0xFFFFE10000000000 0xFEE00000 0x1000 0 (boot_mm 0x4020000) = Some (s', b) \<and>
    mm_ok (cur_pml4 s') s' \<and>
    (\<forall>w. vpn w \<notin> vpn ` {0xFFFFE10000000000..0xFFFFE10000000000 + (0x1000 - 1)} \<longrightarrow>
       walk (pmem s') (cur_pml4 s') w = walk (pmem (boot_mm 0x4020000)) (cur_pml4 (boot_mm 0x4020000)) w)"
  by (rule map_range_frame) (simp_all add: boot_simps)

lemma unmap_range_faults_witness:
  "\<exists>s'. mm_unmap_range 0xFFFFE10000000000 0x1000 (boot_mm 0x4020000) = Some (s', True) \<and>
    walk (pmem s') (cur_pml4 s') 0xFFFFE10000000020 = None"
proof -
  have e: "unmap_page 0x1000 v s = (s, True)" if "pmem s = (\<lambda>_. 0)" for v s
    using that by (simp add: unmap_page_def ent_def rd64_def rd32_def)
  have mem: "pmem (boot_mm 0x4020000) = (\<lambda>_. 0)" by (simp add: boot_mm_def)
  have "mm_unmap_range 0xFFFFE10000000000 0x1000 (boot_mm 0x4020000) = Some (boot_mm 0x4020000, True)"
    unfolding mm_unmap_range_def
    by (simp add: page_down_def) (subst unmap_loop.simps, simp add: e [OF mem], subst unmap_loop.simps, simp)
  moreover from this have "walk (pmem (boot_mm 0x4020000)) (cur_pml4 (boot_mm 0x4020000)) w =
      (if vpn w \<in> vpn ` {0xFFFFE10000000000..0xFFFFE10000000000 + (0x1000 - 1)} then None
       else walk (pmem (boot_mm 0x4020000)) (cur_pml4 (boot_mm 0x4020000)) w)" for w
    by (rule unmap_range_faults [rotated 2]) (simp_all add: boot_simps)
  moreover have "vpn 0xFFFFE10000000020 \<in> vpn ` {0xFFFFE10000000000..0xFFFFE10000000000 + (0x1000 - 1)}"
    by (rule imageI) simp
  ultimately show ?thesis by metis
qed

end
