(* ===== verification/AddrSpace.thy ===== *)
theory AddrSpace
  imports Paging
begin

text \<open>
  Address spaces, page-fault recovery and MMIO windows, over the page tables of \<open>Paging\<close>: the clone
  of the kernel's tables, the zeroed page that answers a fault, the arena of virtual addresses for
  devices and the windows of \<open>hal_map_mmio\<close> and \<open>hal_unmap_mmio\<close>.
\<close>

section \<open>A new address space\<close>

text \<open>Memories that agree on every table outside the free frames give the same translations.\<close>

lemma walk_agree:
  assumes ok: "tree_ok A m r"
    and same: "\<And>u j. u mod 4096 = 0 \<Longrightarrow> u \<notin> A \<Longrightarrow> j < 512 \<Longrightarrow> ent m' u j = ent m u j"
  shows "vpath 3 q \<Longrightarrow> node m' r q = node m r q" "walk m' r v = walk m r v" "tree_ok A m' r"
proof -
  have u: "ent m' u j = ent m u j" if "vpath 3 q" "node m r q = Some u" "j < 512" for q u j
    using same [OF node_aligned [OF that(2) tree_okD(1) [OF ok]] tree_okD(4) [OF ok that(1,2)] that(3)] .
  have N: "node m' r q = node m r q" if "vpath 3 q" for q
    using that
  proof (induction q rule: rev_induct)
    case (snoc j q)
    have q: "vpath 3 q" "j < 512" using snoc.prems by (auto simp: vpath_def)
    show ?case using snoc.IH [OF q(1)] u [OF q(1) _ q(2)] by (auto simp: node_append split: option.splits)
  qed simp
  then show "vpath 3 q \<Longrightarrow> node m' r q = node m r q" .
  have P: "pent m' r q = pent m r q" if q: "vpath 4 q" "q \<noteq> []" for q
  proof -
    obtain p i where p: "q = p @ [i]" "vpath 3 p" "i < 512" using vpath_snocD [OF q] by blast
    show ?thesis using N [OF p(2)] u [OF p(2) _ p(3)] by (auto simp: p(1) pent_snoc split: option.splits)
  qed
  show "tree_ok A m' r" by (rule tree_ok_cong [OF ok N P]) (auto intro: vpath_mono)
  then show "walk m' r v = walk m r v"
    unfolding walk_pent [OF ok] walk_pent [OF \<open>tree_ok A m' r\<close>] using P by simp
qed

text \<open>The entry that replaces the frame of another one and keeps its flags.\<close>

definition repoint :: "u64 \<Rightarrow> nat \<Rightarrow> u64" where
  "repoint e f = (e AND NOT PT_MASK) OR (of_nat f AND PT_MASK)"

lemma repoint_simps:
  assumes "f mod 4096 = 0" "f < 2 ^ 30"
  shows "pt_addr (repoint e f) = f" "has PG_PRESENT (repoint e f) = has PG_PRESENT e" "has 0x80 (repoint e f) = has 0x80 e"
proof -
  have f: "unat (of_nat f :: u64) = f" using assms(2) by (intro unat_of_nat_small) simp
  have "of_nat f AND PT_MASK = (of_nat f :: u64)" using assms by (intro pt_mask_id) (simp_all add: f)
  moreover have "repoint e f AND PT_MASK = of_nat f AND PT_MASK"
    unfolding repoint_def by (intro bit_word_eqI) (auto simp: bit_simps)
  ultimately show "pt_addr (repoint e f) = f" by (simp add: pt_addr_def f)
  have "\<not> bit PT_MASK 0" "\<not> bit PT_MASK 7" by (simp_all add: PT_MASK_def)
  then show "has PG_PRESENT (repoint e f) = has PG_PRESENT e" "has 0x80 (repoint e f) = has 0x80 e"
    by (auto simp: PG_PRESENT_def has_bit repoint_def bit_simps)
qed

lemma release_frame:
  assumes "pmm_inv (mm_pmm s)" "f \<in> pool s"
  shows "pmm_inv (mm_pmm (free_frame f s))" "avail (free_frame f s) = insert f (avail s)"
    "pmem (free_frame f s) = pmem s" "same_regs s (free_frame f s)" "pool (free_frame f s) = pool s"
  using pmm.release_inv [OF assms [unfolded pool_def]] pmm.release_avail [OF assms [unfolded pool_def]]
  by (simp_all add: free_frame_def avail_def same_regs_def pool_def)

lemma ent_copy_table:
  assumes "d mod 4096 = 0" "t mod 4096 = 0" "j < 512"
  shows "ent (pmem (copy_table d src s)) t j = (if t = d then ent (pmem s) src j else ent (pmem s) t j)"
  unfolding copy_table_def using ent_copy [OF assms, of "pmem s" src] by simp

lemma copy_table_fields [simp]: "mm_pmm (copy_table d src s) = mm_pmm s" "avail (copy_table d src s) = avail s" "pool (copy_table d src s) = pool s"
  by (simp_all add: copy_table_def avail_def pool_def)

definition cloned :: "buf \<Rightarrow> buf \<Rightarrow> nat \<Rightarrow> nat \<Rightarrow> nat \<Rightarrow> nat \<Rightarrow> bool" where
  "cloned m m' r a pdpt pd \<longleftrightarrow>
     (let t3 = pt_addr (ent m r 0); t2 = pt_addr (ent m t3 0) in
      is_tab (ent m r 0) \<and> is_tab (ent m t3 0) \<and>
      (\<forall>u j. u mod 4096 = 0 \<and> j < 512 \<longrightarrow> ent m' u j =
        (if u = a then if j = 0 then repoint (ent m r 0) pdpt else ent m r j
         else if u = pdpt then if j = 0 then repoint (ent m t3 0) pd else ent m t3 j
         else if u = pd then ent m t2 j else ent m u j)))"

lemma clonedD:
  assumes "cloned m m' r a pdpt pd"
  shows "is_tab (ent m r 0)" "is_tab (ent m (pt_addr (ent m r 0)) 0)"
    "u mod 4096 = 0 \<Longrightarrow> j < 512 \<Longrightarrow> ent m' u j =
      (if u = a then if j = 0 then repoint (ent m r 0) pdpt else ent m r j
       else if u = pdpt then if j = 0 then repoint (ent m (pt_addr (ent m r 0)) 0) pd else ent m (pt_addr (ent m r 0)) j
       else if u = pd then ent m (pt_addr (ent m (pt_addr (ent m r 0)) 0)) j else ent m u j)"
proof -
  show "is_tab (ent m r 0)" "is_tab (ent m (pt_addr (ent m r 0)) 0)" using assms by (simp_all add: cloned_def Let_def)
  assume u: "u mod 4096 = 0" and j: "j < 512"
  from assms [unfolded cloned_def Let_def, THEN conjunct2, THEN conjunct2, THEN spec [of _ u], THEN spec [of _ j],
      THEN mp, OF conjI, OF u j]
  show "ent m' u j =
      (if u = a then if j = 0 then repoint (ent m r 0) pdpt else ent m r j
       else if u = pdpt then if j = 0 then repoint (ent m (pt_addr (ent m r 0)) 0) pd else ent m (pt_addr (ent m r 0)) j
       else if u = pd then ent m (pt_addr (ent m (pt_addr (ent m r 0)) 0)) j else ent m u j)" .
qed

lemma create_success:
  assumes ok: "mm_ok (cur_pml4 s) s" and c: "mm_create_address_space s = (s', a)" "a \<noteq> 0"
  shows "\<exists>pd pdpt. {pd, pdpt, a} \<subseteq> avail s \<and> distinct [pd, pdpt, a] \<and> same_regs s s' \<and>
    avail s' = avail s - {pd, pdpt, a} \<and> pmm_inv (mm_pmm s') \<and>
    cloned (pmem s) (pmem s') (cur_pml4 s) a pdpt pd"
proof -
  define r where "r = cur_pml4 s"
  define t3 where "t3 = pt_addr (ent (pmem s) r 0)"
  define t2 where "t2 = pt_addr (ent (pmem s) t3 0)"
  note defs = r_def [symmetric] t3_def [symmetric] t2_def [symmetric]
  have inv: "pmm_inv (mm_pmm s)" and tree: "tree_ok (avail s) (pmem s) r" using ok by (simp_all add: mm_ok_def r_def)
  obtain s1 pd where A1: "alloc_frame s = (s1, pd)" by fastforce
  define s1' where "s1' = copy_table pd t2 s1"
  obtain s2 pdpt where A2: "alloc_frame s1' = (s2, pdpt)" by fastforce
  define s4 where "s4 = set_ent pdpt 0 (repoint (ent (pmem (copy_table pdpt t3 s2)) t3 0) pd) (copy_table pdpt t3 s2)"
  obtain s5 pml4 where A3: "alloc_frame s4 = (s5, pml4)" by fastforce
  define s7 where "s7 = set_ent pml4 0 (repoint (ent (pmem (copy_table pml4 r s5)) r 0) pdpt) (copy_table pml4 r s5)"
  have main: "has PG_PRESENT (ent (pmem s) r 0) \<and> has PG_PRESENT (ent (pmem s) t3 0) \<and> pd \<noteq> 0 \<and> pdpt \<noteq> 0 \<and> pml4 \<noteq> 0 \<and> s' = s7 \<and> a = pml4"
    using c unfolding mm_create_address_space_def Let_def clone_table_def defs
    by (auto simp: A1 A2 A3 s1'_def [symmetric] repoint_def [symmetric] s4_def [symmetric] s7_def [symmetric] split: if_splits)
  note C1 = alloc_frame_cases [OF inv A1]
  have i1: "pmm_inv (mm_pmm s1')" by (simp add: s1'_def C1(1))
  note C2 = alloc_frame_cases [OF i1 A2]
  have i4: "pmm_inv (mm_pmm s4)" by (simp add: s4_def C2(1))
  note C3 = alloc_frame_cases [OF i4 A3]
  have f1: "pd \<in> avail s" "pd mod 4096 = 0" "pd < 2 ^ 30" "avail s1' = avail s - {pd}" using C1(5) main by (simp_all add: s1'_def)
  have f2: "pdpt \<in> avail s" "pdpt \<noteq> pd" "pdpt mod 4096 = 0" "pdpt < 2 ^ 30" "avail s4 = avail s - {pd} - {pdpt}"
    using C2(5) main by (simp_all add: f1(4) s4_def)
  have f3: "pml4 \<in> avail s" "pml4 \<noteq> pd" "pml4 \<noteq> pdpt" "pml4 mod 4096 = 0" "avail s7 = avail s - {pd} - {pdpt} - {pml4}"
    using C3(5) main by (simp_all add: f2(5) s7_def)
  have n0: "node (pmem s) r [] = Some r" "vpath 3 []" by simp_all
  have r: "r \<notin> avail s" "r mod 4096 = 0" using tree_okD(4) [OF tree n0(2,1)] tree_okD(1) [OF tree] by simp_all
  have v1: "vpath 2 [0]" "vpath 3 [0]" "vpath 2 [0, 0]" "vpath 3 [0, 0]" by (simp_all add: vpath_def)
  have tab4: "is_tab (ent (pmem s) r 0)"
    using tree_okD(5) [OF tree v1(1)] main by (simp add: pent_def is_tab_def)
  have n3: "node (pmem s) r [0] = Some t3" using tab4 by (simp add: t3_def)
  have tab3: "is_tab (ent (pmem s) t3 0)"
    using tree_okD(5) [OF tree v1(3)] main tab4 by (simp add: pent_def is_tab_def t3_def)
  have n2: "node (pmem s) r [0, 0] = Some t2" using tab4 tab3 by (simp add: t3_def t2_def)
  have t3: "t3 \<notin> avail s" "t3 mod 4096 = 0" using tree_okD(4) [OF tree v1(2) n3] by (simp_all add: t3_def)
  have t2: "t2 \<notin> avail s" "t2 mod 4096 = 0" using tree_okD(4) [OF tree v1(4) n2] by (simp_all add: t2_def)
  have ne: "r \<noteq> pd" "r \<noteq> pdpt" "r \<noteq> pml4" "t3 \<noteq> pd" "t3 \<noteq> pdpt" "t2 \<noteq> pd"
    using r(1) t3(1) t2(1) f1(1) f2(1) f3(1) by metis+
  have E1: "ent (pmem s2) u j = (if u = pd then ent (pmem s) t2 j else ent (pmem s) u j)" if "u mod 4096 = 0" "j < 512" for u j
    using ent_copy_table [OF f1(2) that, of t2 s1] C2(3) C1(3) by (simp add: s1'_def)
  have E2: "ent (pmem (copy_table pdpt t3 s2)) u j = (if u = pdpt then ent (pmem s) t3 j else if u = pd then ent (pmem s) t2 j else ent (pmem s) u j)"
    if "u mod 4096 = 0" "j < 512" for u j
    using ent_copy_table [OF f2(3) that, of t3 s2] E1 [OF that] E1 [OF t3(2) that(2)] ne by simp
  have E4: "ent (pmem s4) u j = (if u = pdpt then if j = 0 then repoint (ent (pmem s) t3 0) pd else ent (pmem s) t3 j
      else if u = pd then ent (pmem s) t2 j else ent (pmem s) u j)" if "u mod 4096 = 0" "j < 512" for u j
  proof -
    have "ent (pmem s4) u j = (if u = pdpt \<and> j = 0 then repoint (ent (pmem s) t3 0) pd else ent (pmem (copy_table pdpt t3 s2)) u j)"
      using ent_wr [OF f2(3) that(1) _ that(2), of 0 _ "pmem (copy_table pdpt t3 s2)"] E2 [OF t3(2), of 0] ne
      by (simp add: s4_def)
    then show ?thesis unfolding E2 [OF that] by simp
  qed
  have E5: "ent (pmem (copy_table pml4 r s5)) u j = (if u = pml4 then ent (pmem s) r j else ent (pmem s4) u j)"
    if "u mod 4096 = 0" "j < 512" for u j
    using ent_copy_table [OF f3(4) that, of r s5] E4 [OF r(2) that(2)] ne C3(3) by simp
  have E7: "ent (pmem s7) u j = (if u = pml4 then if j = 0 then repoint (ent (pmem s) r 0) pdpt else ent (pmem s) r j
      else ent (pmem s4) u j)" if "u mod 4096 = 0" "j < 512" for u j
  proof -
    have "ent (pmem s7) u j = (if u = pml4 \<and> j = 0 then repoint (ent (pmem s) r 0) pdpt else ent (pmem (copy_table pml4 r s5)) u j)"
      using ent_wr [OF f3(4) that(1) _ that(2), of 0 _ "pmem (copy_table pml4 r s5)"] E5 [OF r(2), of 0] E4 [OF r(2), of 0] ne
      by (simp add: s7_def)
    then show ?thesis unfolding E5 [OF that] by simp
  qed
  have reg: "same_regs s s7"
  proof -
    have "same_regs s s1'" unfolding s1'_def by (rule same_regs_trans [OF C1(2)]) simp
    then have "same_regs s (copy_table pdpt t3 s2)" by (meson C2(2) same_regs_trans same_regs_set_ent(3))
    then have "same_regs s s4" unfolding s4_def by (meson same_regs_trans same_regs_set_ent(1))
    then have "same_regs s (copy_table pml4 r s5)" by (meson C3(2) same_regs_trans same_regs_set_ent(3))
    then show ?thesis unfolding s7_def by (meson same_regs_trans same_regs_set_ent(1))
  qed
  have "cloned (pmem s) (pmem s') r a pdpt pd"
    unfolding cloned_def Let_def defs using tab4 tab3 main E7 E4 by simp
  moreover have "{pd, pdpt, a} \<subseteq> avail s" "distinct [pd, pdpt, a]" using f1 f2 f3 main by auto
  moreover have "same_regs s s'" using reg main by simp
  moreover have "avail s' = avail s - {pd, pdpt, a}" using f3(5) main by auto
  moreover have "pmm_inv (mm_pmm s')" using main C3(1) by (simp add: s7_def)
  ultimately show ?thesis unfolding r_def by blast
qed

lemma create_walks:
  assumes ok: "mm_ok (cur_pml4 s) s" and c: "mm_create_address_space s = (s', a)" "a \<noteq> 0"
  shows "walk (pmem s') (cur_pml4 s) v = walk (pmem s) (cur_pml4 s) v" "walk (pmem s') a v = walk (pmem s) (cur_pml4 s) v"
proof -
  define r where "r = cur_pml4 s"
  define t3 where "t3 = pt_addr (ent (pmem s) r 0)"
  define t2 where "t2 = pt_addr (ent (pmem s) t3 0)"
  note defs = r_def [symmetric] t3_def [symmetric] t2_def [symmetric]
  have inv: "pmm_inv (mm_pmm s)" and tree: "tree_ok (avail s) (pmem s) r" using ok by (simp_all add: mm_ok_def r_def)
  from create_success [OF ok c] obtain pd pdpt where F: "{pd, pdpt, a} \<subseteq> avail s" "distinct [pd, pdpt, a]"
    and cl: "cloned (pmem s) (pmem s') r a pdpt pd" unfolding r_def by blast
  note T = clonedD(1,2) [OF cl, unfolded defs] and E = clonedD(3) [OF cl, unfolded defs]
  have same: "ent (pmem s') u j = ent (pmem s) u j" if "u mod 4096 = 0" "u \<notin> avail s" "j < 512" for u j
    using E [OF that(1,3)] F(1) that(2) by auto
  show "walk (pmem s') (cur_pml4 s) v = walk (pmem s) (cur_pml4 s) v"
    using walk_agree(2) [OF tree same] unfolding r_def by blast
  have al: "a mod 4096 = 0" "pdpt mod 4096 = 0" "pd mod 4096 = 0" "pdpt < 2 ^ 30" "pd < 2 ^ 30"
    using F(1) pmm_addr_frame [of "pmm_clear (mm_pmm s)" "mm_pmm s"] inv by (auto simp: pmm_inv_def avail_def)
  note R = repoint_simps [OF al(2,4)] repoint_simps [OF al(3,5)]
  define e4 where "e4 = ent (pmem s) r (ix 39 v)"
  define e3 where "e3 = ent (pmem s) (pt_addr e4) (ix 30 v)"
  define e2 where "e2 = ent (pmem s) (pt_addr e3) (ix 21 v)"
  note es = e4_def [symmetric] e3_def [symmetric] e2_def [symmetric]
  define f4 where "f4 = ent (pmem s') a (ix 39 v)"
  define f3 where "f3 = ent (pmem s') (pt_addr f4) (ix 30 v)"
  define f2 where "f2 = ent (pmem s') (pt_addr f3) (ix 21 v)"
  note fs = f4_def [symmetric] f3_def [symmetric] f2_def [symmetric]
  have p4: "pent (pmem s) r [ix 39 v] = e4" by (simp add: pent_def e4_def)
  have t4: "is_tab e4 \<longleftrightarrow> has PG_PRESENT e4"
    using tree_okD(5) [OF tree, of "[ix 39 v]"] by (auto simp: p4 is_tab_def)
  have p3: "pent (pmem s) r (pd_path v) = (if is_tab e4 then e3 else 0)" by (simp add: pent_def pd_path_def es)
  have t3': "is_tab e3 \<longleftrightarrow> has PG_PRESENT e3" if "is_tab e4"
    using tree_okD(5) [OF tree, of "pd_path v"] that by (auto simp: p3 is_tab_def)
  have f4: "f4 = (if ix 39 v = 0 then repoint e4 pdpt else e4)" unfolding f4_def using E [OF al(1)] by (simp add: e4_def)
  have h4: "has PG_PRESENT f4 = has PG_PRESENT e4" unfolding f4 using R by simp
  have f3: "f3 = (if ix 39 v = 0 \<and> ix 30 v = 0 then repoint e3 pd else e3)" if tab: "is_tab e4"
  proof (cases "ix 39 v = 0")
    case True
    then have "pt_addr f4 = pdpt" "pt_addr e4 = t3" using R by (simp_all add: f4 e4_def t3_def)
    then show ?thesis unfolding f3_def e3_def using E [OF al(2) ix_less] F(2) True by auto
  next
    case False
    have n: "node (pmem s) r [ix 39 v] = Some (pt_addr e4)" using tab by (simp add: es)
    have "pt_addr e4 \<notin> avail s" by (rule tree_okD(4) [OF tree _ n]) (simp add: vpath_def)
    then show ?thesis using False same [OF pt_addr_aligned _ ix_less] by (simp add: f3_def f4 e3_def)
  qed
  have h3: "has PG_PRESENT f3 = has PG_PRESENT e3" "has 0x80 f3 = has 0x80 e3" if "is_tab e4"
    unfolding f3 [OF that] using R by simp_all
  have f2: "f2 = e2" if tab: "is_tab e4" "is_tab e3"
  proof (cases "ix 39 v = 0 \<and> ix 30 v = 0")
    case True
    then have "pt_addr f3 = pd" using R f3 [OF tab(1)] by simp
    moreover have "pt_addr e3 = t2" using True by (simp add: e3_def e4_def t2_def t3_def)
    ultimately show ?thesis unfolding f2_def e2_def using E [OF al(3) ix_less] F(2) by auto
  next
    case False
    have n: "node (pmem s) r (pd_path v) = Some (pt_addr e3)" using tab by (simp add: es pd_path_def)
    have "pt_addr e3 \<notin> avail s" by (rule tree_okD(4) [OF tree _ n]) (simp add: vpath_def pd_path_def)
    then show ?thesis using False same [OF pt_addr_aligned _ ix_less] f3 [OF tab(1)] by (simp only: f2_def e2_def if_False)
  qed
  have f1: "ent (pmem s') (pt_addr f2) (ix 12 v) = ent (pmem s) (pt_addr e2) (ix 12 v)" if tab: "is_tab e4" "is_tab e3" "is_tab e2"
  proof -
    have n: "node (pmem s) r (pt_path v) = Some (pt_addr e2)" using tab by (simp add: es pt_path_def)
    have "pt_addr e2 \<notin> avail s" by (rule tree_okD(4) [OF tree _ n]) simp
    then show ?thesis unfolding f2 [OF tab(1,2)] using same [OF pt_addr_aligned _ ix_less] by blast
  qed
  have "walk (pmem s') a v = walk (pmem s) r v"
  proof (cases "is_tab e4 \<and> is_tab e3")
    case False
    then show ?thesis unfolding walk_def Let_def es fs using h4 h3 t4 t3' by (auto simp: is_tab_def)
  next
    case True
    then have n: "\<not> has 0x80 e3" "has PG_PRESENT e4" "has PG_PRESENT e3" by (simp_all add: is_tab_def)
    have "walk (pmem s) r v = (if \<not> has PG_PRESENT e2 then None
        else if has 0x80 e2 then Some ((e2 AND 0x000FFFFFFFE00000) OR (v AND 0x1FFFFF))
        else if \<not> has PG_PRESENT (ent (pmem s) (pt_addr e2) (ix 12 v)) then None
        else Some ((ent (pmem s) (pt_addr e2) (ix 12 v) AND PT_MASK) OR (v AND 0xFFF)))"
      unfolding walk_def Let_def es using n by simp
    moreover have "walk (pmem s') a v = (if \<not> has PG_PRESENT f2 then None
        else if has 0x80 f2 then Some ((f2 AND 0x000FFFFFFFE00000) OR (v AND 0x1FFFFF))
        else if \<not> has PG_PRESENT (ent (pmem s') (pt_addr f2) (ix 12 v)) then None
        else Some ((ent (pmem s') (pt_addr f2) (ix 12 v) AND PT_MASK) OR (v AND 0xFFF)))"
      unfolding walk_def Let_def fs using n h4 h3 True by simp
    ultimately show ?thesis using f2 f1 True by (auto simp: is_tab_def)
  qed
  then show "walk (pmem s') a v = walk (pmem s) (cur_pml4 s) v" by (simp add: r_def)
qed

text \<open>C7: A new address space (\<open>mm_create_address_space\<close>) translates every address as the address
  space it was cloned from, and the clone leaves the translations of the original unchanged.\<close>

theorem address_space_clones_kernel:
  assumes "mm_ok (cur_pml4 s) s" "mm_create_address_space s = (s', a)" "a \<noteq> 0"
  shows "walk (pmem s') a v = walk (pmem s) (cur_pml4 s) v \<and> walk (pmem s') (cur_pml4 s') v = walk (pmem s) (cur_pml4 s) v"
proof -
  have "same_regs s s'" using create_success [OF assms] by blast
  then show ?thesis using create_walks [OF assms] same_regs_fields(2) by simp
qed

text \<open>The three tables of the clone are its own: no table of the original is among them.\<close>

lemma create_private:
  assumes ok: "mm_ok (cur_pml4 s) s" and c: "mm_create_address_space s = (s', a)" "a \<noteq> 0"
  shows "\<exists>pdpt pd. node (pmem s') a [0] = Some pdpt \<and> node (pmem s') a [0, 0] = Some pd \<and>
    (\<forall>q. vpath 3 q \<longrightarrow> node (pmem s') (cur_pml4 s) q \<notin> {Some a, Some pdpt, Some pd})"
proof -
  define r where "r = cur_pml4 s"
  define t3 where "t3 = pt_addr (ent (pmem s) r 0)"
  define t2 where "t2 = pt_addr (ent (pmem s) t3 0)"
  note defs = r_def [symmetric] t3_def [symmetric] t2_def [symmetric]
  have inv: "pmm_inv (mm_pmm s)" and tree: "tree_ok (avail s) (pmem s) r" using ok by (simp_all add: mm_ok_def r_def)
  from create_success [OF ok c] obtain pd pdpt where F: "{pd, pdpt, a} \<subseteq> avail s" "distinct [pd, pdpt, a]"
    and cl: "cloned (pmem s) (pmem s') r a pdpt pd" unfolding r_def by blast
  note T = clonedD(1,2) [OF cl, unfolded defs] and E = clonedD(3) [OF cl, unfolded defs]
  have al: "a mod 4096 = 0" "pdpt mod 4096 = 0" "pdpt < 2 ^ 30" "pd mod 4096 = 0" "pd < 2 ^ 30"
    using F(1) pmm_addr_frame [of "pmm_clear (mm_pmm s)" "mm_pmm s"] inv by (auto simp: pmm_inv_def avail_def)
  note R = repoint_simps [OF al(2,3)] repoint_simps [OF al(4,5)]
  have same: "ent (pmem s') u j = ent (pmem s) u j" if "u mod 4096 = 0" "u \<notin> avail s" "j < 512" for u j
    using E [OF that(1,3)] F(1) that(2) by auto
  have E0: "ent (pmem s') a 0 = repoint (ent (pmem s) r 0) pdpt" using E [OF al(1), of 0] by simp
  have E1: "ent (pmem s') pdpt 0 = repoint (ent (pmem s) t3 0) pd" using E [OF al(2), of 0] F(2) by simp
  have T': "is_tab (repoint (ent (pmem s) r 0) pdpt)" "is_tab (repoint (ent (pmem s) t3 0) pd)"
    using T unfolding is_tab_def R .
  have "node (pmem s') a [0] = Some pdpt" using T'(1) by (simp add: E0 R)
  moreover have "node (pmem s') a [0, 0] = Some pd" using T' by (simp add: E0 E1 R)
  moreover have "node (pmem s') r q \<notin> {Some a, Some pdpt, Some pd}" if "vpath 3 q" for q
  proof
    assume "node (pmem s') r q \<in> {Some a, Some pdpt, Some pd}"
    then obtain x where x: "node (pmem s') r q = Some x" "x \<in> {a, pdpt, pd}" by auto
    have "node (pmem s) r q = Some x" using x(1) walk_agree(1) [OF tree same that] by simp
    then have "x \<notin> avail s" by (rule tree_okD(4) [OF tree that])
    then show False using F(1) x(2) by auto
  qed
  ultimately show ?thesis by (auto simp: r_def)
qed

lemma address_space_failure_frees_lib:
  assumes ok: "mm_ok (cur_pml4 s) s" and c: "mm_create_address_space s = (s', 0)"
  shows "avail s' = avail s \<and> mm_ok (cur_pml4 s') s' \<and> walk (pmem s') (cur_pml4 s') v = walk (pmem s) (cur_pml4 s) v \<and> same_regs s s'"
proof -
  define r where "r = cur_pml4 s"
  define t3 where "t3 = pt_addr (ent (pmem s) r 0)"
  define t2 where "t2 = pt_addr (ent (pmem s) t3 0)"
  note defs = r_def [symmetric] t3_def [symmetric] t2_def [symmetric]
  have inv: "pmm_inv (mm_pmm s)" and tree: "tree_ok (avail s) (pmem s) r" using ok by (simp_all add: mm_ok_def r_def)
  obtain s1 pd where A1: "alloc_frame s = (s1, pd)" by fastforce
  define s1' where "s1' = copy_table pd t2 s1"
  obtain s2 pdpt where A2: "alloc_frame s1' = (s2, pdpt)" by fastforce
  define s4 where "s4 = set_ent pdpt 0 (repoint (ent (pmem (copy_table pdpt t3 s2)) t3 0) pd) (copy_table pdpt t3 s2)"
  obtain s5 pml4 where A3: "alloc_frame s4 = (s5, pml4)" by fastforce
  have main: "s' = s \<or> (pd = 0 \<and> s' = s1) \<or> (pd \<noteq> 0 \<and> pdpt = 0 \<and> s' = free_frame pd s2) \<or>
      (pd \<noteq> 0 \<and> pdpt \<noteq> 0 \<and> pml4 = 0 \<and> s' = free_frame pdpt (free_frame pd s5))"
    using c unfolding mm_create_address_space_def Let_def clone_table_def defs
    by (auto simp: A1 A2 A3 s1'_def [symmetric] repoint_def [symmetric] s4_def [symmetric] split: if_splits)
  note C1 = alloc_frame_cases [OF inv A1]
  have i1: "pmm_inv (mm_pmm s1')" by (simp add: s1'_def C1(1))
  note C2 = alloc_frame_cases [OF i1 A2]
  have i4: "pmm_inv (mm_pmm s4)" by (simp add: s4_def C2(1))
  note C3 = alloc_frame_cases [OF i4 A3]
  have fin: ?thesis if i: "pmm_inv (mm_pmm s')" and a: "avail s' = avail s" and g: "same_regs s s'"
    and e: "\<And>u j. u mod 4096 = 0 \<Longrightarrow> u \<notin> avail s \<Longrightarrow> j < 512 \<Longrightarrow> ent (pmem s') u j = ent (pmem s) u j"
  proof -
    have "cur_pml4 s' = r" using same_regs_fields(2) [OF g] by (simp add: r_def)
    then show ?thesis using i a g walk_agree(2,3) [OF tree e] unfolding mm_ok_def by (simp add: r_def)
  qed
  from main show ?thesis
  proof (elim disjE conjE, goal_cases)
    case 1
    then show ?thesis using inv by (intro fin) simp_all
  next
    case 2
    then show ?thesis using C1(4) inv by (intro fin) simp_all
  next
    case 3
    have s2: "s2 = s1'" using C2(4) [OF 3(2)] by simp
    have P: "pd \<in> pool s2" using C1(6) [OF 3(1)] C1(7) by (simp add: s2 s1'_def)
    note F = release_frame [OF C2(1) P]
    have "avail s' = avail s" unfolding 3(3) F(2) using C1(5) [OF 3(1)] by (auto simp: s2 s1'_def)
    moreover have "ent (pmem s') u j = ent (pmem s) u j" if u: "u mod 4096 = 0" "u \<notin> avail s" "j < 512" for u j
    proof -
      have n: "u \<noteq> pd" "pd mod 4096 = 0" using C1(5) [OF 3(1)] u(2) by auto
      have "pmem s' = pmem s1'" using F(3) by (simp only: 3(3) s2)
      moreover have "ent (pmem s1') u j = ent (pmem s1) u j"
        unfolding s1'_def using ent_copy_table [OF n(2) u(1,3), of t2 s1] n(1) by simp
      ultimately show ?thesis using C1(3) by simp
    qed
    moreover have "same_regs s s'" unfolding 3(3)
      by (rule same_regs_trans [OF C1(2) same_regs_trans [OF same_regs_set_ent(3) F(4) [unfolded s2 s1'_def], folded s2 s1'_def]])
    ultimately show ?thesis using F(1) 3(3) by (intro fin) simp_all
  next
    case 4
    have s5: "s5 = s4" using C3(4) [OF 4(3)] by simp
    have P1: "pd \<in> pool s5" "pdpt \<in> pool s5"
      using C1(6) [OF 4(1)] C1(7) C2(6) [OF 4(2)] C2(7) by (simp_all add: s5 s4_def s1'_def)
    note F1 = release_frame [OF C3(1) P1(1)]
    have P2: "pdpt \<in> pool (free_frame pd s5)" using P1(2) F1(5) by simp
    note F2 = release_frame [OF F1(1) P2]
    note f1 = C1(5) [OF 4(1)] and f2 = C2(5) [OF 4(2)]
    have "avail s' = avail s" unfolding 4(4) F2(2) F1(2) using f1 f2 by (auto simp: s5 s4_def s1'_def)
    moreover have "ent (pmem s') u j = ent (pmem s) u j" if u: "u mod 4096 = 0" "u \<notin> avail s" "j < 512" for u j
    proof -
      have n: "u \<noteq> pd" "u \<noteq> pdpt" using f1 f2 u(2) by (auto simp: s1'_def)
      have "pmem s' = pmem s4" using F2(3) F1(3) by (simp only: 4(4) s5)
      moreover have "ent (pmem s4) u j = ent (pmem (copy_table pdpt t3 s2)) u j"
        using ent_wr [of pdpt u 0 j] f2 u n by (simp add: s4_def)
      moreover have "\<dots> = ent (pmem s2) u j" using ent_copy_table [of pdpt u j t3 s2] f2 u n by simp
      moreover have "\<dots> = ent (pmem s) u j" using ent_copy_table [of pd u j t2 s1] f1 u n C1(3) C2(3) by (simp add: s1'_def)
      ultimately show ?thesis by simp
    qed
    moreover have "same_regs s s'"
    proof -
      have "same_regs s s1'" unfolding s1'_def by (rule same_regs_trans [OF C1(2)]) simp
      then have "same_regs s (copy_table pdpt t3 s2)" by (meson C2(2) same_regs_trans same_regs_set_ent(3))
      then have "same_regs s s5" unfolding s5 s4_def by (meson same_regs_trans same_regs_set_ent(1))
      then show ?thesis unfolding 4(4) by (meson F1(4) F2(4) same_regs_trans)
    qed
    ultimately show ?thesis using F2(1) 4(4) by (intro fin) simp_all
  qed
qed


text \<open>A new address space is created whenever the kernel maps its first GiB and three frames are
  free.\<close>

theorem address_space_created:
  assumes ok: "mm_ok (cur_pml4 s) s" and w: "walk (pmem s) (cur_pml4 s) 0 \<noteq> None" and av: "3 \<le> card (avail s)"
  shows "\<exists>s' a. mm_create_address_space s = (s', a) \<and> a \<noteq> 0"
proof -
  define r where "r = cur_pml4 s"
  define t3 where "t3 = pt_addr (ent (pmem s) r 0)"
  define t2 where "t2 = pt_addr (ent (pmem s) t3 0)"
  note defs = r_def [symmetric] t3_def [symmetric] t2_def [symmetric]
  have inv: "pmm_inv (mm_pmm s)" using ok by (simp add: mm_ok_def)
  have ix0: "ix k 0 = 0" for k by (simp add: ix_def)
  have P: "has PG_PRESENT (ent (pmem s) r 0)" "has PG_PRESENT (ent (pmem s) t3 0)"
    using w unfolding walk_def Let_def ix0 defs by (auto split: if_splits)
  have cr: "0 < card (avail x) \<Longrightarrow> avail x \<noteq> {}" for x by auto
  obtain s1 pd where A1: "alloc_frame s = (s1, pd)" by fastforce
  define s1' where "s1' = copy_table pd t2 s1"
  obtain s2 pdpt where A2: "alloc_frame s1' = (s2, pdpt)" by fastforce
  define s4 where "s4 = set_ent pdpt 0 (repoint (ent (pmem (copy_table pdpt t3 s2)) t3 0) pd) (copy_table pdpt t3 s2)"
  obtain s5 pml4 where A3: "alloc_frame s4 = (s5, pml4)" by fastforce
  note C1 = alloc_frame_cases [OF inv A1]
  have n1: "pd \<noteq> 0" using C1(4) av cr [of s] by auto
  have a1: "2 \<le> card (avail s1')" using C1(5) [OF n1] av by (simp add: s1'_def card_Diff_singleton)
  have i1: "pmm_inv (mm_pmm s1')" by (simp add: s1'_def C1(1))
  note C2 = alloc_frame_cases [OF i1 A2]
  have n2: "pdpt \<noteq> 0" using C2(4) a1 cr [of s1'] by auto
  have a2: "1 \<le> card (avail s4)" using C2(5) [OF n2] a1 by (simp add: s4_def card_Diff_singleton)
  have i4: "pmm_inv (mm_pmm s4)" by (simp add: s4_def C2(1))
  note C3 = alloc_frame_cases [OF i4 A3]
  have n3: "pml4 \<noteq> 0" using C3(4) a2 cr [of s4] by auto
  show ?thesis
    unfolding mm_create_address_space_def Let_def clone_table_def defs
    using P n1 n2 n3 by (simp add: A1 A2 A3 s1'_def [symmetric] repoint_def [symmetric] s4_def [symmetric])
qed

text \<open>A machine with its first page mapped.\<close>

lemma boot_first_page:
  obtains s where "mm_ok (cur_pml4 s) s" "walk (pmem s) (cur_pml4 s) 0 \<noteq> None" "3 \<le> card (avail s)"
proof -
  let ?b = "boot_mm 0x4020000"
  have f: "(0 :: u64) AND PT_MASK = 0" by simp
  have R: "range_ok 0 0x1000" by (simp add: range_ok_def)
  obtain s where m: "mm_map_phys_range 0 0 0x1000 0 ?b = Some (s, True)"
    using map_range_succeeds_lib [where s = ?b and virt = 0 and sz = "0x1000" and flags = 0 and phys = 0] by (auto simp: boot_simps)
  have rm: "remap (cur_pml4 ?b) (range_va 0 0x1000) (lin 0 0) ?b s True"
    using map_range_remap [OF R _ f, where s = ?b and phys = 0] m by (auto simp: boot_simps)
  have "same_regs ?b s" using rm by (simp add: remap_def)
  then have c: "cur_pml4 s = cur_pml4 ?b" by (rule same_regs_fields(2))
  have ok: "mm_ok (cur_pml4 s) s" using rm by (simp add: remap_def c)
  have z: "(0 :: u64) \<in> range_va 0 0x1000" by (simp add: range_va_def page_down_def)
  have w: "walk (pmem s) (cur_pml4 s) 0 \<noteq> None" using rm z unfolding c remap_def lin_def by auto
  have "32 \<le> card (avail ?b)" by (simp add: boot_simps)
  obtain s1 b where mp: "map_page 0x1000 (0 OR PG_PRESENT OR PG_RW OR PG_USER) (PG_PRESENT OR PG_RW OR PG_USER) 0 0 ?b = (s1, b)"
    by fastforce
  have b3: "3 \<le> card (avail ?b)" using \<open>32 \<le> card (avail ?b)\<close> by linarith
  have S: "b" "card (avail ?b) \<le> card (avail s1) + 3"
    using map_page_succeeds [OF boot_ok(1) tbl_flags_ok boot_ok(2) _ boot_not_huge b3 mp] by simp_all
  have "s = s1"
    using m S(1) mp unfolding mm_map_phys_range_def
    by (simp add: page_down_def) (subst (asm) map_range_loop.simps, simp, subst (asm) map_range_loop.simps, simp)
  moreover have "3 \<le> card (avail s1)" using S(2) \<open>32 \<le> card (avail ?b)\<close> by linarith
  ultimately have "3 \<le> card (avail s)" by simp
  then show thesis by (rule that [OF ok w])
qed

lemma address_space_created_witness:
  "\<exists>s s' a. mm_ok (cur_pml4 s) s \<and> mm_create_address_space s = (s', a) \<and> a \<noteq> 0"
  using boot_first_page address_space_created by metis

lemma address_space_clones_kernel_witness:
  "\<exists>s s' a. mm_create_address_space s = (s', a) \<and> a \<noteq> 0 \<and> walk (pmem s) (cur_pml4 s) 0 \<noteq> None \<and>
    walk (pmem s') a 0 = walk (pmem s) (cur_pml4 s) 0 \<and> walk (pmem s') (cur_pml4 s') 0 = walk (pmem s) (cur_pml4 s) 0"
proof (rule boot_first_page)
  fix s assume s: "mm_ok (cur_pml4 s) s" "walk (pmem s) (cur_pml4 s) 0 \<noteq> None" "3 \<le> card (avail s)"
  obtain s' a where c: "mm_create_address_space s = (s', a)" "a \<noteq> 0" using address_space_created [OF s] by blast
  then show ?thesis using s(2) address_space_clones_kernel [OF s(1) c, of 0] by blast
qed


section \<open>The MMIO arena\<close>

definition arena_ok :: "mm_state \<Rightarrow> bool" where
  "arena_ok s \<longleftrightarrow> s_mmio_inited s \<and> aligned12 (s_mmio_next s) \<and>
     MMIO_ARENA_BASE \<le> s_mmio_next s \<and> s_mmio_next s \<le> MMIO_ARENA_END"

lemma reserve_spec:
  assumes ok: "arena_ok s" and sz: "unat sz \<le> 2 ^ 44" and m: "mm_mmio_reserve sz s = (s', va)"
  shows "arena_ok s' \<and> unat (s_mmio_next s) \<le> unat (s_mmio_next s') \<and>
    (va \<noteq> 0 \<longrightarrow> va = s_mmio_next s \<and> unat va + unat sz \<le> unat (s_mmio_next s'))"
proof -
  have E: "unat (MMIO_ARENA_END) = 0xFFFFE20000000000" by (simp add: arena_defs)
  have n: "unat (s_mmio_next s) \<le> 0xFFFFE20000000000"
    using ok unfolding arena_ok_def word_le_nat_alt E by simp
  have s0: "unat (sz + 0xFFF) = unat sz + 4095" using sz by (intro trans [OF unat_add64]) simp_all
  let ?b = "page_down (sz + 0xFFF)"
  have b: "unat ?b = (unat sz + 4095) div 4096 * 4096" by (simp add: unat_page_down s0)
  have bl: "unat sz \<le> unat ?b" "unat ?b \<le> unat sz + 4095"
    unfolding b using div_bounds [of "unat sz + 4095"] by linarith+
  have sum: "unat (s_mmio_next s + ?b) = unat (s_mmio_next s) + unat ?b"
    using n bl sz by (intro unat_add64) simp
  have al: "aligned12 (s_mmio_next s + ?b)"
    using ok unfolding aligned12_def sum b arena_ok_def by simp
  have mm: "(s', va) = (if sz = 0 then (s, 0) else if s_mmio_next s + ?b > MMIO_ARENA_END then (s, 0)
      else (s\<lparr>s_mmio_next := s_mmio_next s + ?b\<rparr>, s_mmio_next s))"
    using m ok unfolding mm_mmio_reserve_def arena_ok_def Let_def by (auto split: if_splits)
  show ?thesis
  proof (cases "sz = 0 \<or> s_mmio_next s + ?b > MMIO_ARENA_END")
    case True
    then have "s' = s" "va = 0" using mm by (auto split: if_splits)
    then show ?thesis using ok by simp
  next
    case False
    then have r: "s' = s\<lparr>s_mmio_next := s_mmio_next s + ?b\<rparr>" "va = s_mmio_next s" using mm by simp_all
    have "MMIO_ARENA_BASE \<le> s_mmio_next s + ?b"
      using ok unfolding arena_ok_def word_le_nat_alt sum by linarith
    then show ?thesis using False al ok bl sum by (simp add: r arena_ok_def not_less)
  qed
qed

text \<open>Reservations one after the other, with the windows they give.\<close>

fun reserve_all :: "u64 list \<Rightarrow> mm_state \<Rightarrow> mm_state \<times> (u64 \<times> u64) list" where
  "reserve_all [] s = (s, [])"
| "reserve_all (sz # szs) s =
     (case mm_mmio_reserve sz s of (s1, va) \<Rightarrow>
      case reserve_all szs s1 of (s2, ws) \<Rightarrow> (s2, if va = 0 then ws else (va, sz) # ws))"

definition window_before :: "u64 \<times> u64 \<Rightarrow> u64 \<times> u64 \<Rightarrow> bool" where
  "window_before w w' \<longleftrightarrow> unat (fst w) + unat (snd w) \<le> unat (fst w')"

lemma reserve_all_spec:
  "arena_ok s \<Longrightarrow> \<forall>sz \<in> set szs. unat sz \<le> 2 ^ 44 \<Longrightarrow> reserve_all szs s = (s', ws) \<Longrightarrow>
    arena_ok s' \<and> unat (s_mmio_next s) \<le> unat (s_mmio_next s') \<and> sorted_wrt window_before ws \<and>
    (\<forall>w \<in> set ws. unat (s_mmio_next s) \<le> unat (fst w) \<and> unat (fst w) + unat (snd w) \<le> unat (s_mmio_next s'))"
proof (induction szs arbitrary: s s' ws)
  case Nil
  then show ?case by simp
next
  case (Cons sz szs)
  obtain s1 va where m: "mm_mmio_reserve sz s = (s1, va)" by fastforce
  obtain s2 ws2 where r: "reserve_all szs s1 = (s2, ws2)" by fastforce
  have out: "s' = s2" "ws = (if va = 0 then ws2 else (va, sz) # ws2)" using Cons.prems(3) m r by simp_all
  have S: "arena_ok s1" "unat (s_mmio_next s) \<le> unat (s_mmio_next s1)"
    "va \<noteq> 0 \<longrightarrow> va = s_mmio_next s \<and> unat va + unat sz \<le> unat (s_mmio_next s1)"
    using reserve_spec [OF Cons.prems(1) _ m] Cons.prems(2) by simp_all
  have IH: "arena_ok s2" "unat (s_mmio_next s1) \<le> unat (s_mmio_next s2)" "sorted_wrt window_before ws2"
    "\<forall>w \<in> set ws2. unat (s_mmio_next s1) \<le> unat (fst w) \<and> unat (fst w) + unat (snd w) \<le> unat (s_mmio_next s2)"
    using Cons.IH [OF S(1) _ r] Cons.prems(2) by simp_all
  show ?case
  proof (cases "va = 0")
    case True
    then show ?thesis using S IH out by (auto intro: order_trans)
  next
    case False
    note v = mp [OF S(3) False]
    have b: "\<forall>w \<in> set ws2. window_before (va, sz) w"
      using IH(4) conjunct2 [OF v] unfolding window_before_def fst_conv snd_conv by (meson order_trans)
    have ws: "ws = (va, sz) # ws2" using out False by simp
    have "\<forall>w \<in> set ws2. unat (s_mmio_next s) \<le> unat (fst w) \<and> unat (fst w) + unat (snd w) \<le> unat (s_mmio_next s2)"
      using IH(4) S(2) by (meson order_trans)
    moreover have "unat va + unat sz \<le> unat (s_mmio_next s2)" using conjunct2 [OF v] IH(2) by linarith
    moreover have "unat (s_mmio_next s) \<le> unat va" using conjunct1 [OF v] by simp
    ultimately show ?thesis using IH(1,3) b order_trans [OF S(2) IH(2)] unfolding ws out(1) by simp
  qed
qed

text \<open>C37: The windows that \<open>mm_mmio_reserve\<close> hands out for sizes up to 16 TiB lie in the arena and do not
  overlap, whatever the sequence of requests.\<close>

theorem mmio_windows_disjoint:
  assumes "arena_ok s" "\<forall>sz \<in> set szs. unat sz \<le> 2 ^ 44" "reserve_all szs s = (s', ws)"
  shows "sorted_wrt window_before ws \<and>
    (\<forall>w \<in> set ws. unat MMIO_ARENA_BASE \<le> unat (fst w) \<and> unat (fst w) + unat (snd w) \<le> unat MMIO_ARENA_END)"
proof -
  note S = reserve_all_spec [OF assms]
  have "unat MMIO_ARENA_BASE \<le> unat (s_mmio_next s)" using assms(1) by (simp add: arena_ok_def word_le_nat_alt)
  moreover have "unat (s_mmio_next s') \<le> unat MMIO_ARENA_END" using S by (simp add: arena_ok_def word_le_nat_alt)
  ultimately show ?thesis using S by (meson order_trans)
qed

lemma boot_arena: "arena_ok (boot_mm mem)"
  by (simp add: arena_ok_def boot_mm_def aligned12_def arena_defs word_le_nat_alt)

definition two_windows :: "(u64 \<times> u64) list" where
  "two_windows = [(MMIO_ARENA_BASE, 0x1800), (MMIO_ARENA_BASE + 0x2000, 0x1000)]"

lemma boot_reserve: "reserve_all [0x1800, 0x1000] (boot_mm mem) =
    ((boot_mm mem)\<lparr>s_mmio_next := MMIO_ARENA_BASE + 0x3000\<rparr>, two_windows)"
  by (simp add: two_windows_def mm_mmio_reserve_def boot_mm_def page_down_def arena_defs)

lemma mmio_windows_disjoint_witness:
  "sorted_wrt window_before two_windows \<and>
    list_all (\<lambda>w. unat MMIO_ARENA_BASE \<le> unat (fst w) \<and> unat (fst w) + unat (snd w) \<le> unat MMIO_ARENA_END) two_windows"
  using mmio_windows_disjoint [OF boot_arena _ boot_reserve] by (simp add: list_all_iff)

text \<open>The reservation does not check its sums.  A size near 2^64 rounds to 0 bytes: the caller gets an
  address that stays free for the next caller.\<close>

text \<open>C38: The sums of \<open>mm_mmio_reserve\<close> wrap: for a size that reaches from the next free address to the
  end of the address space the reservation succeeds and puts the next free address at 0, outside
  the arena.\<close>

theorem mmio_reserve_wraps:
  assumes "arena_ok s"
  shows "mm_mmio_reserve (- s_mmio_next s) s = (s\<lparr>s_mmio_next := 0\<rparr>, s_mmio_next s)"
proof -
  have n0: "s_mmio_next s \<noteq> 0" using assms by (auto simp: arena_ok_def arena_defs word_le_nat_alt)
  have u: "unat (- s_mmio_next s) = 2 ^ 64 - unat (s_mmio_next s)" 
  proof -
    have lt: "unat (s_mmio_next s) < 2 ^ 64" using unsigned_less [of "s_mmio_next s"] by simp
    have "(of_nat (2 ^ 64) :: u64) = 0" by simp
    define m where "m = 2 ^ 64 - unat (s_mmio_next s)"
    have m: "m < 2 ^ 64" using n0 by (simp add: m_def unat_gt_0)
    have "- s_mmio_next s = of_nat m"
      using lt \<open>(of_nat (2 ^ 64) :: u64) = 0\<close> unfolding m_def by (simp only: of_nat_diff less_imp_le of_nat_unat_id) simp
    moreover have "unat (of_nat m :: u64) = m" using m by (intro unat_of_nat_small) simp
    ultimately show ?thesis by (simp only: m_def)
  qed
  obtain a where a: "unat (s_mmio_next s) = 4096 * a"
    using assms by (auto simp: arena_ok_def aligned12_def mod_eq_0_iff_dvd dvd_def)
  define g where "g = 2 ^ 52 - a"
  have al: "unat (- s_mmio_next s) = 4096 * g" unfolding u a g_def by (simp add: diff_mult_distrib2)
  have "unat MMIO_ARENA_BASE \<le> unat (s_mmio_next s)" using assms by (simp add: arena_ok_def word_le_nat_alt)
  then have lt: "unat (- s_mmio_next s) < 2 ^ 64 - 4095" unfolding u by (simp add: arena_defs)
  have p: "page_down (- s_mmio_next s + 0xFFF) = - s_mmio_next s"
  proof (rule word_unat_eq_iff [THEN iffD2])
    have "unat (- s_mmio_next s + 0xFFF) = unat (- s_mmio_next s) + 4095"
      using lt by (intro trans [OF unat_add64]) simp_all
    then show "unat (page_down (- s_mmio_next s + 0xFFF)) = unat (- s_mmio_next s)"
      unfolding unat_page_down al by simp
  qed
  show ?thesis using assms n0 p by (simp add: mm_mmio_reserve_def arena_ok_def Let_def)
qed

lemma mmio_reserve_wraps_witness:
  "mm_mmio_reserve (- s_mmio_next (boot_mm 0)) (boot_mm 0) = ((boot_mm 0)\<lparr>s_mmio_next := 0\<rparr>, s_mmio_next (boot_mm 0))"
  by (rule mmio_reserve_wraps [OF boot_arena])

text \<open>The end of the range wraps in \<open>mm_map_phys_range\<close>: a request for the last page of the address
  space reports success and maps nothing.\<close>

theorem map_last_page_maps_nothing:
  assumes "0xFFFFFFFFFFFFF000 \<le> virt" "sz \<noteq> 0" "unat sz \<le> 0x1000"
  shows "mm_map_phys_range virt phys sz flags s = Some (s, True)"
proof -
  have v: "unat virt < 2 ^ 64" "0xFFFFFFFFFFFFF000 \<le> unat virt" using unsigned_less [of virt] assms(1) by (simp_all add: word_le_nat_alt)
  have s0: "0 < unat sz" using assms(2) by (simp add: unat_gt_0)
  have w: "unat (virt + sz + 0xFFF) \<le> 0x1FFF \<or> unat (virt + sz + 0xFFF) div 4096 = unat virt div 4096"
  proof -
    have "unat (virt + sz + 0xFFF) = (unat virt + unat sz + 4095) mod 2 ^ 64"
      by (simp add: unat_word_ariths mod_add_left_eq)
    moreover have "2 ^ 64 \<le> unat virt + unat sz + 4095" "unat virt + unat sz + 4095 < 2 ^ 64 + 0x2000"
      using v s0 assms(3) by simp_all
    ultimately have "unat (virt + sz + 0xFFF) = unat virt + unat sz + 4095 - 2 ^ 64"
      by (simp add: le_mod_geq mod_if)
    then show ?thesis using v assms(3) by linarith
  qed
  have "\<not> page_down virt < page_down (virt + sz + 0xFFF)"
  proof -
    have "unat virt div 4096 = 0xFFFFFFFFFFFFF" using v by simp
    then have "unat (page_down (virt + sz + 0xFFF)) \<le> unat (page_down virt)"
      using w div_le_mono [of "unat (virt + sz + 0xFFF)" "0x1FFF" 4096] unfolding unat_page_down by auto
    then show ?thesis by (simp add: word_less_nat_alt)
  qed
  then show ?thesis using assms(2) by (simp add: mm_map_phys_range_def map_range_loop.simps)
qed

lemma map_last_page_maps_nothing_witness:
  "mm_map_phys_range 0xFFFFFFFFFFFFF000 0x5000000 0x1000 0 (boot_mm 0x4020000) = Some (boot_mm 0x4020000, True)"
  by (rule map_last_page_maps_nothing) simp_all

section \<open>Device windows\<close>

text \<open>C9: The pointer that \<open>hal_map_mmio\<close> returns for registers above the identity map reaches exactly the
  physical bytes that were asked for, at any offset in the first page.\<close>

theorem hal_map_mmio_translates:
  assumes ok: "mm_ok (cur_pml4 s) s" "arena_ok s" and phys: "HAL_IDENTITY_LIMIT < phys + sz" "unat phys + unat sz + 0x2000 \<le> 2 ^ 52"
    and sz: "unat sz \<le> 2 ^ 40" and h: "hal_map_mmio phys sz s = Some (s', ptr)" "ptr \<noteq> 0" and k: "k < unat sz"
  shows "walk (pmem s') (cur_pml4 s') (ptr + of_nat k) = Some (phys + of_nat k)"
proof -
  define intra where "intra = phys AND 0xFFF"
  define span where "span = page_down (intra + sz + 0xFFF)"
  have sz0: "sz \<noteq> 0" using k by auto
  obtain s1 va where m: "mm_mmio_reserve span s = (s1, va)" by fastforce
  have i: "unat intra < 4096" by (simp add: intra_def unat_and_fff)
  have sum: "unat (intra + sz + 0xFFF) = unat intra + unat sz + 4095"
    using i sz by (simp add: unat_word_ariths)
  have sp: "unat span = (unat intra + unat sz + 4095) div 4096 * 4096" by (simp add: span_def unat_page_down sum)
  have sp2: "unat intra + unat sz \<le> unat span" "unat span \<le> unat intra + unat sz + 4095"
    unfolding sp using div_bounds [of "unat intra + unat sz + 4095"] by linarith+
  have sp44: "unat span \<le> 2 ^ 44" using sp2(2) i sz by simp
  note R = reserve_spec [OF ok(2) sp44 m]
  let ?fl = "PG_PRESENT OR PG_RW OR MM_FLAG_PCD OR MM_FLAG_PWT"
  have hh: "va \<noteq> 0" "ptr = va + intra" "mm_map_phys_range va (page_down phys) span ?fl s1 = Some (s', True)"
    using h phys(1) sz0 unfolding hal_map_mmio_def Let_def intra_def [symmetric] span_def [symmetric]
    by (auto simp: m split: if_splits bind_splits)
  have va: "va = s_mmio_next s" "unat va + unat span \<le> unat (s_mmio_next s1)" using mp [OF conjunct2 [OF conjunct2 [OF R]] hh(1)] by blast+
  have mm1: "mm_ok (cur_pml4 s1) s1" "cur_pml4 s1 = cur_pml4 s"
  proof -
    have i: "s_mmio_inited s" using ok(2) by (simp add: arena_ok_def)
    have "s1 = s\<lparr>s_mmio_next := s_mmio_next s1\<rparr>"
      using m i unfolding mm_mmio_reserve_def Let_def by (auto split: if_splits)
    then obtain n where n: "s1 = s\<lparr>s_mmio_next := n\<rparr>" by blast
    show "cur_pml4 s1 = cur_pml4 s" by (simp add: n cur_pml4_def mm_get_cr3_def)
    then show "mm_ok (cur_pml4 s1) s1" using ok(1) by (simp add: n mm_ok_def avail_def)
  qed
  have E: "unat (s_mmio_next s1) \<le> 0xFFFFE20000000000"
    using R by (simp add: arena_ok_def word_le_nat_alt arena_defs)
  have al: "unat va mod 4096 = 0" using ok(2) va(1) by (simp add: arena_ok_def aligned12_def)
  have sp0: "0 < unat span" using sp2(1) k by linarith
  have ro: "range_ok va span"
    using va(2) E sp0 sp44 unfolding range_ok_def by (auto simp: unat_gt_0)
  have fl: "?fl AND PT_MASK = 0" by (simp add: pg_defs MM_FLAG_PCD_def MM_FLAG_PWT_def)
  have pd: "unat (page_down phys) + unat intra = unat phys"
    by (simp add: unat_page_down intra_def unat_and_fff)
  have ki: "unat intra + k < unat span" using sp2(1) k by linarith
  have T: "walk (pmem s') (cur_pml4 s') (va + of_nat (unat intra + k)) = Some (page_down phys + of_nat (unat intra + k))"
    using map_range_translates_lib [OF mm1(1) ro fl _ _ hh(3) ki] al pd phys(2) sp2(2) i by (simp add: unat_page_down)
  have "page_down phys + intra = phys"
    using pd phys(2) by (intro word_unat_eq_iff [THEN iffD2] trans [OF unat_add64]) simp_all
  then have "page_down phys + of_nat (unat intra + k) = phys + of_nat k" by (simp add: add.assoc [symmetric])
  moreover have "va + of_nat (unat intra + k) = ptr + of_nat k" by (simp add: hh(2) add.assoc)
  ultimately show ?thesis using T by (simp only:)
qed

lemma boot_hal: "\<exists>s' ptr. hal_map_mmio 0xFEE00020 0x100 (boot_mm 0x4020000) = Some (s', ptr) \<and> ptr = 0xFFFFE10000000020"
proof -
  let ?s = "(boot_mm 0x4020000)\<lparr>s_mmio_next := 0xFFFFE10000001000\<rparr>"
  have c: "cur_pml4 ?s = 0x1000" using boot_pml4 by (simp add: cur_pml4_def mm_get_cr3_def)
  have o: "mm_ok 0x1000 ?s" "nz 0x1000 ?s" "\<not> huge 0x1000 ?s v" "avail ?s = avail (boot_mm 0x4020000)" for v
    using boot_ok boot_not_huge by (simp_all add: mm_ok_def avail_def nz_def huge_def)
  have "\<exists>s'. mm_map_phys_range 0xFFFFE10000000000 0xFEE00000 0x1000
      (PG_PRESENT OR PG_RW OR MM_FLAG_PCD OR MM_FLAG_PWT) ?s = Some (s', True)"
    by (rule map_range_succeeds_lib) (simp_all add: c o boot_frames FRAME_def MAX_PHYS_def range_ok_def pg_defs MM_FLAG_PCD_def MM_FLAG_PWT_def)
  moreover have "mm_mmio_reserve 0x1000 (boot_mm 0x4020000) = (?s, 0xFFFFE10000000000)"
    by (simp add: mm_mmio_reserve_def boot_mm_def page_down_def arena_defs)
  ultimately show ?thesis
    by (auto simp: hal_map_mmio_def HAL_IDENTITY_LIMIT_def page_down_def)
qed

lemma hal_map_mmio_translates_witness:
  "\<exists>s' ptr. hal_map_mmio 0xFEE00020 0x100 (boot_mm 0x4020000) = Some (s', ptr) \<and>
    walk (pmem s') (cur_pml4 s') (ptr + of_nat 0x10) = Some (0xFEE00020 + of_nat 0x10)"
proof -
  obtain s' ptr where h: "hal_map_mmio 0xFEE00020 0x100 (boot_mm 0x4020000) = Some (s', ptr)" "ptr = 0xFFFFE10000000020"
    using boot_hal by blast
  have "walk (pmem s') (cur_pml4 s') (ptr + of_nat 0x10) = Some (0xFEE00020 + of_nat 0x10)"
    by (rule hal_map_mmio_translates [OF _ boot_arena _ _ _ h(1)]) (simp_all add: boot_simps HAL_IDENTITY_LIMIT_def h(2))
  with h(1) show ?thesis by blast
qed

section \<open>The page that answers a fault\<close>

text \<open>The frame \<open>f\<close> holds data: it is neither free nor a table.\<close>

definition data_ok :: "nat \<Rightarrow> nat \<Rightarrow> mm_state \<Rightarrow> bool" where
  "data_ok r f s \<longleftrightarrow> f mod 4096 = 0 \<and> f \<notin> avail s \<and> pmm_inv (mm_pmm s) \<and> tree_ok (insert f (avail s)) (pmem s) r"

definition same_page_data :: "nat \<Rightarrow> mm_state \<Rightarrow> mm_state \<Rightarrow> bool" where
  "same_page_data f s s' \<longleftrightarrow> (\<forall>i < 4096. pmem s' (f + i) = pmem s (f + i))"

lemma same_page_data_trans: "same_page_data f s s' \<Longrightarrow> same_page_data f s' s'' \<Longrightarrow> same_page_data f s s''"
  by (simp add: same_page_data_def)

lemma wr_other_page:
  assumes "t mod 4096 = 0" "f mod 4096 = 0" "t \<noteq> f" "j < 512" "i < 4096"
  shows "wr_le (t + 8 * j) e 8 m (f + i) = m (f + i)"
proof -
  obtain a b where ab: "t = 4096 * a" "f = 4096 * b" using assms(1,2) by (auto simp: mod_eq_0_iff_dvd dvd_def)
  have "a \<noteq> b" using assms(3) ab by simp
  then have "f + i < t + 8 * j \<or> t + 8 * j + 8 \<le> f + i" using assms(4,5) unfolding ab by linarith
  then show ?thesis by (rule wr_le_other)
qed

lemma zero_other_page:
  assumes "t mod 4096 = 0" "f mod 4096 = 0" "t \<noteq> f" "i < 4096"
  shows "put_zero 4096 t m (f + i) = m (f + i)"
  using frames_apart [OF assms(1,2) assms(3) [symmetric] assms(4)] by (auto simp: put_zero_def)

lemma ensure_table_data:
  assumes d: "data_ok r f s" and p: "vpath 2 p" "node (pmem s) r p = Some t" "i < 512" and fl: "tab_flags fl"
    and e: "ensure_table t i fl s = (s', a)"
  shows "data_ok r f s' \<and> same_page_data f s s'"
proof (cases "s' = s")
  case True
  then show ?thesis using d by (simp add: same_page_data_def)
next
  case False
  have inv: "pmm_inv (mm_pmm s)" and tree: "tree_ok (insert f (avail s)) (pmem s) r" and f: "f mod 4096 = 0" "f \<notin> avail s"
    using d by (simp_all add: data_ok_def)
  have absent: "\<not> has PG_PRESENT (ent (pmem s) t i)" using e False by (auto simp: ensure_table_def)
  obtain s1 g where af: "alloc_frame s = (s1, g)" by fastforce
  note al = alloc_frame_cases [OF inv af]
  have g0: "g \<noteq> 0"
  proof
    assume "g = 0"
    then show False using e absent af False al(4) by (simp add: ensure_table_def)
  qed
  note g = al(5) [OF g0]
  have s': "s' = set_ent t i (of_nat g OR fl) (zero_frame g s1)"
    using e absent af g0 by (auto simp: ensure_table_def Let_def)
  have tabe: "is_tab (of_nat g OR fl)" "pt_addr (of_nat g OR fl) = g"
    using frame_entry_tab [of g fl] frame_entry [of g fl] g fl by (auto simp: tab_flags_def)
  have mem: "pmem s' = wr_le (t + 8 * i) (of_nat g OR fl) 8 (put_zero 4096 g (pmem s))"
    unfolding s' by (simp add: al(3))
  have gi: "g \<in> insert f (avail s)" using g by simp
  note new = tree_new_table [OF tree gi p absent tabe mem]
  have gf: "g \<noteq> f" using g f(2) by auto
  have "insert f (avail s) - {g} = insert f (avail s')" using g gf unfolding s' by auto
  then have "data_ok r f s'" using new(1) al(1) f g unfolding data_ok_def s' by simp
  moreover have "same_page_data f s s'"
  proof -
    have t: "t mod 4096 = 0" using node_aligned [OF p(2)] tree_okD(1) [OF tree] .
    have "t \<noteq> f" using tree_okD(4) [OF tree vpath_mono [OF p(1)] p(2)] by auto
    then show ?thesis unfolding same_page_data_def mem
      using wr_other_page [OF t f(1) _ p(3)] zero_other_page [OF _ f(1) gf] g by simp
  qed
  ultimately show ?thesis by simp
qed

lemma map_page_data:
  assumes ok: "mm_ok r s" and d: "data_ok r f s" and tf: "tab_flags tf" and mp: "map_page r pf tf v p s = (s', b)"
  shows "data_ok r f s' \<and> same_page_data f s s'"
proof -
  obtain s1 t3 where e3: "ensure_table r (ix 39 v) tf s = (s1, t3)" by fastforce
  obtain s2 t2 where e2: "ensure_table t3 (ix 30 v) tf s1 = (s2, t2)" by fastforce
  obtain s3 t1 where e1: "ensure_table t2 (ix 21 v) tf s2 = (s3, t1)" by fastforce
  have len: "length ([] :: nat list) = 2 \<longrightarrow> \<not> has 0x80 x" "length [ix 39 v] = 2 \<longrightarrow> \<not> has 0x80 x" for x
    by simp_all
  have r: "vpath 2 []" "node (pmem s) r [] = Some r" by (simp_all add: vpath_def)
  note A = ensure_table_spec [OF ok r ix_less tf len(1) e3, unfolded append_Nil]
  have D1: "data_ok r f s1 \<and> same_page_data f s s1" by (rule ensure_table_data [OF d r ix_less tf e3])
  show ?thesis
  proof (cases "t3 = 0")
    case True
    then have "s' = s1" using mp e3 by (auto simp: map_page_def)
    then show ?thesis using D1 by simp
  next
    case n3: False
    note B = ensure_table_spec [OF A(1) vpath_of(1) A(3) [OF n3] ix_less tf len(2) e2, folded path_snoc(1)]
    have "data_ok r f s2 \<and> same_page_data f s1 s2"
      by (rule ensure_table_data [OF conjunct1 [OF D1] vpath_of(1) A(3) [OF n3] ix_less tf e2])
    then have D2: "data_ok r f s2 \<and> same_page_data f s s2" using D1 same_page_data_trans by blast
    show ?thesis
    proof (cases "t2 = 0 \<or> has 0x80 (ent (pmem s2) t2 (ix 21 v))")
      case True
      then have "s' = s2" using mp e3 e2 n3 by (auto simp: map_page_def split: if_splits)
      then show ?thesis using D2 by simp
    next
      case False
      then have n2: "t2 \<noteq> 0" and nh: "\<not> has 0x80 (ent (pmem s2) t2 (ix 21 v))" by simp_all
      have h: "length (pd_path v) = 2 \<longrightarrow> \<not> has 0x80 (ent (pmem s2) t2 (ix 21 v))" using nh by simp
      note C = ensure_table_spec [OF B(1) vpath_of(2) B(3) [OF n2] ix_less tf h e1, folded path_snoc(2)]
      have "data_ok r f s3 \<and> same_page_data f s2 s3"
        by (rule ensure_table_data [OF conjunct1 [OF D2] vpath_of(2) B(3) [OF n2] ix_less tf e1])
      then have D3: "data_ok r f s3 \<and> same_page_data f s s3" using D2 same_page_data_trans by blast
      show ?thesis
      proof (cases "t1 = 0")
        case True
        then have "s' = s3" using mp e3 e2 e1 n3 n2 nh by (auto simp: map_page_def)
        then show ?thesis using D3 by simp
      next
        case n1: False
        have s': "s' = set_ent t1 (ix 12 v) ((p AND PT_MASK) OR pf) s3"
          using mp e3 e2 e1 n3 n2 n1 nh by (auto simp: map_page_def)
        have tree: "tree_ok (insert f (avail s3)) (pmem s3) r" and f: "f mod 4096 = 0" using D3 by (simp_all add: data_ok_def)
        have mem: "pmem s' = wr_le (t1 + 8 * ix 12 v) ((p AND PT_MASK) OR pf) 8 (pmem s3)" unfolding s' by simp
        have t: "t1 mod 4096 = 0" "t1 \<noteq> f"
          using node_aligned [OF C(3) [OF n1] tree_okD(1) [OF tree]] tree_okD(4) [OF tree vpath_of(3) C(3) [OF n1]] by auto
        have "data_ok r f s'"
          using walk_set_leaf(1) [OF tree C(3) [OF n1] mem] D3 unfolding data_ok_def s' by simp
        moreover have "same_page_data f s3 s'"
          unfolding same_page_data_def mem using wr_other_page [OF t(1) f t(2) ix_less] by simp
        ultimately show ?thesis using D3 same_page_data_trans by blast
      qed
    qed
  qed
qed

lemma tree_ok_subset: "tree_ok A m r \<Longrightarrow> B \<subseteq> A \<Longrightarrow> tree_ok B m r"
  unfolding tree_ok_def by blast

lemma page_down_same: "page_path (page_down v) = page_path v"
proof -
  have "unat (page_down v) div 4096 = unat v div 4096" by (simp add: unat_page_down)
  then show ?thesis by (simp add: page_path_vpn vpn_def)
qed

lemma zero_page_new:
  assumes "va \<noteq> 0" "walk (pmem s) (cur_pml4 s) va = None" "mm_ok (cur_pml4 s) s" "\<not> huge (cur_pml4 s) s va"
  shows "mm_map_zero_page va s = map_new_frame (page_down va) s"
proof -
  have tree: "tree_ok (avail s) (pmem s) (cur_pml4 s)" using assms(3) by (simp add: mm_ok_def)
  note I = page_path_ix [OF page_down_same, of va]
  define e4 where "e4 = ent (pmem s) (cur_pml4 s) (ix 39 va)"
  define e3 where "e3 = ent (pmem s) (pt_addr e4) (ix 30 va)"
  define e2 where "e2 = ent (pmem s) (pt_addr e3) (ix 21 va)"
  note es = e4_def [symmetric] e3_def [symmetric] e2_def [symmetric]
  have p4: "pent (pmem s) (cur_pml4 s) [ix 39 va] = e4" by (simp add: pent_def e4_def)
  have t4: "is_tab e4 \<longleftrightarrow> has PG_PRESENT e4"
    using tree_okD(5) [OF tree, of "[ix 39 va]"] by (auto simp: p4 is_tab_def)
  have p3: "pent (pmem s) (cur_pml4 s) (pd_path va) = (if is_tab e4 then e3 else 0)" by (simp add: pent_def pd_path_def es)
  have t3: "is_tab e3 \<longleftrightarrow> has PG_PRESENT e3" if "is_tab e4"
    using tree_okD(5) [OF tree, of "pd_path va"] that by (auto simp: p3 is_tab_def)
  have "\<not> has 0x80 e2" if "is_tab e4" "is_tab e3"
    using assms(4) that by (simp add: huge_def pent_def pt_path_def es)
  then show ?thesis
    using assms(1,2) t4 t3 unfolding mm_map_zero_page_def walk_def Let_def I es
    by (auto simp: is_tab_def split: if_splits)
qed

text \<open>C8: A page fault on an unmapped address that \<open>mm_map_zero_page\<close> answers leaves the address mapped
  to a frame that was free, at the same offset, and the frame holds zeros.\<close>

theorem fault_page_is_zeroed:
  assumes ok: "mm_ok (cur_pml4 s) s" and va: "va \<noteq> 0" "unat va < 2 ^ 64 - 0x2000"
    and un: "walk (pmem s) (cur_pml4 s) va = None" "\<not> huge (cur_pml4 s) s va"
    and z: "mm_map_zero_page va s = Some (s', True)"
  shows "\<exists>f \<in> avail s. walk (pmem s') (cur_pml4 s') va = Some (of_nat f + (va AND 0xFFF)) \<and> (\<forall>i < 4096. pmem s' (f + i) = 0)"
proof -
  let ?r = "cur_pml4 s" and ?a = "page_down va" and ?tf = "PG_PRESENT OR PG_RW OR PG_USER"
  have inv: "pmm_inv (mm_pmm s)" and tree: "tree_ok (avail s) (pmem s) ?r" using ok by (simp_all add: mm_ok_def)
  obtain s1 f where af: "alloc_frame s = (s1, f)" by fastforce
  note al = alloc_frame_cases [OF inv af]
  define s2 where "s2 = zero_frame f s1"
  have zn: "map_new_frame ?a s = Some (s', True)" using z zero_page_new [OF va(1) un(1) ok un(2)] by simp
  have f0: "f \<noteq> 0"
  proof
    assume "f = 0"
    then show False using zn af by (simp add: map_new_frame_def)
  qed
  note f = al(5) [OF f0]
  have uf: "unat (of_nat f :: u64) = f" using f by (intro unat_of_nat_small) simp
  have m: "mm_map_phys_range ?a (of_nat f) 0x1000 ?tf s2 = Some (s', True)"
    using zn af f0 by (simp add: map_new_frame_def s2_def)
  have c2: "cur_pml4 s2 = ?r" unfolding s2_def
    using same_regs_fields(2) [OF same_regs_trans [OF al(2) same_regs_set_ent(2)]] .
  have av2: "insert f (avail s2) = avail s" using f by (auto simp: s2_def)
  have m2: "pmem s2 = put_zero 4096 f (pmem s)" by (simp add: s2_def al(3))
  have t2: "tree_ok (avail s) (pmem s2) ?r" unfolding m2 by (rule tree_ok_zero [OF tree conjunct1 [OF f]])
  have ok2: "mm_ok ?r s2" unfolding mm_ok_def using tree_ok_subset [OF t2] av2 al(1) by (auto simp: s2_def)
  have d2: "data_ok ?r f s2" unfolding data_ok_def av2 using t2 f al(1) by (simp add: s2_def)
  have ua: "unat ?a + 4096 < 2 ^ 64" using va(2) div_bounds [of "unat va"] by (simp add: unat_page_down)
  have ue: "unat (?a + 0x1000) = unat ?a + 4096" "unat (?a + 0x1000 + 0xFFF) = unat ?a + 8191"
    using va(2) div_bounds [of "unat va"] by (simp_all add: unat_word_ariths unat_page_down)
  have pe: "page_down (?a + 0x1000 + 0xFFF) = ?a + 0x1000"
  proof (rule word_unat_eq_iff [THEN iffD2])
    define q where "q = unat va div 4096"
    have a: "unat ?a = q * 4096" by (simp only: unat_page_down q_def)
    have "unat (page_down (?a + 0x1000 + 0xFFF)) = (q * 4096 + 8191) div 4096 * 4096"
      by (simp only: unat_page_down [of "?a + 0x1000 + 0xFFF"] ue(2) a)
    also have "\<dots> = q * 4096 + 4096" by simp
    also have "\<dots> = unat (?a + 0x1000)" by (simp only: ue(1) a)
    finally show "unat (page_down (?a + 0x1000 + 0xFFF)) = unat (?a + 0x1000)" .
  qed
  have pf: "page_down (of_nat f) = of_nat f"
  proof (rule word_unat_eq_iff [THEN iffD2])
    have "f div 4096 * 4096 = f" using f div_mult_mod_eq [of f 4096] by linarith
    then show "unat (page_down (of_nat f)) = unat (of_nat f :: u64)" unfolding unat_page_down uf .
  qed
  have lt: "?a < ?a + 0x1000" by (simp add: word_less_nat_alt ue(1))
  let ?pf = "?tf OR PG_PRESENT OR PG_RW OR PG_USER"
  obtain s3 b where mp: "map_page ?r ?pf ?tf ?a (of_nat f) s2 = (s3, b)" by fastforce
  have loop: "map_range_loop (?a + 0x1000) ?r ?pf ?tf ?a (of_nat f) s2 = Some (s', True)"
  proof -
    have pp: "page_down ?a = ?a" by (simp add: word_unat_eq_iff unat_page_down)
    show ?thesis using m unfolding mm_map_phys_range_def pe pf c2 pp by simp
  qed
  have "b \<and> s' = s3"
    using loop unfolding map_range_loop.simps [of "?a + 0x1000" ?r ?pf ?tf ?a] map_range_loop.simps [of "?a + 0x1000" ?r ?pf ?tf "?a + 0x1000"]
    using lt mp by (auto split: if_splits)
  then have b: b and s3: "s' = s3" by simp_all
  have "?tf AND PT_MASK = 0" by (simp add: pg_defs)
  note M = map_page_spec [OF ok2 tbl_flags_ok pte_flags_ok [OF this] mp]
  have D: "same_page_data f s2 s3" using map_page_data [OF ok2 d2 tbl_flags_ok mp] by simp
  have w: "walk (pmem s3) ?r va = Some ((of_nat f AND PT_MASK) OR (va AND 0xFFF))"
    by (rule M(4) [OF b page_down_same [symmetric]])
  have "of_nat f AND PT_MASK = (of_nat f :: u64)" using f by (intro pt_mask_id) (simp_all add: uf)
  moreover have "(of_nat f :: u64) OR (va AND 0xFFF) = of_nat f + (va AND 0xFFF)"
    using f by (intro page_or_offset) (simp add: aligned12_def uf)
  moreover have "pmem s3 (f + i) = 0" if "i < 4096" for i
    using D that unfolding same_page_data_def m2 by (simp add: put_zero_def)
  moreover have "cur_pml4 s' = ?r" unfolding s3 using same_regs_fields(2) [OF M(2)] c2 by simp
  ultimately show ?thesis using w f by (intro bexI [of _ f]) (simp_all add: s3)
qed

lemma boot_fault: "\<exists>s'. mm_map_zero_page 0x12345678 (boot_mm 0x4020000) = Some (s', True)"
proof -
  let ?b = "boot_mm 0x4020000"
  have mem: "pmem ?b = (\<lambda>_. 0)" by (simp add: boot_mm_def)
  have w: "walk (pmem ?b) (cur_pml4 ?b) 0x12345678 = None"
    by (simp add: walk_def mem ent_def rd64_def rd32_def)
  have z: "mm_map_zero_page 0x12345678 ?b = map_new_frame (page_down 0x12345678) ?b"
    by (rule zero_page_new [OF _ w _ boot_not_huge]) (simp_all add: boot_simps)
  obtain s1 f where af: "alloc_frame ?b = (s1, f)" by fastforce
  have inv: "pmm_inv (mm_pmm ?b)" using boot_ok(1) by (simp add: mm_ok_def)
  note al = alloc_frame_cases [OF inv af]
  have cd: "card (avail ?b) = 32" by (simp add: boot_simps)
  have f0: "f \<noteq> 0"
  proof
    assume "f = 0"
    then have "avail ?b = {}" using al(4) by simp
    then show False using cd by simp
  qed
  note f = al(5) [OF f0]
  define s2 where "s2 = zero_frame f s1"
  have "same_regs ?b s2" unfolding s2_def by (rule same_regs_trans [OF al(2) same_regs_set_ent(2)])
  then have c2: "cur_pml4 s2 = 0x1000" using same_regs_fields(2) [of ?b s2] by simp
  have m2: "pmem s2 = (\<lambda>_. 0)" by (rule ext) (simp add: s2_def al(3) mem put_zero_def)
  have a2: "avail s2 = avail ?b - {f}" using f by (simp add: s2_def)
  have tree: "tree_ok (avail ?b) (pmem ?b) 0x1000" using boot_ok(1) by (simp add: mm_ok_def)
  have "tree_ok (avail s2) (pmem s2) 0x1000" unfolding m2 a2 using tree_ok_subset [OF tree [unfolded mem]] by simp
  then have ok2: "mm_ok 0x1000 s2" using al(1) by (simp add: mm_ok_def s2_def)
  have n2: "nz 0x1000 s2" "\<not> huge 0x1000 s2 v" for v by (simp_all add: nz_def huge_def m2 node_empty pent_empty)
  have "card (avail s2) = 31" unfolding a2 using f cd by simp
  then have "\<exists>s'. mm_map_phys_range (page_down 0x12345678) (of_nat f) 0x1000 (PG_PRESENT OR PG_RW OR PG_USER) s2 = Some (s', True)"
    by (intro map_range_succeeds_lib) (simp_all add: c2 ok2 n2 range_ok_def page_down_def pg_defs)
  then show ?thesis using af f0 by (auto simp: z map_new_frame_def s2_def)
qed

lemma fault_page_is_zeroed_witness:
  "\<exists>s'. mm_map_zero_page 0x12345678 (boot_mm 0x4020000) = Some (s', True) \<and>
    (\<exists>f \<in> avail (boot_mm 0x4020000). walk (pmem s') (cur_pml4 s') 0x12345678 = Some (of_nat f + (0x12345678 AND 0xFFF)) \<and>
      (\<forall>i < 4096. pmem s' (f + i) = 0))"
proof -
  obtain s' where z: "mm_map_zero_page 0x12345678 (boot_mm 0x4020000) = Some (s', True)" using boot_fault by blast
  have mem: "pmem (boot_mm 0x4020000) = (\<lambda>_. 0)" by (simp add: boot_mm_def)
  have w: "walk (pmem (boot_mm 0x4020000)) (cur_pml4 (boot_mm 0x4020000)) 0x12345678 = None"
    by (simp add: walk_def mem ent_def rd64_def rd32_def)
  have "\<exists>f \<in> avail (boot_mm 0x4020000). walk (pmem s') (cur_pml4 s') 0x12345678 = Some (of_nat f + (0x12345678 AND 0xFFF)) \<and>
      (\<forall>i < 4096. pmem s' (f + i) = 0)"
    by (rule fault_page_is_zeroed [OF _ _ _ w boot_not_huge z]) (simp_all add: boot_simps)
  with z show ?thesis by blast
qed

text \<open>When the mapping of the new page fails, \<open>mm_map_zero_page\<close> does not give its frame back: with one
  frame left and no tables for the address, the call fails and the frame is lost.\<close>

theorem fault_page_leaks_frame:
  assumes ok: "mm_ok (cur_pml4 s) s" and va: "va \<noteq> 0" "unat va < 2 ^ 64 - 0x2000"
    and absent: "\<not> has PG_PRESENT (ent (pmem s) (cur_pml4 s) (ix 39 va))" and last: "avail s = {f}"
  shows "\<exists>s'. mm_map_zero_page va s = Some (s', False) \<and> avail s' = {}"
proof -
  let ?r = "cur_pml4 s" and ?a = "page_down va" and ?tf = "PG_PRESENT OR PG_RW OR PG_USER"
  have inv: "pmm_inv (mm_pmm s)" and tree: "tree_ok (avail s) (pmem s) ?r" using ok by (simp_all add: mm_ok_def)
  note I = page_path_ix [OF page_down_same, of va]
  have zn: "mm_map_zero_page va s = map_new_frame ?a s"
    using va(1) absent unfolding mm_map_zero_page_def Let_def I by simp
  obtain s1 g where af: "alloc_frame s = (s1, g)" by fastforce
  note al = alloc_frame_cases [OF inv af]
  have g0: "g \<noteq> 0" using al(4) last by auto
  then have g: "g = f" "avail s1 = {}" "g mod 4096 = 0" using al(5) last by auto
  define s2 where "s2 = zero_frame g s1"
  have a2: "avail s2 = {}" using g by (simp add: s2_def)
  have i2: "pmm_inv (mm_pmm s2)" using al(1) by (simp add: s2_def)
  have c2: "cur_pml4 s2 = ?r" unfolding s2_def
    using same_regs_fields(2) [OF same_regs_trans [OF al(2) same_regs_set_ent(2)]] .
  have "?r \<noteq> g"
  proof -
    have "vpath 3 []" "node (pmem s) ?r [] = Some ?r" by simp_all
    from tree_okD(4) [OF tree this] show ?thesis using last g(1) by auto
  qed
  then have e2: "ent (pmem s2) ?r (ix 39 va) = ent (pmem s) ?r (ix 39 va)"
    using ent_zero [OF g(3) tree_okD(1) [OF tree] ix_less] by (simp add: s2_def al(3))
  obtain s3 h where ah: "alloc_frame s2 = (s3, h)" by fastforce
  note bl = alloc_frame_cases [OF i2 ah]
  have h0: "h = 0" using bl(5) a2 by auto
  have "ensure_table ?r (ix 39 ?a) ?tf s2 = (s2, 0)"
    using absent e2 ah h0 bl(4) by (simp add: ensure_table_def I)
  then have mp: "map_page ?r pf ?tf ?a p s2 = (s2, False)" for pf p by (simp add: map_page_def)
  have ue: "unat (?a + 0x1000 + 0xFFF) = unat ?a + 8191"
    using va(2) div_bounds [of "unat va"] by (simp add: unat_word_ariths unat_page_down)
  have "?a < page_down (?a + 0x1000 + 0xFFF)"
    unfolding word_less_nat_alt unat_page_down [of "?a + 0x1000 + 0xFFF"] ue by (simp add: unat_page_down)
  moreover have "page_down ?a = ?a" by (simp add: word_unat_eq_iff unat_page_down)
  ultimately have "mm_map_phys_range ?a (of_nat g) 0x1000 ?tf s2 = Some (s2, False)"
    unfolding mm_map_phys_range_def c2 by (subst map_range_loop.simps) (simp add: mp)
  then have "map_new_frame ?a s = Some (s2, False)" using af g0 by (simp add: map_new_frame_def s2_def)
  then show ?thesis using zn a2 by simp
qed

lemma fault_page_leaks_frame_witness:
  "\<exists>s'. mm_map_zero_page 0x12345678 (boot_mm 0x4001000) = Some (s', False) \<and> avail s' = {}"
proof -
  have "card (avail (boot_mm 0x4001000)) = 1" by (simp add: boot_simps)
  then obtain f where f: "avail (boot_mm 0x4001000) = {f}" by (auto simp: card_1_singleton_iff)
  have mem: "pmem (boot_mm 0x4001000) = (\<lambda>_. 0)" by (simp add: boot_mm_def)
  show ?thesis
    by (rule fault_page_leaks_frame [OF _ _ _ _ f]) (simp_all add: boot_simps mem ent_def rd64_def rd32_def)
qed

section \<open>Sequences of operations\<close>

datatype mm_op = MapRange u64 u64 u64 u64 | UnmapRange u64 u64 | NewAddressSpace | ReserveMmio u64

fun mm_op_ok :: "mm_op \<Rightarrow> bool" where
  "mm_op_ok (MapRange virt phys sz flags) \<longleftrightarrow> range_ok virt sz \<and> flags AND PT_MASK = 0"
| "mm_op_ok (UnmapRange virt sz) \<longleftrightarrow> range_ok virt sz"
| "mm_op_ok _ \<longleftrightarrow> True"

fun mm_exec :: "mm_op \<Rightarrow> mm_state \<Rightarrow> mm_state option" where
  "mm_exec (MapRange virt phys sz flags) s = map_option fst (mm_map_phys_range virt phys sz flags s)"
| "mm_exec (UnmapRange virt sz) s = map_option fst (mm_unmap_range virt sz s)"
| "mm_exec NewAddressSpace s = Some (fst (mm_create_address_space s))"
| "mm_exec (ReserveMmio sz) s = Some (fst (mm_mmio_reserve sz s))"

fun mm_run :: "mm_op list \<Rightarrow> mm_state \<Rightarrow> mm_state option" where
  "mm_run [] s = Some s"
| "mm_run (x # xs) s = do { s1 \<leftarrow> mm_exec x s; mm_run xs s1 }"

lemma create_ok:
  assumes ok: "mm_ok (cur_pml4 s) s" and c: "mm_create_address_space s = (s', a)" "a \<noteq> 0"
  shows "mm_ok (cur_pml4 s') s' \<and> same_regs s s'"
proof -
  have tree: "tree_ok (avail s) (pmem s) (cur_pml4 s)" using ok by (simp add: mm_ok_def)
  from create_success [OF ok c] obtain pd pdpt where F: "{pd, pdpt, a} \<subseteq> avail s" "same_regs s s'"
      "avail s' = avail s - {pd, pdpt, a}" "pmm_inv (mm_pmm s')"
    and cl: "cloned (pmem s) (pmem s') (cur_pml4 s) a pdpt pd" by blast
  have same: "ent (pmem s') u j = ent (pmem s) u j" if "u mod 4096 = 0" "u \<notin> avail s" "j < 512" for u j
    using clonedD(3) [OF cl that(1,3)] F(1) that(2) by auto
  have "tree_ok (avail s) (pmem s') (cur_pml4 s)" by (rule walk_agree(3) [OF tree same])
  then have "tree_ok (avail s') (pmem s') (cur_pml4 s)" by (rule tree_ok_subset) (auto simp: F(3))
  then show ?thesis using F(2,4) same_regs_fields(2) [OF F(2)] by (simp add: mm_ok_def)
qed

lemma remap_ok: "remap r V g s s' b \<Longrightarrow> mm_ok r s' \<and> same_regs s s'"
  by (simp add: remap_def)

lemma mm_exec_ok:
  assumes ok: "mm_ok (cur_pml4 s) s" "s_mmio_inited s" and x: "mm_op_ok x"
  shows "\<exists>s'. mm_exec x s = Some s' \<and> mm_ok (cur_pml4 s') s' \<and> s_mmio_inited s'"
proof -
  have i: "s_mmio_inited t" if "same_regs s t" for t
    using that ok(2) by (cases s; cases t) (simp add: same_regs_def)
  have c: "cur_pml4 t = cur_pml4 s" if "same_regs s t" for t using same_regs_fields(2) [OF that] .
  show ?thesis
  proof (cases x)
    case (MapRange virt phys sz flags)
    then have "range_ok virt sz" "flags AND PT_MASK = 0" using x by simp_all
    from map_range_remap [OF this(1) ok(1) this(2), of phys] obtain s' b
      where m: "mm_map_phys_range virt phys sz flags s = Some (s', b)" and R: "remap (cur_pml4 s) (range_va virt sz) (lin virt phys) s s' b"
      by (elim exE conjE)
    show ?thesis using m remap_ok [OF R] i [of s'] c [of s'] by (simp add: MapRange)
  next
    case (UnmapRange virt sz)
    then have "range_ok virt sz" using x by simp
    from unmap_range_remap [OF this ok(1)] obtain s' b
      where m: "mm_unmap_range virt sz s = Some (s', b)" and R: "remap (cur_pml4 s) (range_va virt sz) (\<lambda>_. None) s s' b"
      by (elim exE conjE)
    show ?thesis using m remap_ok [OF R] i [of s'] c [of s'] by (simp add: UnmapRange)
  next
    case NewAddressSpace
    obtain s' a where cr: "mm_create_address_space s = (s', a)" by fastforce
    show ?thesis
    proof (cases "a = 0")
      case True
      have cr0: "mm_create_address_space s = (s', 0)" using cr True by simp
      show ?thesis using address_space_failure_frees_lib [OF ok(1) cr0] i cr by (simp add: NewAddressSpace)
    next
      case False
      then show ?thesis using create_ok [OF ok(1) cr] i cr by (simp add: NewAddressSpace)
    qed
  next
    case (ReserveMmio sz)
    obtain s' va where m: "mm_mmio_reserve sz s = (s', va)" by fastforce
    have "\<exists>n. s' = s\<lparr>s_mmio_next := n\<rparr>"
    proof (cases "s' = s")
      case True
      then show ?thesis by (intro exI [of _ "s_mmio_next s"]) simp
    next
      case False
      then have "s' = s\<lparr>s_mmio_next := s_mmio_next s + page_down (sz + 0xFFF)\<rparr>"
        using m ok(2) unfolding mm_mmio_reserve_def Let_def by (auto split: if_splits)
      then show ?thesis by blast
    qed
    then obtain n where n: "s' = s\<lparr>s_mmio_next := n\<rparr>" by blast
    have "cur_pml4 s' = cur_pml4 s" by (simp add: n cur_pml4_def mm_get_cr3_def)
    moreover have "mm_ok r s' = mm_ok r s" for r by (simp add: n mm_ok_def avail_def)
    ultimately show ?thesis using m ok by (simp add: ReserveMmio) (simp add: n)
  qed
qed

text \<open>C5: Whatever the sequence of mappings, unmappings, new address spaces and reservations, the memory
  stays a well-typed tree of page tables: no table is shared between two paths, none is a free
  frame, and the upper levels hold pointers to tables only.\<close>

theorem page_tables_stay_well_typed:
  assumes "mm_ok (cur_pml4 s) s" "s_mmio_inited s" "\<forall>x \<in> set xs. mm_op_ok x"
  shows "\<exists>s'. mm_run xs s = Some s' \<and> pmm_inv (mm_pmm s') \<and> tree_ok (avail s') (pmem s') (cur_pml4 s')"
  using assms
proof (induction xs arbitrary: s)
  case Nil
  then show ?case by (simp add: mm_ok_def)
next
  case (Cons x xs)
  obtain s1 where "mm_exec x s = Some s1" "mm_ok (cur_pml4 s1) s1" "s_mmio_inited s1"
    using mm_exec_ok [OF Cons.prems(1,2), of x] Cons.prems(3) by auto
  then show ?case using Cons.IH [of s1] Cons.prems(3) by simp
qed

lemma page_tables_stay_well_typed_witness:
  "\<exists>s'. mm_run [ReserveMmio 0x2000, MapRange 0xFFFFE10000000000 0xFEE00000 0x2000 0, NewAddressSpace,
      UnmapRange 0xFFFFE10000000000 0x2000] (boot_mm 0x4020000) = Some s' \<and>
    pmm_inv (mm_pmm s') \<and> tree_ok (avail s') (pmem s') (cur_pml4 s')"
  by (rule page_tables_stay_well_typed) (simp_all add: boot_simps, simp add: boot_mm_def)

end
