(* ===== verification/Registry.thy ===== *)
theory Registry
  imports Ob Bytes "HOL-Library.Monad_Syntax"
begin

text \<open>
  The registry, \<open>src/ntos/cm/registry.c\<close>: a tree of keys and values in the kernel heap.  A key or
  a value is known by the address of its heap block; \<open>KEY s k\<close> and \<open>VAL s v\<close> are the structures at
  these addresses, with the pointers of the source (\<open>children\<close>/\<open>sibling\<close> and \<open>values\<close>/\<open>next\<close> chains), and
  \<open>rmem\<close> holds the bytes of the data of the values.  The result \<open>None\<close> is a null pointer that is
  dereferenced, a block that is freed twice or a loop that does not end.  The registry callbacks of
  the drivers are a parameter \<open>fire\<close> of the system calls, the effect of
  \<open>callbacks_fire_registry_op\<close>.  A key has no object header; \<open>HEADER\<close> at its address stands for the bytes in
  front of the key, read and counted up as the object manager does, and kept apart from the blocks of the
  heap that they lie in.
\<close>

definition MAX_NAME :: nat where "MAX_NAME = 64"

record REG_VALUE =
  vname :: string
  vtype :: u32
  vsize :: u32
  vdata :: nat
  vnext :: nat

record REG_KEY =
  kname :: string
  parent :: nat
  children :: nat
  sibling :: nat
  vals :: nat

record reg_state =
  r_ob :: ob_state
  s_root :: nat
  KEY :: "nat \<Rightarrow> REG_KEY"
  VAL :: "nat \<Rightarrow> REG_VALUE"
  rmem :: buf

definition sizeof_REG_KEY :: u64 where "sizeof_REG_KEY = 96"
definition sizeof_REG_VALUE :: u64 where "sizeof_REG_VALUE = 88"

definition r_heap :: "reg_state \<Rightarrow> heap" where "r_heap s = ob_heap (r_ob s)"
definition set_heap :: "heap \<Rightarrow> reg_state \<Rightarrow> reg_state" where
  "set_heap h s = s\<lparr>r_ob := (r_ob s)\<lparr>ob_heap := h\<rparr>\<rparr>"

text \<open>\<open>kmalloc\<close> and \<open>kfree\<close> on the state.\<close>

definition r_alloc :: "u64 \<Rightarrow> reg_state \<Rightarrow> reg_state \<times> nat" where
  "r_alloc n s = (case kmalloc n (r_heap s) of (h, p) \<Rightarrow> (set_heap h s, p))"
definition r_free :: "nat \<Rightarrow> reg_state \<Rightarrow> reg_state option" where
  "r_free p s = map_option (\<lambda>h. set_heap h s) (kfree p (r_heap s))"

text \<open>True when the names differ.\<close>

fun strcmpci :: "string \<Rightarrow> string \<Rightarrow> bool" where
  "strcmpci (a # as) (b # bs) = (if lower a \<noteq> lower b then True else strcmpci as bs)"
| "strcmpci [] [] = False"
| "strcmpci _ _ = True"

definition strcpyn :: "string \<Rightarrow> nat \<Rightarrow> string" where "strcpyn src mx = copy_name (mx - 1) src"

section \<open>Keys\<close>

definition reg_alloc_key :: "string \<Rightarrow> nat \<Rightarrow> reg_state \<Rightarrow> reg_state \<times> nat" where
  "reg_alloc_key name par s =
     (case r_alloc sizeof_REG_KEY s of (s1, k) \<Rightarrow>
        if k = 0 then (s1, 0)
        else (s1\<lparr>KEY := (KEY s1)(k := \<lparr>kname = strcpyn name MAX_NAME, parent = par, children = 0,
                                    sibling = 0, vals = 0\<rparr>)\<rparr>, k))"

partial_function (option) find_child_loop :: "reg_state \<Rightarrow> string \<Rightarrow> nat \<Rightarrow> nat option" where
  "find_child_loop s name c =
     (if c \<noteq> 0 then if \<not> strcmpci (kname (KEY s c)) name then Some c
                    else find_child_loop s name (sibling (KEY s c))
      else Some 0)"

definition reg_find_child :: "nat \<Rightarrow> string \<Rightarrow> reg_state \<Rightarrow> nat option" where
  "reg_find_child k name s = (if k = 0 then None else find_child_loop s name (children (KEY s k)))"

definition reg_get_or_create_child :: "nat \<Rightarrow> string \<Rightarrow> reg_state \<Rightarrow> (reg_state \<times> nat) option" where
  "reg_get_or_create_child k name s =
     do { c \<leftarrow> reg_find_child k name s;
          if c \<noteq> 0 then Some (s, c)
          else case reg_alloc_key name k s of (s1, c) \<Rightarrow>
            if c = 0 then Some (s1, 0)
            else let s2 = s1\<lparr>KEY := (KEY s1)(c := (KEY s1 c)\<lparr>sibling := children (KEY s1 k)\<rparr>)\<rparr>;
                     s3 = s2\<lparr>KEY := (KEY s2)(k := (KEY s2 k)\<lparr>children := c\<rparr>)\<rparr>
                 in Some (s3, c) }"

definition is_sep :: "char \<Rightarrow> bool" where "is_sep c \<longleftrightarrow> c = CHR 0x5C \<or> c = CHR ''/''"

text \<open>The loop over the components of a path; a component is cut after 63 characters and what is left of
  it is the next component.\<close>

function resolve_loop :: "bool \<Rightarrow> nat \<Rightarrow> string \<Rightarrow> reg_state \<Rightarrow> (reg_state \<times> nat) option" where
  "resolve_loop create k [] s = Some (s, k)"
| "resolve_loop create k (c # p) s =
     (if is_sep c then resolve_loop create k p s
      else let name = take (MAX_NAME - 1) (takeWhile (\<lambda>c. \<not> is_sep c) (c # p)) in
        do { (s1, nxt) \<leftarrow> (if create then reg_get_or_create_child k name s
                           else map_option (\<lambda>c. (s, c)) (reg_find_child k name s));
             if nxt = 0 then Some (s1, 0)
             else resolve_loop create nxt (drop (length name) (c # p)) s1 })"
  by pat_completeness auto
termination
  by (relation "measure (\<lambda>(create, k, p, s). length p)") (auto simp: MAX_NAME_def)

definition reg_resolve_path :: "nat \<Rightarrow> string option \<Rightarrow> bool \<Rightarrow> reg_state \<Rightarrow> (reg_state \<times> nat) option" where
  "reg_resolve_path base0 path create s =
     (let base = (if base0 = 0 then s_root s else base0) in
      case path of
        None \<Rightarrow> Some (s, 0)
      | Some p \<Rightarrow> if base = 0 then Some (s, 0) else resolve_loop create base p s)"

section \<open>Values\<close>

partial_function (option) find_value_loop :: "reg_state \<Rightarrow> string \<Rightarrow> nat \<Rightarrow> nat option" where
  "find_value_loop s name v =
     (if v \<noteq> 0 then if \<not> strcmpci (vname (VAL s v)) name then Some v
                    else find_value_loop s name (vnext (VAL s v))
      else Some 0)"

definition reg_find_value :: "nat \<Rightarrow> string \<Rightarrow> reg_state \<Rightarrow> nat option" where
  "reg_find_value k name s = (if k = 0 then None else find_value_loop s name (vals (KEY s k)))"

text \<open>The end of \<open>reg_set_value\<close>: type, size and data of the value \<open>v\<close>.\<close>

definition fill_value :: "nat \<Rightarrow> u32 \<Rightarrow> buf option \<Rightarrow> u32 \<Rightarrow> reg_state \<Rightarrow> reg_state" where
  "fill_value v ty data sz s =
     (let s1 = s\<lparr>VAL := (VAL s)(v := (VAL s v)\<lparr>vtype := ty, vsize := sz\<rparr>)\<rparr> in
      case (if sz \<noteq> 0 then r_alloc (ucast sz) s1 else (s1, 0)) of (s2, d) \<Rightarrow>
      let s3 = s2\<lparr>VAL := (VAL s2)(v := (VAL s2 v)\<lparr>vdata := d\<rparr>)\<rparr> in
      case data of
        Some b \<Rightarrow> if d \<noteq> 0 then s3\<lparr>rmem := put_bytes (unat sz) d b (rmem s3)\<rparr> else s3
      | None \<Rightarrow> s3)"

definition reg_set_value ::
  "nat \<Rightarrow> string \<Rightarrow> u32 \<Rightarrow> buf option \<Rightarrow> u32 \<Rightarrow> reg_state \<Rightarrow> (reg_state \<times> nat) option" where
  "reg_set_value k name ty data sz s =
     do { v \<leftarrow> reg_find_value k name s;
          if v \<noteq> 0
          then do { s1 \<leftarrow> (if vdata (VAL s v) \<noteq> 0 then r_free (vdata (VAL s v)) s else Some s);
                    Some (fill_value v ty data sz s1, v) }
          else case r_alloc sizeof_REG_VALUE s of (s1, v) \<Rightarrow>
            if v = 0 then Some (s1, 0)
            else let s2 = s1\<lparr>VAL := (VAL s1)(v := (VAL s1 v)\<lparr>vname := strcpyn name MAX_NAME,
                                                           vnext := vals (KEY s1 k)\<rparr>)\<rparr>;
                     s3 = s2\<lparr>KEY := (KEY s2)(k := (KEY s2 k)\<lparr>vals := v\<rparr>)\<rparr>
                 in Some (fill_value v ty data sz s3, v) }"

definition REG_SZ :: u32 where "REG_SZ = 1"
definition REG_DWORD :: u32 where "REG_DWORD = 4"

text \<open>A string with its NUL and a 32-bit number, as the bytes of the argument \<open>data\<close>.\<close>

definition str_bytes :: "string \<Rightarrow> buf" where
  "str_bytes t = (\<lambda>i. if i < length t then of_char (t ! i) else 0)"
definition dword_bytes :: "u32 \<Rightarrow> buf" where "dword_bytes n = wr_le 0 (ucast n) 4 (\<lambda>_. 0)"

section \<open>Start-up and the keys of a driver\<close>

definition registry_init :: "reg_state \<Rightarrow> reg_state option" where
  "registry_init s0 =
     (if s_root s0 \<noteq> 0 then Some s0
      else case reg_alloc_key ([CHR 0x5C] @ ''Registry'') 0 s0 of (s1, root) \<Rightarrow>
      do { let s2 = s1\<lparr>s_root := root\<rparr>;
           (s3, machine) \<leftarrow> reg_get_or_create_child root ''Machine'' s2;
           (s4, users) \<leftarrow> reg_get_or_create_child root ''Users'' s3;
           (s5, sw) \<leftarrow> reg_get_or_create_child machine ''Software'' s4;
           (s6, meuos) \<leftarrow> reg_get_or_create_child sw ''MeuOS'' s5;
           (s7, _) \<leftarrow> reg_set_value meuos ''ProductName'' REG_SZ (Some (str_bytes ''MeuOS'')) 6 s6;
           (s8, _) \<leftarrow> reg_set_value meuos ''CurrentVersion'' REG_SZ (Some (str_bytes ''0.1'')) 4 s7;
           (s9, _) \<leftarrow> reg_set_value meuos ''BuildNumber'' REG_DWORD (Some (dword_bytes 26021)) 4 s8;
           (s10, sys) \<leftarrow> reg_get_or_create_child machine ''System'' s9;
           (s11, csys) \<leftarrow> reg_get_or_create_child sys ''CurrentControlSet'' s10;
           (s12, serv) \<leftarrow> reg_get_or_create_child csys ''Services'' s11;
           (s13, _) \<leftarrow> reg_set_value serv ''Start'' REG_DWORD (Some (dword_bytes 1)) 4 s12;
           Some s13 })"

definition backslash :: string where "backslash = [CHR 0x5C]"
definition services_path :: string where
  "services_path = ''Machine'' @ backslash @ ''System'' @ backslash @ ''CurrentControlSet'' @ backslash @ ''Services''"
definition drivers_prefix :: string where
  "drivers_prefix = backslash @ ''??'' @ backslash @ ''C:'' @ backslash @ ''Windows'' @ backslash @ ''System32'' @ backslash @
     ''drivers'' @ backslash"

text \<open>The base name of the driver without \<open>.sys\<close>, and the path of its image.\<close>

definition service_name :: "string \<Rightarrow> string" where
  "service_name drv =
     (let nm = take 60 drv in
      if 4 \<le> length nm \<and> drop (length nm - 4) nm = ''.sys'' then take (length nm - 4) nm else nm)"

definition image_path :: "string \<Rightarrow> string" where
  "image_path drv = (let p = take 100 drivers_prefix in p @ take (120 - length p) drv)"

definition registry_create_driver_service :: "string option \<Rightarrow> reg_state \<Rightarrow> reg_state option" where
  "registry_create_driver_service drv s =
     (case drv of
        None \<Rightarrow> Some s
      | Some d \<Rightarrow>
          if s_root s = 0 then Some s
          else do {
            (s1, serv) \<leftarrow> reg_resolve_path (s_root s) (Some services_path) True s;
            if serv = 0 then Some s1
            else do {
              (s2, svc) \<leftarrow> reg_get_or_create_child serv (service_name d) s1;
              if svc = 0 then Some s2
              else do {
                (s3, _) \<leftarrow> reg_set_value svc ''Type'' REG_DWORD (Some (dword_bytes 1)) 4 s2;
                (s4, _) \<leftarrow> reg_set_value svc ''Start'' REG_DWORD (Some (dword_bytes 0)) 4 s3;
                (s5, _) \<leftarrow> reg_set_value svc ''ErrorControl'' REG_DWORD (Some (dword_bytes 1)) 4 s4;
                (s6, _) \<leftarrow> reg_set_value svc ''ImagePath'' REG_SZ (Some (str_bytes (image_path d)))
                             (of_nat (length (image_path d) + 1)) s5;
                (s7, params) \<leftarrow> reg_get_or_create_child svc ''Parameters'' s6;
                if params = 0 then Some s7
                else do {
                  (s8, _) \<leftarrow> reg_set_value params ''Initialized'' REG_DWORD (Some (dword_bytes 1)) 4 s7;
                  Some s8 } } } })"

section \<open>The interface with paths as strings\<close>

definition registry_set_value_ascii ::
  "string \<Rightarrow> string \<Rightarrow> u32 \<Rightarrow> buf option \<Rightarrow> u32 \<Rightarrow> reg_state \<Rightarrow> (reg_state \<times> bool) option" where
  "registry_set_value_ascii keypath name ty data sz s =
     do { (s1, k) \<leftarrow> reg_resolve_path (s_root s) (Some keypath) True s;
          if k = 0 then Some (s1, False)
          else do { (s2, v) \<leftarrow> reg_set_value k name ty data sz s1; Some (s2, v \<noteq> 0) } }"

text \<open>The type, the size and the bytes copied out; the data pointer is read without a check.  \<open>maxSize\<close> is 0
  for a caller without a buffer.\<close>

definition registry_get_value_ascii ::
  "string \<Rightarrow> string \<Rightarrow> u32 \<Rightarrow> reg_state \<Rightarrow> (u32 \<times> u32 \<times> u8 list) option option" where
  "registry_get_value_ascii keypath name maxSize s =
     do { (_, k) \<leftarrow> reg_resolve_path (s_root s) (Some keypath) False s;
          if k = 0 then Some None
          else do { v \<leftarrow> reg_find_value k name s;
                    if v = 0 then Some None
                    else let n = min (vsize (VAL s v)) maxSize in
                      if n \<noteq> 0 \<and> vdata (VAL s v) = 0 then None
                      else Some (Some (vtype (VAL s v), vsize (VAL s v),
                                       map (\<lambda>i. rmem s (vdata (VAL s v) + i)) [0..<unat n])) } }"

section \<open>System calls\<close>

text \<open>A \<open>UNICODE_STRING\<close> with its \<open>Length\<close> in bytes and its buffer, \<open>None\<close> for a null buffer (and the
  fields of \<open>OBJECT_ATTRIBUTES\<close> that the system calls read).\<close>

record UNICODE_STRING =
  Length :: u16
  Buffer :: "(nat \<Rightarrow> u16) option"

definition uni_to_ascii :: "UNICODE_STRING option \<Rightarrow> nat \<Rightarrow> string" where
  "uni_to_ascii u mx =
     (case u of
        Some us \<Rightarrow> (case Buffer us of
           Some b \<Rightarrow> takeWhile (\<lambda>c. c \<noteq> CHR 0x00)
                      (map (\<lambda>i. char_of (unat (b i AND 0xFF))) [0..<min (unat (Length us div 2)) (mx - 1)])
         | None \<Rightarrow> [])
      | None \<Rightarrow> [])"

record OBJECT_ATTRIBUTES =
  ObjectName :: "UNICODE_STRING option"
  RootDirectory :: u64

definition OB_TYPE_REGKEY :: u32 where "OB_TYPE_REGKEY = 10"
definition RegNtPreSetValueKey :: u32 where "RegNtPreSetValueKey = 1"
definition RegNtPreQueryValueKey :: u32 where "RegNtPreQueryValueKey = 8"
definition RegNtPreCreateKey :: u32 where "RegNtPreCreateKey = 10"
definition RegNtPreOpenKey :: u32 where "RegNtPreOpenKey = 12"

type_synonym fire_op = "u32 \<Rightarrow> string \<Rightarrow> reg_state \<Rightarrow> reg_state"

text \<open>The key that a path of the attributes starts from.\<close>

definition key_base :: "OBJECT_ATTRIBUTES \<Rightarrow> reg_state \<Rightarrow> nat" where
  "key_base oa s =
     (if RootDirectory oa \<noteq> 0 then
        (let r = ob_handle_to_object (RootDirectory oa) OB_TYPE_REGKEY (r_ob s)
         in if r \<noteq> 0 then r else s_root s)
      else s_root s)"

text \<open>\<open>*KeyHandle = ob_create_handle(k)\<close>\<close>

definition key_handle :: "nat \<Rightarrow> reg_state \<Rightarrow> (reg_state \<times> u64) option" where
  "key_handle k s = map_option (\<lambda>(ob, h). (s\<lparr>r_ob := ob\<rparr>, h)) (ob_create_handle k (r_ob s))"

text \<open>The results are the status, the handle and the disposition that are stored through the
  pointers; \<open>has_out\<close> is False for a null \<open>KeyHandle\<close>.\<close>

definition NtCreateKey_k ::
  "fire_op \<Rightarrow> bool \<Rightarrow> OBJECT_ATTRIBUTES option \<Rightarrow> reg_state \<Rightarrow> (reg_state \<times> NTSTATUS \<times> u64 \<times> u32) option" where
  "NtCreateKey_k fire has_out attrs s =
     (case attrs of
        None \<Rightarrow> Some (s, STATUS_INVALID_PARAMETER, 0, 0)
      | Some oa \<Rightarrow>
          if \<not> has_out \<or> ObjectName oa = None then Some (s, STATUS_INVALID_PARAMETER, 0, 0)
          else let path = uni_to_ascii (ObjectName oa) 256; base = key_base oa s in
          do { (s1, k0) \<leftarrow> reg_resolve_path base (Some path) False s;
               (s2, k) \<leftarrow> reg_resolve_path base (Some path) True s1;
               if k = 0 then Some (s2, STATUS_UNSUCCESSFUL, 0, 0)
               else do { (s3, h) \<leftarrow> key_handle k s2;
                         Some (fire RegNtPreCreateKey path s3, STATUS_SUCCESS, h, if k0 \<noteq> 0 then 2 else 1) } })"

definition NtOpenKey_k ::
  "fire_op \<Rightarrow> bool \<Rightarrow> OBJECT_ATTRIBUTES option \<Rightarrow> reg_state \<Rightarrow> (reg_state \<times> NTSTATUS \<times> u64) option" where
  "NtOpenKey_k fire has_out attrs s =
     (case attrs of
        None \<Rightarrow> Some (s, STATUS_INVALID_PARAMETER, 0)
      | Some oa \<Rightarrow>
          if \<not> has_out \<or> ObjectName oa = None then Some (s, STATUS_INVALID_PARAMETER, 0)
          else let path = uni_to_ascii (ObjectName oa) 256 in
          do { (s1, k) \<leftarrow> reg_resolve_path (key_base oa s) (Some path) False s;
               if k = 0 then Some (s1, STATUS_OBJECT_NAME_NOT_FOUND, 0)
               else do { (s2, h) \<leftarrow> key_handle k s1;
                         Some (fire RegNtPreOpenKey path s2, STATUS_SUCCESS, h) } })"

definition NtCloseKey_k :: "u64 \<Rightarrow> reg_state \<Rightarrow> reg_state \<times> NTSTATUS" where
  "NtCloseKey_k h s = (s\<lparr>r_ob := ob_close_handle h (r_ob s)\<rparr>, STATUS_SUCCESS)"

definition handle_key :: "u64 \<Rightarrow> reg_state \<Rightarrow> nat" where
  "handle_key h s = ob_handle_to_object h OB_TYPE_REGKEY (r_ob s)"

text \<open>A pointer to a link of a chain of keys or values: the field that holds it.\<close>

datatype key_link = ChildrenOf nat | SiblingOf nat
datatype value_link = ValuesOf nat | NextOf nat

fun get_klink :: "reg_state \<Rightarrow> key_link \<Rightarrow> nat" where
  "get_klink s (ChildrenOf k) = children (KEY s k)"
| "get_klink s (SiblingOf k) = sibling (KEY s k)"

fun set_klink :: "key_link \<Rightarrow> nat \<Rightarrow> reg_state \<Rightarrow> reg_state" where
  "set_klink (ChildrenOf k) c s = s\<lparr>KEY := (KEY s)(k := (KEY s k)\<lparr>children := c\<rparr>)\<rparr>"
| "set_klink (SiblingOf k) c s = s\<lparr>KEY := (KEY s)(k := (KEY s k)\<lparr>sibling := c\<rparr>)\<rparr>"

fun get_vlink :: "reg_state \<Rightarrow> value_link \<Rightarrow> nat" where
  "get_vlink s (ValuesOf k) = vals (KEY s k)"
| "get_vlink s (NextOf v) = vnext (VAL s v)"

fun set_vlink :: "value_link \<Rightarrow> nat \<Rightarrow> reg_state \<Rightarrow> reg_state" where
  "set_vlink (ValuesOf k) v s = s\<lparr>KEY := (KEY s)(k := (KEY s k)\<lparr>vals := v\<rparr>)\<rparr>"
| "set_vlink (NextOf u) v s = s\<lparr>VAL := (VAL s)(u := (VAL s u)\<lparr>vnext := v\<rparr>)\<rparr>"

partial_function (option) key_link_loop :: "reg_state \<Rightarrow> nat \<Rightarrow> key_link \<Rightarrow> key_link option" where
  "key_link_loop s k l =
     (if get_klink s l \<noteq> 0 \<and> get_klink s l \<noteq> k then key_link_loop s k (SiblingOf (get_klink s l)) else Some l)"

partial_function (option) value_link_loop :: "reg_state \<Rightarrow> string \<Rightarrow> value_link \<Rightarrow> value_link option" where
  "value_link_loop s name l =
     (if get_vlink s l \<noteq> 0 \<and> strcmpci (vname (VAL s (get_vlink s l))) name
      then value_link_loop s name (NextOf (get_vlink s l)) else Some l)"

definition NtDeleteKey_k :: "u64 \<Rightarrow> reg_state \<Rightarrow> (reg_state \<times> NTSTATUS) option" where
  "NtDeleteKey_k h s =
     (let k = handle_key h s in
      if k = 0 \<or> parent (KEY s k) = 0 then Some (s, STATUS_INVALID_HANDLE)
      else do { l \<leftarrow> key_link_loop s k (ChildrenOf (parent (KEY s k)));
                Some (if get_klink s l \<noteq> 0 then set_klink l (sibling (KEY s k)) s else s, STATUS_SUCCESS) })"

text \<open>The element \<open>n\<close> links down a chain, 0 when the chain is shorter.\<close>

fun nth_key :: "reg_state \<Rightarrow> nat \<Rightarrow> nat \<Rightarrow> nat" where
  "nth_key s 0 c = c"
| "nth_key s (Suc n) c = (if c = 0 then 0 else nth_key s n (sibling (KEY s c)))"

fun nth_value :: "reg_state \<Rightarrow> nat \<Rightarrow> nat \<Rightarrow> nat" where
  "nth_value s 0 v = v"
| "nth_value s (Suc n) v = (if v = 0 then 0 else nth_value s n (vnext (VAL s v)))"

text \<open>\<open>for (i...) Name[i] = (WCHAR)name[i]\<close> at the offset \<open>p\<close> of the buffer; a \<open>char\<close> is signed.\<close>

definition wchar_of :: "char \<Rightarrow> u64" where "wchar_of c = scast (of_char c :: u8)"
definition put_name :: "nat \<Rightarrow> string \<Rightarrow> buf \<Rightarrow> buf" where
  "put_name p t b = fold (\<lambda>i. wr_le (p + 2 * i) (wchar_of (t ! i)) 2) [0..<length t] b"

text \<open>The results: the status, the length that is reported and the buffer; \<open>None\<close> for a null buffer.\<close>

definition NtEnumerateKey_k ::
  "u64 \<Rightarrow> u32 \<Rightarrow> buf option \<Rightarrow> u32 \<Rightarrow> reg_state \<Rightarrow> NTSTATUS \<times> u32 option \<times> buf option" where
  "NtEnumerateKey_k h Index info Len s =
     (let k = handle_key h s in
      if k = 0 then (STATUS_INVALID_HANDLE, None, info)
      else let c = nth_key s (unat Index) (children (KEY s k)) in
      if c = 0 then (STATUS_NO_MORE_ENTRIES, None, info)
      else let nm = kname (KEY s c); need = of_nat (12 + length nm * 2) in
      case info of
        None \<Rightarrow> (STATUS_BUFFER_TOO_SMALL, Some need, None)
      | Some b \<Rightarrow>
          if Len < need then (STATUS_BUFFER_TOO_SMALL, Some need, info)
          else (STATUS_SUCCESS, Some need,
                Some (put_name 8 nm (wr_le 4 (of_nat (length nm * 2)) 4 (wr_le 0 0 4 b)))))"

definition copy_data :: "nat \<Rightarrow> reg_state \<Rightarrow> nat \<Rightarrow> buf \<Rightarrow> buf" where
  "copy_data v s p b =
     (if vsize (VAL s v) \<noteq> 0 \<and> vdata (VAL s v) \<noteq> 0
      then put_bytes (unat (vsize (VAL s v))) p (\<lambda>i. rmem s (vdata (VAL s v) + i)) b else b)"

definition NtEnumerateValueKey_k ::
  "u64 \<Rightarrow> u32 \<Rightarrow> buf option \<Rightarrow> u32 \<Rightarrow> reg_state \<Rightarrow> NTSTATUS \<times> u32 option \<times> buf option" where
  "NtEnumerateValueKey_k h Index info Len s =
     (let k = handle_key h s in
      if k = 0 then (STATUS_INVALID_HANDLE, None, info)
      else let v = nth_value s (unat Index) (vals (KEY s k)) in
      if v = 0 then (STATUS_NO_MORE_ENTRIES, None, info)
      else let nm = vname (VAL s v); need = of_nat (24 + length nm * 2) + vsize (VAL s v) in
      case info of
        None \<Rightarrow> (STATUS_BUFFER_TOO_SMALL, Some need, None)
      | Some b \<Rightarrow>
          if Len < need then (STATUS_BUFFER_TOO_SMALL, Some need, info)
          else
            (let b1 = wr_le 4 (ucast (vtype (VAL s v))) 4 (wr_le 0 0 4 b);
                 b2 = put_name 20 nm (wr_le 16 (of_nat (length nm * 2)) 4 b1);
                 b3 = wr_le 12 (ucast (vsize (VAL s v))) 4 (wr_le 8 (of_nat (24 + length nm * 2)) 4 b2)
             in (STATUS_SUCCESS, Some need, Some (copy_data v s (24 + length nm * 2) b3))))"

definition NtSetValueKey_k ::
  "fire_op \<Rightarrow> u64 \<Rightarrow> UNICODE_STRING option \<Rightarrow> u32 \<Rightarrow> buf option \<Rightarrow> u32 \<Rightarrow> reg_state \<Rightarrow> (reg_state \<times> NTSTATUS) option" where
  "NtSetValueKey_k fire h vn ty data sz s =
     (let k = handle_key h s; name = uni_to_ascii vn MAX_NAME in
      if k = 0 then Some (s, STATUS_INVALID_HANDLE)
      else do { (s1, v) \<leftarrow> reg_set_value k name ty data sz s;
                Some (fire RegNtPreSetValueKey name s1, if v \<noteq> 0 then STATUS_SUCCESS else STATUS_NO_MEMORY) })"

definition NtQueryValueKey_k ::
  "fire_op \<Rightarrow> u64 \<Rightarrow> UNICODE_STRING option \<Rightarrow> buf option \<Rightarrow> u32 \<Rightarrow> reg_state \<Rightarrow>
     (reg_state \<times> NTSTATUS \<times> u32 option \<times> buf option) option" where
  "NtQueryValueKey_k fire h vn info Len s =
     (let k = handle_key h s; name = uni_to_ascii vn MAX_NAME in
      if k = 0 then Some (s, STATUS_INVALID_HANDLE, None, info)
      else do { v \<leftarrow> reg_find_value k name s;
        if v = 0 then Some (s, STATUS_OBJECT_NAME_NOT_FOUND, None, info)
        else let need = 15 + vsize (VAL s v) in
        case info of
          None \<Rightarrow> Some (s, STATUS_BUFFER_TOO_SMALL, Some need, None)
        | Some b \<Rightarrow>
            if Len < need then Some (s, STATUS_BUFFER_TOO_SMALL, Some need, info)
            else
              (let b1 = wr_le 8 (ucast (vsize (VAL s v))) 4 (wr_le 4 (ucast (vtype (VAL s v))) 4 (wr_le 0 0 4 b))
               in Some (fire RegNtPreQueryValueKey name s, STATUS_SUCCESS, Some need, Some (copy_data v s 12 b1))) })"

definition NtDeleteValueKey_k :: "u64 \<Rightarrow> UNICODE_STRING option \<Rightarrow> reg_state \<Rightarrow> (reg_state \<times> NTSTATUS) option" where
  "NtDeleteValueKey_k h vn s =
     (let k = handle_key h s; name = uni_to_ascii vn MAX_NAME in
      if k = 0 then Some (s, STATUS_INVALID_HANDLE)
      else do { l \<leftarrow> value_link_loop s name (ValuesOf k);
        if get_vlink s l = 0 then Some (s, STATUS_OBJECT_NAME_NOT_FOUND)
        else let gone = get_vlink s l; s1 = set_vlink l (vnext (VAL s gone)) s in
          do { s2 \<leftarrow> (if vdata (VAL s1 gone) \<noteq> 0 then r_free (vdata (VAL s1 gone)) s1 else Some s1);
               s3 \<leftarrow> r_free gone s2;
               Some (s3, STATUS_SUCCESS) } })"

definition NtFlushKey_k :: "u64 \<Rightarrow> reg_state \<Rightarrow> reg_state \<times> NTSTATUS" where
  "NtFlushKey_k h s = (s, STATUS_SUCCESS)"

end
