(* ===== verification/RegistryInv.thy ===== *)
theory RegistryInv
  imports Registry
begin

text \<open>
  The invariant of the registry and what its operations do to the tree.  \<open>G\<close> gives for the address of
  every key the addresses of its children and of its values; \<open>reg_inv s G\<close> says that the chains of the
  state are these lists and that keys, values and data are different live blocks of the heap.  \<open>view s G\<close> is
  the abstract content: per key the children by name and the values with their bytes.
\<close>

section \<open>Names and chains\<close>

lemma strcmpci_ieq: "strcmpci a b \<longleftrightarrow> \<not> ieq a b"
  by (induction a b rule: strcmpci.induct) auto

fun kchain :: "reg_state \<Rightarrow> nat \<Rightarrow> nat list \<Rightarrow> bool" where
  "kchain s p [] \<longleftrightarrow> p = 0"
| "kchain s p (k # ks) \<longleftrightarrow> p = k \<and> k \<noteq> 0 \<and> kchain s (sibling (KEY s k)) ks"

fun vchain :: "reg_state \<Rightarrow> nat \<Rightarrow> nat list \<Rightarrow> bool" where
  "vchain s p [] \<longleftrightarrow> p = 0"
| "vchain s p (v # vs) \<longleftrightarrow> p = v \<and> v \<noteq> 0 \<and> vchain s (vnext (VAL s v)) vs"

definition first :: "(nat \<Rightarrow> bool) \<Rightarrow> nat list \<Rightarrow> nat" where
  "first P xs = (case List.find P xs of None \<Rightarrow> 0 | Some x \<Rightarrow> x)"

lemma first_simps [simp]:
  "first P [] = 0" "first P (x # xs) = (if P x then x else first P xs)"
  by (simp_all add: first_def)

lemma first_mem: "0 \<notin> set xs \<Longrightarrow> first P xs \<noteq> 0 \<longleftrightarrow> (\<exists>x \<in> set xs. P x)"
  by (induction xs) auto

lemma first_in: "first P xs \<noteq> 0 \<Longrightarrow> first P xs \<in> set xs \<and> P (first P xs)"
  by (induction xs) (auto split: if_splits)

lemma kchain_nonzero: "kchain s p ks \<Longrightarrow> 0 \<notin> set ks"
  by (induction ks arbitrary: p) auto

lemma vchain_nonzero: "vchain s p vs \<Longrightarrow> 0 \<notin> set vs"
  by (induction vs arbitrary: p) auto

lemma find_child_chain:
  "kchain s p ks \<Longrightarrow> find_child_loop s name p = Some (first (\<lambda>k. ieq (kname (KEY s k)) name) ks)"
proof (induction ks arbitrary: p)
  case Nil
  then show ?case by (subst find_child_loop.simps) simp
next
  case (Cons k ks)
  then show ?case by (subst find_child_loop.simps) (simp add: strcmpci_ieq)
qed

lemma find_value_chain:
  "vchain s p vs \<Longrightarrow> find_value_loop s name p = Some (first (\<lambda>v. ieq (vname (VAL s v)) name) vs)"
proof (induction vs arbitrary: p)
  case Nil
  then show ?case by (subst find_value_loop.simps) simp
next
  case (Cons v vs)
  then show ?case by (subst find_value_loop.simps) (simp add: strcmpci_ieq)
qed

lemma kchain_cong: "(\<And>k. k \<in> set ks \<Longrightarrow> sibling (KEY s' k) = sibling (KEY s k)) \<Longrightarrow> kchain s' p ks = kchain s p ks"
  by (induction ks arbitrary: p) auto

lemma vchain_cong: "(\<And>v. v \<in> set vs \<Longrightarrow> vnext (VAL s' v) = vnext (VAL s v)) \<Longrightarrow> vchain s' p vs = vchain s p vs"
  by (induction vs arbitrary: p) auto

section \<open>The invariant\<close>

type_synonym ghost = "nat \<rightharpoonup> nat list \<times> nat list"

datatype role = RKey | RVal nat | RData nat nat

fun block :: "reg_state \<Rightarrow> ghost \<Rightarrow> nat \<Rightarrow> role \<Rightarrow> bool" where
  "block s G p RKey \<longleftrightarrow> p \<in> dom G"
| "block s G p (RVal k) \<longleftrightarrow> (\<exists>cs vs. G k = Some (cs, vs) \<and> p \<in> set vs)"
| "block s G p (RData k v) \<longleftrightarrow> (\<exists>cs vs. G k = Some (cs, vs) \<and> v \<in> set vs \<and> vdata (VAL s v) = p \<and> p \<noteq> 0)"

definition live :: "reg_state \<Rightarrow> nat \<rightharpoonup> nat" where "live s = heap_live (r_heap s)"

definition reg_inv :: "reg_state \<Rightarrow> ghost \<Rightarrow> bool" where
  "reg_inv s G \<longleftrightarrow> heap_inv (r_heap s) \<and>
     (\<forall>k cs vs. G k = Some (cs, vs) \<longrightarrow> kchain s (children (KEY s k)) cs \<and> vchain s (vals (KEY s k)) vs \<and>
        distinct vs \<and> set cs \<subseteq> dom G) \<and>
     (\<forall>p r. block s G p r \<longrightarrow> p \<noteq> 0 \<and> live s p \<noteq> None) \<and>
     (\<forall>p k v. block s G p (RData k v) \<longrightarrow> (\<exists>n. live s p = Some n \<and> unat (vsize (VAL s v)) \<le> n)) \<and>
     (\<forall>p r r'. block s G p r \<longrightarrow> block s G p r' \<longrightarrow> r = r')"

lemma reg_invD:
  assumes "reg_inv s G"
  shows "heap_inv (r_heap s)"
    "G k = Some (cs, vs) \<Longrightarrow> kchain s (children (KEY s k)) cs"
    "G k = Some (cs, vs) \<Longrightarrow> vchain s (vals (KEY s k)) vs"
    "G k = Some (cs, vs) \<Longrightarrow> distinct vs" "G k = Some (cs, vs) \<Longrightarrow> set cs \<subseteq> dom G"
    "block s G p r \<Longrightarrow> p \<noteq> 0 \<and> live s p \<noteq> None"
    "block s G p (RData k v) \<Longrightarrow> \<exists>n. live s p = Some n \<and> unat (vsize (VAL s v)) \<le> n"
    "block s G p r \<Longrightarrow> block s G p r' \<Longrightarrow> r = r'"
  using assms unfolding reg_inv_def by blast+

text \<open>A value as its name, type, size and bytes: no bytes when the block for them could not be had.\<close>

type_synonym value_rec = "string \<times> u32 \<times> u32 \<times> u8 list option"

definition bytes_of :: "reg_state \<Rightarrow> nat \<Rightarrow> u8 list option" where
  "bytes_of s v =
     (if vsize (VAL s v) = 0 then Some []
      else if vdata (VAL s v) = 0 then None
      else Some (map (\<lambda>i. rmem s (vdata (VAL s v) + i)) [0..<unat (vsize (VAL s v))]))"

definition value_of :: "reg_state \<Rightarrow> nat \<Rightarrow> value_rec" where
  "value_of s v = (vname (VAL s v), vtype (VAL s v), vsize (VAL s v), bytes_of s v)"

definition view :: "reg_state \<Rightarrow> ghost \<Rightarrow> nat \<rightharpoonup> (string \<times> nat) list \<times> value_rec list" where
  "view s G k = map_option (\<lambda>(cs, vs). (map (\<lambda>c. (kname (KEY s c), c)) cs, map (value_of s) vs)) (G k)"

lemma r_heap_simps [simp]:
  "r_heap (set_heap h s) = h" "KEY (set_heap h s) = KEY s" "VAL (set_heap h s) = VAL s" "rmem (set_heap h s) = rmem s"
  "s_root (set_heap h s) = s_root s" "s_handles (r_ob (set_heap h s)) = s_handles (r_ob s)"
  "r_heap (s\<lparr>KEY := x\<rparr>) = r_heap s" "r_heap (s\<lparr>VAL := y\<rparr>) = r_heap s" "r_heap (s\<lparr>rmem := z\<rparr>) = r_heap s"
  by (simp_all add: set_heap_def r_heap_def)

lemma live_simps [simp]:
  "live (s\<lparr>KEY := x\<rparr>) = live s" "live (s\<lparr>VAL := y\<rparr>) = live s" "live (s\<lparr>rmem := z\<rparr>) = live s"
  by (simp_all add: live_def)

lemma r_alloc_cases:
  assumes inv: "heap_inv (r_heap s)" and n: "unat n \<le> 2 ^ 64 - 16" and a: "r_alloc n s = (s', p)"
  shows "(p = 0 \<and> live s' = live s \<or> p \<noteq> 0 \<and> live s p = None \<and> (\<exists>m \<ge> unat n. live s' = (live s)(p \<mapsto> m)))"
    "heap_inv (r_heap s')" "KEY s' = KEY s" "VAL s' = VAL s" "rmem s' = rmem s" "s_root s' = s_root s"
proof -
  obtain h where h: "kmalloc n (r_heap s) = (h, p)" "s' = set_heap h s"
    using a by (auto simp: r_alloc_def split: prod.splits)
  show "heap_inv (r_heap s')" using kheap.alloc_inv [OF inv h(1)] h(2) by simp
  show "KEY s' = KEY s" "VAL s' = VAL s" "rmem s' = rmem s" "s_root s' = s_root s" by (simp_all add: h(2))
  show "(p = 0 \<and> live s' = live s \<or> p \<noteq> 0 \<and> live s p = None \<and> (\<exists>m \<ge> unat n. live s' = (live s)(p \<mapsto> m)))"
  proof (cases "p = 0")
    case True
    then have "h = r_heap s" using kheap.alloc_fail [OF inv] h(1) by simp
    then show ?thesis using True by (simp add: live_def h(2))
  next
    case False
    then show ?thesis using kheap.alloc_ok [OF inv n h(1) False] by (simp add: live_def h(2))
  qed
qed

lemma r_free_ok:
  assumes inv: "heap_inv (r_heap s)" and l: "live s p \<noteq> None"
  obtains s' where "r_free p s = Some s'" "heap_inv (r_heap s')" "live s' = (live s)(p := None)"
    "KEY s' = KEY s" "VAL s' = VAL s" "rmem s' = rmem s" "s_root s' = s_root s"
proof -
  obtain n where "heap_live (r_heap s) p = Some n" using l by (auto simp: live_def)
  from kfree_live_ok [OF inv this] obtain h where h: "kfree p (r_heap s) = Some h" "heap_inv h"
    "heap_live h = (heap_live (r_heap s))(p := None)" by blast
  show thesis by (rule that [of "set_heap h s"]) (simp_all add: r_free_def h live_def)
qed

lemma live_disjoint:
  assumes "heap_inv (r_heap s)" "live s p = Some a" "live s q = Some b" "p \<noteq> q"
  shows "p + a \<le> q \<or> q + b \<le> p"
  using kheap.live_disjoint assms unfolding live_def by blast

section \<open>Setting a value\<close>

lemma value_owner:
  assumes "reg_inv s G" "G k = Some (cs, vs)" "v \<in> set vs" "G k' = Some (cs', vs')" "v \<in> set vs'"
  shows "k' = k"
proof -
  have "block s G v (RVal k)" "block s G v (RVal k')" using assms by auto
  then show ?thesis using reg_invD(8) [OF assms(1)] by blast
qed

lemma inv_set_data:
  assumes inv: "reg_inv s G" and k: "G k = Some (cs, vs)" "v \<in> set vs" and z: "vdata (VAL s v) = 0"
    and s': "KEY s' = KEY s" "VAL s' = (VAL s)(v := x)" "vnext x = vnext (VAL s v)" "heap_inv (r_heap s')"
    and d: "vdata x = 0 \<and> live s' = live s \<or>
      vdata x \<noteq> 0 \<and> live s (vdata x) = None \<and> (\<exists>m \<ge> unat (vsize x). live s' = (live s)(vdata x \<mapsto> m))"
  shows "reg_inv s' G"
proof -
  have own: "k' = k" if "G k' = Some (cs', vs')" "v \<in> set vs'" for k' cs' vs'
    using value_owner [OF inv k that] .
  have blk: "block s' G p r \<Longrightarrow> block s G p r \<or> r = RData k v \<and> p = vdata x \<and> p \<noteq> 0" for p r
    using own by (cases r) (auto simp: s'(2) split: if_splits)
  have dn: "live s (vdata x) = None" if "vdata x \<noteq> 0" using d that by blast
  have old: "live s' p = live s p" if "block s G p r" for p r
  proof -
    have l: "live s p \<noteq> None" using reg_invD(6) [OF inv that] by simp
    show ?thesis
    proof (cases "vdata x = 0")
      case True
      then show ?thesis using d by simp
    next
      case False
      then obtain m where m: "live s' = (live s)(vdata x \<mapsto> m)" using d by auto
      have "p \<noteq> vdata x" using l dn [OF False] by auto
      then show ?thesis by (simp add: m)
    qed
  qed
  have new: "vdata x \<noteq> 0 \<Longrightarrow> \<exists>n. live s' (vdata x) = Some n \<and> unat (vsize x) \<le> n" using d by auto
  have nv: "\<not> block s G p (RData k' v)" for p k'
    using z by auto
  show ?thesis
    unfolding reg_inv_def
  proof (intro conjI allI impI)
    show "heap_inv (r_heap s')" by (rule s'(4))
    fix k' cs' vs' assume g: "G k' = Some (cs', vs')"
    show "kchain s' (children (KEY s' k')) cs'"
      using reg_invD(2) [OF inv g] kchain_cong [of cs' s' s] by (simp add: s'(1))
    show "vchain s' (vals (KEY s' k')) vs'"
      using reg_invD(3) [OF inv g] vchain_cong [of vs' s' s] by (simp add: s')
    show "distinct vs'" "set cs' \<subseteq> dom G" using reg_invD(4,5) [OF inv g] by simp_all
  next
    fix p r assume b: "block s' G p r"
    show "p \<noteq> 0" "live s' p \<noteq> None"
      using blk [OF b] new reg_invD(6) [OF inv] old by auto
  next
    fix p k' w assume b: "block s' G p (RData k' w)"
    show "\<exists>n. live s' p = Some n \<and> unat (vsize (VAL s' w)) \<le> n"
    proof (cases "w = v")
      case True
      then have "p = vdata x" "p \<noteq> 0" using b by (auto simp: s'(2))
      then show ?thesis using new True by (simp add: s'(2))
    next
      case False
      then have b': "block s G p (RData k' w)" using blk [OF b] by auto
      show ?thesis using reg_invD(7) [OF inv b'] old [OF b'] False by (simp add: s'(2))
    qed
  next
    fix p r r' assume b: "block s' G p r" "block s' G p r'"
    have "\<not> (block s G p q \<and> p = vdata x \<and> p \<noteq> 0)" for q
      using reg_invD(6) [OF inv] dn by blast
    then show "r = r'" using blk [OF b(1)] blk [OF b(2)] reg_invD(8) [OF inv] by blast
  qed
qed

lemma value_of_other:
  assumes inv: "reg_inv s G" "reg_inv s' G" and w: "G k = Some (cs, vs)" "w \<in> set vs" "w \<noteq> v" and v: "G k0 = Some (cs0, vs0)" "v \<in> set vs0"
    and s': "VAL s' w = VAL s w" "\<And>a. (vdata (VAL s' v) = 0 \<or> a < vdata (VAL s' v) \<or> vdata (VAL s' v) + unat (vsize (VAL s' v)) \<le> a) \<Longrightarrow> rmem s' a = rmem s a"
  shows "value_of s' w = value_of s w"
proof (cases "vdata (VAL s w) = 0 \<or> vsize (VAL s w) = 0")
  case True
  then show ?thesis by (auto simp: value_of_def bytes_of_def s'(1))
next
  case False
  let ?p = "vdata (VAL s w)" and ?d = "vdata (VAL s' v)"
  have bw: "block s' G ?p (RData k w)" using w False s'(1) by auto
  then obtain n where n: "live s' ?p = Some n" "unat (vsize (VAL s w)) \<le> n"
    using reg_invD(7) [OF inv(2) bw] s'(1) by auto
  have "rmem s' (?p + i) = rmem s (?p + i)" if i: "i < unat (vsize (VAL s w))" for i
  proof (cases "?d = 0")
    case True
    then show ?thesis using s'(2) by simp
  next
    case nz: False
    have bv: "block s' G ?d (RData k0 v)" using v nz by auto
    then obtain m where m: "live s' ?d = Some m" "unat (vsize (VAL s' v)) \<le> m"
      using reg_invD(7) [OF inv(2) bv] by auto
    have "?p \<noteq> ?d" using reg_invD(8) [OF inv(2) bw, of "RData k0 v"] bv w(3) by auto
    then have "?p + n \<le> ?d \<or> ?d + m \<le> ?p"
      using live_disjoint [OF reg_invD(1) [OF inv(2)] n(1) m(1)] by simp
    then show ?thesis using n(2) m(2) i by (intro s'(2)) linarith
  qed
  then show ?thesis by (simp add: value_of_def bytes_of_def s'(1) cong: map_cong)
qed

lemma fill_value_spec:
  assumes inv: "reg_inv s G" and k: "G k = Some (cs, vs)" "v \<in> set vs" and z: "vdata (VAL s v) = 0"
    and f: "s' = fill_value v ty (Some b) sz s"
  shows "reg_inv s' G" "KEY s' = KEY s" "s_root s' = s_root s"
    "\<exists>d. value_of s' v = (vname (VAL s v), ty, sz, d) \<and> (d = None \<or> d = Some (map b [0..<unat sz]))"
    "G k' = Some (cs', vs') \<Longrightarrow> w \<in> set vs' \<Longrightarrow> w \<noteq> v \<Longrightarrow> value_of s' w = value_of s w"
proof -
  define s1 where "s1 = s\<lparr>VAL := (VAL s)(v := (VAL s v)\<lparr>vtype := ty, vsize := sz\<rparr>)\<rparr>"
  obtain s2 d where a: "(if sz \<noteq> 0 then r_alloc (ucast sz) s1 else (s1, 0)) = (s2, d)" by fastforce
  define s3 where "s3 = s2\<lparr>VAL := (VAL s2)(v := (VAL s2 v)\<lparr>vdata := d\<rparr>)\<rparr>"
  have s': "s' = (if d \<noteq> 0 then s3\<lparr>rmem := put_bytes (unat sz) d b (rmem s3)\<rparr> else s3)"
    unfolding f fill_value_def Let_def s1_def [symmetric] a by (simp add: s3_def)
  have h1: "heap_inv (r_heap s1)" using reg_invD(1) [OF inv] by (simp add: s1_def)
  have un: "unat (ucast sz :: u64) = unat sz"
    unfolding unsigned_ucast_eq by (rule take_bit_nat_eq_self, rule less_trans [OF unsigned_less], simp)
  have A: "(d = 0 \<and> live s2 = live s1 \<or> d \<noteq> 0 \<and> live s1 d = None \<and> (\<exists>m \<ge> unat sz. live s2 = (live s1)(d \<mapsto> m)))"
    "heap_inv (r_heap s2)" "KEY s2 = KEY s1" "VAL s2 = VAL s1" "rmem s2 = rmem s1" "s_root s2 = s_root s1"
  proof -
    have b: "unat (ucast sz :: u64) \<le> 2 ^ 64 - 16" unfolding un
      using unsigned_less [of sz, where 'a = nat] by simp
    have "(d = 0 \<and> live s2 = live s1 \<or> d \<noteq> 0 \<and> live s1 d = None \<and> (\<exists>m \<ge> unat sz. live s2 = (live s1)(d \<mapsto> m))) \<and>
      heap_inv (r_heap s2) \<and> KEY s2 = KEY s1 \<and> VAL s2 = VAL s1 \<and> rmem s2 = rmem s1 \<and> s_root s2 = s_root s1"
    proof (cases "sz = 0")
      case True
      then have "s2 = s1" "d = 0" using a by auto
      then show ?thesis using h1 by simp
    next
      case False
      then have "r_alloc (ucast sz) s1 = (s2, d)" using a by simp
      note R = r_alloc_cases [OF h1 b this, unfolded un]
      show ?thesis using R by blast
    qed
    then show "(d = 0 \<and> live s2 = live s1 \<or> d \<noteq> 0 \<and> live s1 d = None \<and> (\<exists>m \<ge> unat sz. live s2 = (live s1)(d \<mapsto> m)))"
      "heap_inv (r_heap s2)" "KEY s2 = KEY s1" "VAL s2 = VAL s1" "rmem s2 = rmem s1" "s_root s2 = s_root s1" by blast+
  qed
  have V: "VAL s' = (VAL s)(v := (VAL s v)\<lparr>vtype := ty, vsize := sz, vdata := d\<rparr>)"
    by (simp add: s' s3_def A(4) s1_def)
  show K: "KEY s' = KEY s" by (simp add: s' s3_def A(3) s1_def)
  show "s_root s' = s_root s" by (simp add: s' s3_def A(6) s1_def)
  have L: "live s' = live s2" by (simp add: s' s3_def)
  have M: "rmem s' = (if d \<noteq> 0 then put_bytes (unat sz) d b (rmem s) else rmem s)"
    by (simp add: s' s3_def A(5) s1_def)
  show inv': "reg_inv s' G"
    using A(1,2) by (intro inv_set_data [OF inv k z K V]) (auto simp: L s' s3_def s1_def)
  have d0: "d = 0" if "sz = 0" using a that by simp
  show "\<exists>d. value_of s' v = (vname (VAL s v), ty, sz, d) \<and> (d = None \<or> d = Some (map b [0..<unat sz]))"
  proof (cases "sz = 0 \<or> d = 0")
    case True
    then show ?thesis by (auto simp: value_of_def bytes_of_def V)
  next
    case False
    have "map (\<lambda>i. rmem s' (d + i)) [0..<unat sz] = map b [0..<unat sz]"
      using False by (simp add: M put_bytes_def)
    then show ?thesis using False by (simp add: value_of_def bytes_of_def V)
  qed
  show "value_of s' w = value_of s w" if w: "G k' = Some (cs', vs')" "w \<in> set vs'" "w \<noteq> v"
  proof (rule value_of_other [OF inv inv' w k])
    show "VAL s' w = VAL s w" using w(3) by (simp add: V)
    show "rmem s' a = rmem s a" if "vdata (VAL s' v) = 0 \<or> a < vdata (VAL s' v) \<or> vdata (VAL s' v) + unat (vsize (VAL s' v)) \<le> a" for a
      using that by (auto simp: V M put_bytes_def)
  qed
qed

text \<open>The value \<open>v\<close> without its data, as it is between the release of the old block and the new one.\<close>

definition detach :: "nat \<Rightarrow> reg_state \<Rightarrow> reg_state" where
  "detach v s = s\<lparr>VAL := (VAL s)(v := (VAL s v)\<lparr>vdata := 0\<rparr>)\<rparr>"

lemma rv_swap: "x\<lparr>vdata := 0, vtype := ty, vsize := sz\<rparr> = x\<lparr>vtype := ty, vsize := sz, vdata := 0\<rparr>" for x :: REG_VALUE
  by (cases x) simp

lemma fill_value_detach: "fill_value v ty data sz (detach v s) = fill_value v ty data sz s"
proof -
  let ?u = "\<lambda>s. s\<lparr>VAL := (VAL s)(v := (VAL s v)\<lparr>vtype := ty, vsize := sz\<rparr>)\<rparr>"
  have c: "?u (detach v s) = detach v (?u s)" by (simp add: detach_def rv_swap)
  have a: "r_alloc n (detach v (?u s)) = (detach v (fst (r_alloc n (?u s))), snd (r_alloc n (?u s)))" for n
    by (simp add: r_alloc_def detach_def set_heap_def r_heap_def split: prod.splits)
  have b: "(detach v t)\<lparr>VAL := (VAL (detach v t))(v := (VAL (detach v t) v)\<lparr>vdata := d\<rparr>)\<rparr> =
      t\<lparr>VAL := (VAL t)(v := (VAL t v)\<lparr>vdata := d\<rparr>)\<rparr>" for t d
    by (simp add: detach_def)
  obtain t d where t: "(if sz \<noteq> 0 then r_alloc (ucast sz) (?u s) else (?u s, 0)) = (t, d)" by fastforce
  then have t': "(if sz \<noteq> 0 then r_alloc (ucast sz) (?u (detach v s)) else (?u (detach v s), 0)) = (detach v t, d)"
    unfolding c using a [of "ucast sz"] by (auto simp: c split: if_splits)
  show ?thesis unfolding fill_value_def Let_def t t' prod.case b ..
qed

lemma detach_inv:
  assumes inv: "reg_inv s G" and k: "G k = Some (cs, vs)" "v \<in> set vs"
    and t: "heap_inv (r_heap t)" "KEY t = KEY s" "VAL t = VAL s"
    and l: "vdata (VAL s v) = 0 \<and> live t = live s \<or> vdata (VAL s v) \<noteq> 0 \<and> live t = (live s)(vdata (VAL s v) := None)"
  shows "reg_inv (detach v t) G"
proof -
  let ?s = "detach v t"
  have V: "VAL ?s = (VAL s)(v := (VAL s v)\<lparr>vdata := 0\<rparr>)" "KEY ?s = KEY s" "live ?s = live t" "r_heap ?s = r_heap t"
    by (simp_all add: detach_def t)
  have blk: "block ?s G p r \<Longrightarrow> block s G p r \<and> (vdata (VAL s v) \<noteq> 0 \<longrightarrow> p \<noteq> vdata (VAL s v))" for p r
  proof -
    assume b: "block ?s G p r"
    have b': "block s G p r" using b by (cases r) (auto simp: V split: if_splits)
    moreover have "p \<noteq> vdata (VAL s v)" if nz: "vdata (VAL s v) \<noteq> 0"
    proof
      assume p: "p = vdata (VAL s v)"
      have "block s G p (RData k v)" using k nz p by auto
      then have "r = RData k v" using reg_invD(8) [OF inv b'] by blast
      then show False using b by (auto simp: V)
    qed
    ultimately show ?thesis by blast
  qed
  have lv: "live t p = live s p" if "block ?s G p r" for p r
    using blk [OF that] l by (cases "vdata (VAL s v) = 0") auto
  show ?thesis
    unfolding reg_inv_def V
  proof (intro conjI allI impI)
    show "heap_inv (r_heap t)" by (rule t(1))
    fix k' cs' vs' assume g: "G k' = Some (cs', vs')"
    show "kchain ?s (children (KEY s k')) cs'"
      using reg_invD(2) [OF inv g] kchain_cong [of cs' ?s s] by (simp add: V)
    show "vchain ?s (vals (KEY s k')) vs'"
      using reg_invD(3) [OF inv g] vchain_cong [of vs' ?s s] by (simp add: V)
    show "distinct vs'" "set cs' \<subseteq> dom G" using reg_invD(4,5) [OF inv g] by simp_all
  next
    fix p r assume b: "block ?s G p r"
    show "p \<noteq> 0" "live t p \<noteq> None" using reg_invD(6) [OF inv, of p r] blk [OF b] lv [OF b] by auto
  next
    fix p k' w assume b: "block ?s G p (RData k' w)"
    have "w \<noteq> v" using b by (auto simp: V)
    then show "\<exists>n. live t p = Some n \<and> unat (vsize (((VAL s)(v := (VAL s v)\<lparr>vdata := 0\<rparr>)) w)) \<le> n"
      using reg_invD(7) [OF inv, of p k' w] blk [OF b] lv [OF b] by simp
  next
    fix p r r' assume "block ?s G p r" "block ?s G p r'"
    then show "r = r'" using blk reg_invD(8) [OF inv] by blast
  qed
qed

text \<open>The same update on lists of records.\<close>

fun upd_first :: "string \<Rightarrow> u32 \<times> u32 \<times> u8 list option \<Rightarrow> value_rec list \<Rightarrow> value_rec list" where
  "upd_first name t [] = []"
| "upd_first name t ((n, u) # rs) = (if ieq n name then (n, t) # rs else (n, u) # upd_first name t rs)"

definition put_value :: "string \<Rightarrow> u32 \<times> u32 \<times> u8 list option \<Rightarrow> value_rec list \<Rightarrow> value_rec list" where
  "put_value name t rs = (if \<exists>r \<in> set rs. ieq (fst r) name then upd_first name t rs else (copy_name 63 name, t) # rs)"

lemma upd_first_map:
  assumes "v = first (\<lambda>v. ieq (fst (f v)) name) vs" "v \<noteq> 0" "distinct vs" "\<And>w. w \<in> set vs \<Longrightarrow> w \<noteq> v \<Longrightarrow> f' w = f w" "f' v = (fst (f v), t)"
  shows "map f' vs = upd_first name t (map f vs)"
  using assms
proof (induction vs)
  case (Cons w vs)
  show ?case
  proof (cases "ieq (fst (f w)) name")
    case True
    then have v: "v = w" using Cons.prems(1) by simp
    then have "map f' vs = map f vs" using Cons.prems(3,4) by auto
    then show ?thesis using True v Cons.prems(5) by (cases "f w") simp
  next
    case False
    then have v: "v = first (\<lambda>v. ieq (fst (f v)) name) vs" using Cons.prems(1) by simp
    have "v \<in> set vs" using first_in [of "\<lambda>v. ieq (fst (f v)) name" vs] v Cons.prems(2) by simp
    then have "w \<noteq> v" using Cons.prems(3) by auto
    then have "f' w = f w" using Cons.prems(4) by simp
    then show ?thesis using False Cons.IH [OF v Cons.prems(2)] Cons.prems(3-5) by (cases "f w") simp
  qed
qed simp

lemma value_of_detach: "w \<noteq> v \<Longrightarrow> VAL t = VAL s \<Longrightarrow> rmem t = rmem s \<Longrightarrow> value_of (detach v t) w = value_of s w"
  by (simp add: value_of_def bytes_of_def detach_def)

lemma view_upd:
  assumes k: "G k = Some (cs, vs)" and K: "\<And>c. kname (KEY s' c) = kname (KEY s c)"
    and o: "\<And>k' cs' vs' w. G k' = Some (cs', vs') \<Longrightarrow> w \<in> set vs' \<Longrightarrow> k' \<noteq> k \<Longrightarrow> value_of s' w = value_of s w"
  shows "view s' G = (view s G)(k \<mapsto> (map (\<lambda>c. (kname (KEY s c), c)) cs, map (value_of s') vs))"
proof
  fix k'
  show "view s' G k' = ((view s G)(k \<mapsto> (map (\<lambda>c. (kname (KEY s c), c)) cs, map (value_of s') vs))) k'"
  proof (cases "k' = k")
    case True
    then show ?thesis using k by (simp add: view_def K)
  next
    case False
    show ?thesis
    proof (cases "G k'")
      case None
      then show ?thesis using False by (simp add: view_def)
    next
      case (Some p)
      obtain cs' vs' where p: "p = (cs', vs')" by fastforce
      have "map (value_of s') vs' = map (value_of s) vs'" using o [of k' cs' vs'] Some p False by simp
      then show ?thesis using False Some p by (simp add: view_def K)
    qed
  qed
qed

lemma inv_new_value:
  assumes inv: "reg_inv s G" and k: "G k = Some (cs, vs)" and v: "live s v = None" "v \<noteq> 0"
    and t: "heap_inv (r_heap t)" "live t = (live s)(v \<mapsto> m)" "KEY t = (KEY s)(k := (KEY s k)\<lparr>vals := v\<rparr>)"
      "VAL t = (VAL s)(v := x)" "vnext x = vals (KEY s k)" "vdata x = 0"
  shows "reg_inv t (G(k \<mapsto> (cs, v # vs)))"
proof -
  let ?G = "G(k \<mapsto> (cs, v # vs))"
  have fresh: "\<not> block s G v r" for r using reg_invD(6) [OF inv, of v r] v(1) by auto
  have nv: "v \<notin> set vs'" if "G k' = Some (cs', vs')" for k' cs' vs'
    using fresh [of "RVal k'"] that by auto
  have blk: "block t ?G p r \<Longrightarrow> p = v \<and> r = RVal k \<or> p \<noteq> v \<and> block s G p r" for p r
  proof -
    assume b: "block t ?G p r"
    have "p = v \<and> r = RVal k \<or> block s G p r"
    proof (cases r)
      case RKey
      then show ?thesis using b k by auto
    next
      case (RVal k')
      then show ?thesis using b k by (cases "k' = k") auto
    next
      case (RData k' w)
      then have "w \<noteq> v" using b t(4,6) by auto
      then show ?thesis using b k RData t(4) by (cases "k' = k") auto
    qed
    then show ?thesis using fresh by auto
  qed
  have lv: "live t p = live s p" if "p \<noteq> v" for p using that by (simp add: t(2))
  show ?thesis
    unfolding reg_inv_def
  proof (intro conjI allI impI)
    show "heap_inv (r_heap t)" by (rule t(1))
    fix k' cs' vs' assume g: "?G k' = Some (cs', vs')"
    show "kchain t (children (KEY t k')) cs'"
    proof -
      have "kchain s (children (KEY s k')) cs'" using g k reg_invD(2) [OF inv] by (auto split: if_splits)
      moreover have "children (KEY t k') = children (KEY s k')" by (simp add: t(3))
      moreover have "kchain t p cs' = kchain s p cs'" for p by (rule kchain_cong) (simp add: t(3))
      ultimately show ?thesis by simp
    qed
    show "vchain t (vals (KEY t k')) vs'"
    proof (cases "k' = k")
      case True
      have "vchain t p vs = vchain s p vs" for p using nv [OF k] by (intro vchain_cong) (auto simp: t(4))
      then show ?thesis using True g reg_invD(3) [OF inv k] v(2) by (auto simp: t(3-5))
    next
      case False
      then have g': "G k' = Some (cs', vs')" using g by simp
      have "vchain t p vs' = vchain s p vs'" for p using nv [OF g'] by (intro vchain_cong) (auto simp: t(4))
      then show ?thesis using False reg_invD(3) [OF inv g'] by (simp add: t(3))
    qed
    show "distinct vs'" using g k reg_invD(4) [OF inv] nv by (auto split: if_splits)
    have "set cs' \<subseteq> dom G"
    proof (cases "k' = k")
      case True
      then show ?thesis using g reg_invD(5) [OF inv k] by simp
    next
      case False
      then show ?thesis using g reg_invD(5) [OF inv, of k' cs' vs'] by simp
    qed
    then show "set cs' \<subseteq> dom ?G" by auto
  next
    fix p r assume b: "block t ?G p r"
    show "p \<noteq> 0" "live t p \<noteq> None" using blk [OF b] v(2) reg_invD(6) [OF inv, of p r] lv by (auto simp: t(2))
  next
    fix p k' w assume b: "block t ?G p (RData k' w)"
    then have "w \<noteq> v" using t(4,6) by auto
    moreover have "p \<noteq> v" "block s G p (RData k' w)" using blk [OF b] by auto
    ultimately show "\<exists>n. live t p = Some n \<and> unat (vsize (VAL t w)) \<le> n"
      using reg_invD(7) [OF inv, of p k' w] lv by (simp add: t(4))
  next
    fix p r r' assume "block t ?G p r" "block t ?G p r'"
    then show "r = r'" using blk reg_invD(8) [OF inv] by blast
  qed
qed

text \<open>What \<open>reg_set_value\<close> does to the abstract content of the key: it puts the value.\<close>

lemma reg_set_value_spec:
  assumes inv: "reg_inv s G" and k: "G k = Some (cs, vs)"
  shows "\<exists>s' v G'. reg_set_value k name ty (Some b) sz s = Some (s', v) \<and> reg_inv s' G' \<and> KEY s' = (KEY s)(k := (KEY s k)\<lparr>vals := vals (KEY s' k)\<rparr>) \<and>
    s_root s' = s_root s \<and> dom G' = dom G \<and> (\<forall>x cs vs. G x = Some (cs, vs) \<longrightarrow> (\<exists>vs'. G' x = Some (cs, vs'))) \<and>
    (v = 0 \<longrightarrow> view s' G' = view s G) \<and>
    (v \<noteq> 0 \<longrightarrow> (\<exists>d vs'. G' k = Some (cs, vs') \<and> (d = None \<or> d = Some (map b [0..<unat sz])) \<and>
      view s' G' = (view s G)(k \<mapsto> (map (\<lambda>c. (kname (KEY s c), c)) cs, put_value name (ty, sz, d) (map (value_of s) vs))) \<and>
      map (value_of s') vs' = put_value name (ty, sz, d) (map (value_of s) vs) \<and>
      v \<in> set vs' \<and> value_of s' v = (vname (VAL s' v), ty, sz, d)))"
proof -
  have k0: "k \<noteq> 0" using reg_invD(6) [OF inv, of k RKey] k by auto
  define f where "f = first (\<lambda>v. ieq (vname (VAL s v)) name) vs"
  have fv: "reg_find_value k name s = Some f"
    using find_value_chain [OF reg_invD(3) [OF inv k]] k0 by (simp add: reg_find_value_def f_def)
  have nz: "0 \<notin> set vs" by (rule vchain_nonzero [OF reg_invD(3) [OF inv k]])
  show ?thesis
  proof (cases "f = 0")
    case False
    then have fm: "f \<in> set vs" "ieq (vname (VAL s f)) name" using first_in [of "\<lambda>v. ieq (vname (VAL s v)) name" vs] by (simp_all add: f_def)
    obtain t where t: "(if vdata (VAL s f) \<noteq> 0 then r_free (vdata (VAL s f)) s else Some s) = Some t"
      "heap_inv (r_heap t)" "KEY t = KEY s" "VAL t = VAL s" "rmem t = rmem s" "s_root t = s_root s"
      "vdata (VAL s f) = 0 \<and> live t = live s \<or> vdata (VAL s f) \<noteq> 0 \<and> live t = (live s)(vdata (VAL s f) := None)"
    proof (cases "vdata (VAL s f) = 0")
      case True
      then show thesis using reg_invD(1) [OF inv] by (intro that [of s]) simp_all
    next
      case nd: False
      have "block s G (vdata (VAL s f)) (RData k f)" using k fm nd by auto
      then have l: "live s (vdata (VAL s f)) \<noteq> None" using reg_invD(6) [OF inv] by blast
      from r_free_ok [OF reg_invD(1) [OF inv] l] nd that show thesis by metis
    qed
    define s' where "s' = fill_value f ty (Some b) sz t"
    have run: "reg_set_value k name ty (Some b) sz s = Some (s', f)"
      using fv False t(1) by (simp add: reg_set_value_def s'_def)
    have di: "reg_inv (detach f t) G" by (rule detach_inv [OF inv k fm(1) t(2,3,4,7)])
    have dz: "vdata (VAL (detach f t) f) = 0" by (simp add: detach_def)
    have s'd: "s' = fill_value f ty (Some b) sz (detach f t)" unfolding s'_def fill_value_detach ..
    note F = fill_value_spec [OF di k fm(1) dz s'd]
    have K: "KEY s' = KEY s" using F(2) t(3) by (simp add: detach_def)
    have oth: "value_of s' w = value_of s w" if "G k' = Some (cs', vs')" "w \<in> set vs'" "w \<noteq> f" for k' cs' vs' w
      using F(5) [OF that] value_of_detach [OF that(3) t(4,5)] by simp
    obtain d where d: "value_of s' f = (vname (VAL s f), ty, sz, d)" "d = None \<or> d = Some (map b [0..<unat sz])"
      using F(4) t(4) by (auto simp: detach_def)
    have fst: "fst (value_of s w) = vname (VAL s w)" for w by (simp add: value_of_def)
    have f': "f = first (\<lambda>v. ieq (fst (value_of s v)) name) vs" by (simp add: f_def fst)
    have pv: "map (value_of s') vs = put_value name (ty, sz, d) (map (value_of s) vs)"
    proof -
      have "\<exists>r \<in> set (map (value_of s) vs). ieq (fst r) name" using fm by (auto simp: fst intro!: bexI [of _ f])
      moreover have "map (value_of s') vs = upd_first name (ty, sz, d) (map (value_of s) vs)"
        by (rule upd_first_map [OF f' False reg_invD(4) [OF inv k]]) (use oth [OF k] d(1) fst in auto)
      ultimately show ?thesis by (simp add: put_value_def)
    qed
    have "view s' G = (view s G)(k \<mapsto> (map (\<lambda>c. (kname (KEY s c), c)) cs, map (value_of s') vs))"
    proof (rule view_upd [where G = G and k = k and cs = cs and vs = vs, OF k])
      show "kname (KEY s' c) = kname (KEY s c)" for c by (simp add: K)
      show "value_of s' w = value_of s w" if "G k' = Some (cs', vs')" "w \<in> set vs'" "k' \<noteq> k" for k' cs' vs' w
        using oth [OF that(1,2)] value_owner [OF inv k fm(1) that(1)] that(2,3) by blast
    qed
    moreover have "s_root s' = s_root s" using F(3) t(6) by (simp add: detach_def)
    moreover have "vname (VAL s' f) = vname (VAL s f)" using d(1) by (simp add: value_of_def)
    ultimately show ?thesis
      using run F(1) K False d pv fm(1) k by (intro exI [of _ s'] exI [of _ f] exI [of _ G]) auto
  next
    case True
    obtain s1 v where a: "r_alloc sizeof_REG_VALUE s = (s1, v)" by fastforce
    have b88: "unat sizeof_REG_VALUE \<le> 2 ^ 64 - 16" by (simp add: sizeof_REG_VALUE_def)
    note A = r_alloc_cases [OF reg_invD(1) [OF inv] b88 a]
    show ?thesis
    proof (cases "v = 0")
      case v0: True
      have run: "reg_set_value k name ty (Some b) sz s = Some (s1, 0)"
        using fv True a v0 by (simp add: reg_set_value_def)
      have L: "live s1 = live s" using A(1) v0 by simp
      have blk: "block s1 G p r = block s G p r" for p r by (cases r) (simp_all add: A(4))
      have kc: "kchain s1 p ks = kchain s p ks" "vchain s1 p ws = vchain s p ws" for p ks ws
        by (rule kchain_cong vchain_cong, simp add: A(3,4))+
      have "reg_inv s1 G" using inv unfolding reg_inv_def blk kc L A(3,4) using A(2) by blast
      moreover have "view s1 G = view s G"
      proof
        have vo: "value_of s1 = value_of s" by (rule ext) (simp add: value_of_def bytes_of_def A(4,5))
        show "view s1 G x = view s G x" for x by (simp add: view_def A(3) vo)
      qed
      ultimately show ?thesis using run A(3,6)
        by (intro exI [of _ s1] exI [of _ "0 :: nat"] exI [of _ G]) auto
    next
      case nv: False
      then obtain m where L: "live s v = None" "live s1 = (live s)(v \<mapsto> m)" using A(1) by auto
      define s3 where "s3 = s1\<lparr>VAL := (VAL s1)(v := (VAL s1 v)\<lparr>vname := strcpyn name MAX_NAME, vnext := vals (KEY s1 k)\<rparr>),
        KEY := (KEY s1)(k := (KEY s1 k)\<lparr>vals := v\<rparr>)\<rparr>"
      define s' where "s' = fill_value v ty (Some b) sz s3"
      have run: "reg_set_value k name ty (Some b) sz s = Some (s', v)"
        using fv True a nv by (simp add: reg_set_value_def s'_def s3_def)
      let ?G = "G(k \<mapsto> (cs, v # vs))"
      have V3: "VAL (detach v s3) = (VAL s)(v := (VAL s v)\<lparr>vname := copy_name 63 name, vnext := vals (KEY s k), vdata := 0\<rparr>)"
        by (simp add: detach_def s3_def A(3,4) strcpyn_def MAX_NAME_def)
      have K3: "KEY (detach v s3) = (KEY s)(k := (KEY s k)\<lparr>vals := v\<rparr>)" by (simp add: detach_def s3_def A(3))
      have di: "reg_inv (detach v s3) ?G"
        by (rule inv_new_value [OF inv k L(1) nv _ _ K3 V3]) (simp_all add: detach_def s3_def A(2) L(2))
      have Gk: "?G k = Some (cs, v # vs)" by simp
      have vm: "v \<in> set (v # vs)" by simp
      have dz: "vdata (VAL (detach v s3) v) = 0" by (simp add: V3)
      have s'd: "s' = fill_value v ty (Some b) sz (detach v s3)" unfolding s'_def fill_value_detach ..
      note F = fill_value_spec [OF di Gk vm dz s'd]
      have K: "KEY s' = (KEY s)(k := (KEY s k)\<lparr>vals := v\<rparr>)" using F(2) K3 by simp
      have fresh: "v \<notin> set vs'" if "G k' = Some (cs', vs')" for k' cs' vs'
        using reg_invD(6) [OF inv, of v "RVal k'"] that L(1) by auto
      have oth: "value_of s' w = value_of s w" if g: "G k' = Some (cs', vs')" "w \<in> set vs'" for k' cs' vs' w
      proof -
        have wv: "w \<noteq> v" using fresh [OF g(1)] g(2) by auto
        have "value_of s' w = value_of (detach v s3) w"
        proof (cases "k' = k")
          case True
          then show ?thesis using F(5) [OF Gk _ wv] g k by simp
        next
          case False
          then show ?thesis using F(5) [of k' cs' vs' w] g wv by simp
        qed
        also have "\<dots> = value_of s w" using wv by (simp add: value_of_def bytes_of_def V3) (simp add: detach_def s3_def A(5))
        finally show ?thesis .
      qed
      obtain d where d: "value_of s' v = (copy_name 63 name, ty, sz, d)" "d = None \<or> d = Some (map b [0..<unat sz])"
        using F(4) by (auto simp: V3)
      have nf: "\<not> (\<exists>r \<in> set (map (value_of s) vs). ieq (fst r) name)"
        using True first_mem [OF nz, of "\<lambda>v. ieq (vname (VAL s v)) name"] by (auto simp: f_def value_of_def)
      have pv: "map (value_of s') (v # vs) = put_value name (ty, sz, d) (map (value_of s) vs)"
        using nf d(1) oth [OF k] by (auto simp: put_value_def)
      have "view s' ?G = (view s G)(k \<mapsto> (map (\<lambda>c. (kname (KEY s c), c)) cs, map (value_of s') (v # vs)))"
      proof
        fix k'
        show "view s' ?G k' = ((view s G)(k \<mapsto> (map (\<lambda>c. (kname (KEY s c), c)) cs, map (value_of s') (v # vs)))) k'"
        proof (cases "k' = k \<or> G k' = None")
          case True
          then show ?thesis by (auto simp: view_def K)
        next
          case False
          then obtain cs' vs' where g: "G k' = Some (cs', vs')" by auto
          then have "map (value_of s') vs' = map (value_of s) vs'" using oth [OF g] by simp
          then show ?thesis using False g by (auto simp: view_def K)
        qed
      qed
      moreover have "s_root s' = s_root s" using F(3) by (simp add: detach_def s3_def A(6))
      moreover have "vname (VAL s' v) = copy_name 63 name" using d(1) by (simp add: value_of_def)
      moreover have "\<forall>x cs vs. G x = Some (cs, vs) \<longrightarrow> (\<exists>vs'. ?G x = Some (cs, vs'))" using k by auto
      moreover have "dom ?G = dom G" using k by auto
      moreover have "\<exists>vs'. ?G k = Some (cs, vs') \<and> map (value_of s') vs' = put_value name (ty, sz, d) (map (value_of s) vs) \<and> v \<in> set vs'"
        using pv by auto
      moreover define G' where "G' = ?G"
      ultimately show ?thesis using run F(1) K nv d pv unfolding G'_def [symmetric]
        by (intro exI [of _ s'] exI [of _ v] exI [of _ G']) auto
    qed
  qed
qed

section \<open>Creating keys\<close>

text \<open>\<open>s'\<close> has the keys of \<open>s\<close> with their names and values; the children that were added to a key differ
  in name from those it had.\<close>

definition grows :: "reg_state \<Rightarrow> ghost \<Rightarrow> reg_state \<Rightarrow> ghost \<Rightarrow> bool" where
  "grows s G s' G' \<longleftrightarrow> (\<forall>k cs vs. G k = Some (cs, vs) \<longrightarrow>
     (\<exists>ns. G' k = Some (ns @ cs, vs) \<and> map (value_of s') vs = map (value_of s) vs \<and> kname (KEY s' k) = kname (KEY s k) \<and>
        (\<forall>n \<in> set ns. \<forall>c \<in> set cs. \<not> ieq (kname (KEY s' n)) (kname (KEY s' c)))))"

lemma grows_refl [simp]: "grows s G s G"
  by (simp add: grows_def)

lemma growsD: "grows s G s' G' \<Longrightarrow> G k = Some (cs, vs) \<Longrightarrow>
    \<exists>ns. G' k = Some (ns @ cs, vs) \<and> map (value_of s') vs = map (value_of s) vs \<and> kname (KEY s' k) = kname (KEY s k) \<and>
        (\<forall>n \<in> set ns. \<forall>c \<in> set cs. \<not> ieq (kname (KEY s' n)) (kname (KEY s' c)))"
  by (simp add: grows_def)

lemma grows_dom: "grows s G s' G' \<Longrightarrow> k \<in> dom G \<Longrightarrow> k \<in> dom G'"
  unfolding grows_def by fastforce

lemma grows_trans:
  assumes i: "reg_inv s1 G1" and a: "grows s G s1 G1" and b: "grows s1 G1 s2 G2"
  shows "grows s G s2 G2"
  unfolding grows_def
proof (intro allI impI)
  fix k cs vs assume g: "G k = Some (cs, vs)"
  obtain ns where ns: "G1 k = Some (ns @ cs, vs)" "map (value_of s1) vs = map (value_of s) vs" "kname (KEY s1 k) = kname (KEY s k)"
    "\<forall>n \<in> set ns. \<forall>c \<in> set cs. \<not> ieq (kname (KEY s1 n)) (kname (KEY s1 c))" using growsD [OF a g] by blast
  obtain ms where ms: "G2 k = Some (ms @ ns @ cs, vs)" "map (value_of s2) vs = map (value_of s1) vs" "kname (KEY s2 k) = kname (KEY s1 k)"
    "\<forall>n \<in> set ms. \<forall>c \<in> set (ns @ cs). \<not> ieq (kname (KEY s2 n)) (kname (KEY s2 c))" using growsD [OF b ns(1)] by blast
  have nm: "kname (KEY s2 x) = kname (KEY s1 x)" if "x \<in> set (ns @ cs)" for x
  proof -
    have "x \<in> dom G1" using reg_invD(5) [OF i ns(1)] that by blast
    then obtain cs' vs' where "G1 x = Some (cs', vs')" by auto
    then show ?thesis using growsD [OF b] by blast
  qed
  have "\<not> ieq (kname (KEY s2 n)) (kname (KEY s2 c))" if "n \<in> set (ms @ ns)" "c \<in> set cs" for n c
    using that ms(4) ns(4) nm by (cases "n \<in> set ms") auto
  then show "\<exists>ns. G2 k = Some (ns @ cs, vs) \<and> map (value_of s2) vs = map (value_of s) vs \<and> kname (KEY s2 k) = kname (KEY s k) \<and>
      (\<forall>n \<in> set ns. \<forall>c \<in> set cs. \<not> ieq (kname (KEY s2 n)) (kname (KEY s2 c)))"
    using ms ns by (intro exI [of _ "ms @ ns"]) auto
qed

lemma find_child_spec:
  assumes inv: "reg_inv s G" and k: "G k = Some (cs, vs)"
  shows "reg_find_child k name s = Some (first (\<lambda>c. ieq (kname (KEY s c)) name) cs)"
    "first (\<lambda>c. ieq (kname (KEY s c)) name) cs \<noteq> 0 \<Longrightarrow> first (\<lambda>c. ieq (kname (KEY s c)) name) cs \<in> dom G"
proof -
  have "k \<noteq> 0" using reg_invD(6) [OF inv, of k RKey] k by auto
  then show "reg_find_child k name s = Some (first (\<lambda>c. ieq (kname (KEY s c)) name) cs)"
    using find_child_chain [OF reg_invD(2) [OF inv k]] by (simp add: reg_find_child_def)
  show "first (\<lambda>c. ieq (kname (KEY s c)) name) cs \<noteq> 0 \<Longrightarrow> first (\<lambda>c. ieq (kname (KEY s c)) name) cs \<in> dom G"
    using first_in reg_invD(5) [OF inv k] by blast
qed

lemma first_append_skip: "\<forall>n \<in> set ns. \<not> P n \<Longrightarrow> first P (ns @ cs) = first P cs"
  by (induction ns) auto

lemma grows_find:
  assumes i: "reg_inv s G" "reg_inv s' G'" and g: "grows s G s' G'" and k: "k \<in> dom G"
    and f: "reg_find_child k name s = Some c" "c \<noteq> 0"
  shows "reg_find_child k name s' = Some c"
proof -
  obtain cs vs where G: "G k = Some (cs, vs)" using k by auto
  obtain ns where ns: "G' k = Some (ns @ cs, vs)" "\<forall>n \<in> set ns. \<forall>c \<in> set cs. \<not> ieq (kname (KEY s' n)) (kname (KEY s' c))"
    using growsD [OF g G] by blast
  have nm: "kname (KEY s' x) = kname (KEY s x)" if x: "x \<in> set cs" for x
  proof -
    obtain cs' vs' where "G x = Some (cs', vs')" using reg_invD(5) [OF i(1) G] x by auto
    then show ?thesis using growsD [OF g] by blast
  qed
  have c: "c = first (\<lambda>c. ieq (kname (KEY s c)) name) cs" using f(1) find_child_spec(1) [OF i(1) G] by simp
  have cm: "c \<in> set cs" "ieq (kname (KEY s c)) name" using first_in f(2) unfolding c by blast+
  have "\<not> ieq (kname (KEY s' n)) name" if "n \<in> set ns" for n
    using ns(2) that cm nm ieq_trans ieq_sym by metis
  then have "first (\<lambda>c. ieq (kname (KEY s' c)) name) (ns @ cs) = first (\<lambda>c. ieq (kname (KEY s' c)) name) cs"
    by (intro first_append_skip) blast
  also have "\<dots> = c"
  proof -
    have "first (\<lambda>c. ieq (kname (KEY s' c)) name) xs = first (\<lambda>c. ieq (kname (KEY s c)) name) xs" if "set xs \<subseteq> set cs" for xs
      using that nm by (induction xs) auto
    then show ?thesis using c by simp
  qed
  finally show ?thesis using find_child_spec(1) [OF i(2) ns(1), of name] by simp
qed

lemma inv_new_key:
  assumes inv: "reg_inv s G" and k: "G k = Some (cs, vs)" and c: "live s c = None" "c \<noteq> 0"
    and t: "heap_inv (r_heap t)" "live t = (live s)(c \<mapsto> m)" "VAL t = VAL s"
      "KEY t = (KEY s)(c := \<lparr>kname = nm, parent = k, children = 0, sibling = children (KEY s k), vals = 0\<rparr>,
        k := (KEY s k)\<lparr>children := c\<rparr>)"
  shows "reg_inv t (G(c \<mapsto> ([], []), k \<mapsto> (c # cs, vs)))"
proof -
  let ?G = "G(c \<mapsto> ([], []), k \<mapsto> (c # cs, vs))"
  have fresh: "\<not> block s G c r" for r using reg_invD(6) [OF inv, of c r] c(1) by auto
  have cG: "c \<notin> dom G" using fresh [of RKey] by simp
  have ck: "c \<noteq> k" using cG k by auto
  have ch: "c \<notin> set cs'" if "G k' = Some (cs', vs')" for k' cs' vs' using reg_invD(5) [OF inv that] cG by auto
  have G_old: "?G k' = Some (cs', vs') \<Longrightarrow> k' \<noteq> c \<Longrightarrow> (\<exists>cs0. G k' = Some (cs0, vs'))" for k' cs' vs'
    using k by (auto split: if_splits)
  have blk: "block t ?G p r \<Longrightarrow> p = c \<and> r = RKey \<or> p \<noteq> c \<and> block s G p r" for p r
  proof -
    assume b: "block t ?G p r"
    have "p = c \<and> r = RKey \<or> block s G p r"
    proof (cases r)
      case RKey
      then show ?thesis using b k by auto
    next
      case (RVal k')
      then have "k' \<noteq> c" using b ck by auto
      then show ?thesis using b RVal G_old by fastforce
    next
      case (RData k' w)
      then have "k' \<noteq> c" using b ck by auto
      then show ?thesis using b RData t(3) G_old by fastforce
    qed
    then show ?thesis using fresh by auto
  qed
  have lv: "live t p = live s p" if "p \<noteq> c" for p using that by (simp add: t(2))
  have chain: "kchain t p xs = kchain s p xs" if "c \<notin> set xs" for p xs
    using that ck by (intro kchain_cong) (auto simp: t(4))
  show ?thesis
    unfolding reg_inv_def
  proof (intro conjI allI impI)
    show "heap_inv (r_heap t)" by (rule t(1))
    fix k' cs' vs' assume g: "?G k' = Some (cs', vs')"
    show "kchain t (children (KEY t k')) cs'"
    proof (cases "k' = k")
      case True
      then have cs': "cs' = c # cs" using g by simp
      have "kchain t (children (KEY s k)) cs" using chain [OF ch [OF k]] reg_invD(2) [OF inv k] by simp
      then show ?thesis using True c(2) ck by (simp add: cs' t(4))
    next
      case False
      show ?thesis
      proof (cases "k' = c")
        case True
        then show ?thesis using g ck by (simp add: t(4))
      next
        case nc: False
        then have g': "G k' = Some (cs', vs')" using g False by simp
        show ?thesis using chain [OF ch [OF g']] reg_invD(2) [OF inv g'] False nc by (simp add: t(4))
      qed
    qed
    show "vchain t (vals (KEY t k')) vs'"
    proof (cases "k' = c")
      case True
      then show ?thesis using g ck by (simp add: t(4))
    next
      case False
      then obtain cs0 where g': "G k' = Some (cs0, vs')" using G_old [OF g] by blast
      have "vchain t p vs' = vchain s p vs'" for p by (rule vchain_cong) (simp add: t(3))
      then show ?thesis using reg_invD(3) [OF inv g'] False by (cases "k' = k") (simp_all add: t(4))
    qed
    show "distinct vs'"
    proof (cases "k' = c")
      case True
      then show ?thesis using g ck by simp
    next
      case False
      then show ?thesis using G_old [OF g] reg_invD(4) [OF inv] by blast
    qed
    show "set cs' \<subseteq> dom ?G"
    proof -
      have "set cs' \<subseteq> insert c (dom G)"
        using g reg_invD(5) [OF inv k] reg_invD(5) [OF inv, of k' cs' vs'] by (auto split: if_splits)
      then show ?thesis by auto
    qed
  next
    fix p r assume b: "block t ?G p r"
    show "p \<noteq> 0" "live t p \<noteq> None" using blk [OF b] c(2) reg_invD(6) [OF inv, of p r] lv by (auto simp: t(2))
  next
    fix p k' w assume b: "block t ?G p (RData k' w)"
    have "p \<noteq> c" "block s G p (RData k' w)" using blk [OF b] by auto
    then show "\<exists>n. live t p = Some n \<and> unat (vsize (VAL t w)) \<le> n"
      using reg_invD(7) [OF inv, of p k' w] lv by (simp add: t(3))
  next
    fix p r r' assume "block t ?G p r" "block t ?G p r'"
    then show "r = r'" using blk reg_invD(8) [OF inv] by blast
  qed
qed

lemma get_or_create_spec:
  assumes inv: "reg_inv s G" and k: "k \<in> dom G" and nm: "length name \<le> 63"
  shows "\<exists>s' c G'. reg_get_or_create_child k name s = Some (s', c) \<and> reg_inv s' G' \<and> grows s G s' G' \<and> s_root s' = s_root s \<and>
    (c \<noteq> 0 \<longrightarrow> c \<in> dom G' \<and> reg_find_child k name s' = Some c)"
proof -
  obtain cs vs where G: "G k = Some (cs, vs)" using k by auto
  define f where "f = first (\<lambda>c. ieq (kname (KEY s c)) name) cs"
  have fc: "reg_find_child k name s = Some f" using find_child_spec(1) [OF inv G] by (simp add: f_def)
  show ?thesis
  proof (cases "f = 0")
    case False
    then have "reg_get_or_create_child k name s = Some (s, f)" using fc by (simp add: reg_get_or_create_child_def)
    moreover have "f \<in> dom G" using find_child_spec(2) [OF inv G] False by (simp add: f_def)
    ultimately show ?thesis using inv fc grows_refl by blast
  next
    case True
    obtain s1 c where a: "r_alloc sizeof_REG_KEY s = (s1, c)" by fastforce
    have b96: "unat sizeof_REG_KEY \<le> 2 ^ 64 - 16" by (simp add: sizeof_REG_KEY_def)
    note A = r_alloc_cases [OF reg_invD(1) [OF inv] b96 a]
    show ?thesis
    proof (cases "c = 0")
      case c0: True
      have run: "reg_get_or_create_child k name s = Some (s1, 0)"
        using fc True a c0 by (simp add: reg_get_or_create_child_def reg_alloc_key_def)
      have L: "live s1 = live s" using A(1) c0 by simp
      have blk: "block s1 G p r = block s G p r" for p r by (cases r) (simp_all add: A(4))
      have kc: "kchain s1 p ks = kchain s p ks" "vchain s1 p ws = vchain s p ws" for p ks ws
        by (rule kchain_cong vchain_cong, simp add: A(3,4))+
      have "reg_inv s1 G" using inv unfolding reg_inv_def blk kc L A(3,4) using A(2) by blast
      moreover have vo: "value_of s1 = value_of s" by (rule ext) (simp add: value_of_def bytes_of_def A(4,5))
      moreover have "grows s G s1 G" unfolding grows_def by (simp add: vo A(3))
      ultimately show ?thesis using run A(6) by blast
    next
      case nc: False
      then obtain m where L: "live s c = None" "live s1 = (live s)(c \<mapsto> m)" using A(1) by auto
      let ?G = "G(c \<mapsto> ([], []), k \<mapsto> (c # cs, vs))"
      have cG: "c \<notin> dom G" using reg_invD(6) [OF inv, of c RKey] L(1) by auto
      have ck: "c \<noteq> k" using cG k by auto
      define nk where "nk = \<lparr>kname = name, parent = k, children = 0, sibling = children (KEY s k), vals = 0\<rparr>"
      define s3 where "s3 = s1\<lparr>KEY := (KEY s)(c := nk, k := (KEY s k)\<lparr>children := c\<rparr>)\<rparr>"
      have run: "reg_get_or_create_child k name s = Some (s3, c)"
        using fc True a nc ck nm
        by (simp add: reg_get_or_create_child_def reg_alloc_key_def s3_def nk_def A(3) strcpyn_def MAX_NAME_def Let_def)
      have i3: "reg_inv s3 ?G"
        by (rule inv_new_key [OF inv G L(1) nc]) (simp_all add: s3_def nk_def A(2,4) L(2))
      have G3: "?G k = Some (c # cs, vs)" by simp
      have find: "reg_find_child k name s3 = Some c"
        using find_child_spec(1) [OF i3 G3, of name] ck by (simp add: s3_def nk_def)
      have nz: "0 \<notin> set cs" by (rule kchain_nonzero [OF reg_invD(2) [OF inv G]])
      have nomatch: "\<not> ieq (kname (KEY s x)) name" if "x \<in> set cs" for x
        using True first_mem [OF nz, of "\<lambda>c. ieq (kname (KEY s c)) name"] that by (auto simp: f_def)
      have K3: "kname (KEY s3 x) = kname (KEY s x)" if "x \<noteq> c" for x using that by (simp add: s3_def)
      have vo: "value_of s3 = value_of s"
        by (rule ext) (simp add: value_of_def bytes_of_def s3_def A(4,5))
      have "grows s G s3 ?G"
        unfolding grows_def
      proof (intro allI impI)
        fix k' cs' vs' assume g: "G k' = Some (cs', vs')"
        have kc: "k' \<noteq> c" using g cG by auto
        show "\<exists>ns. ?G k' = Some (ns @ cs', vs') \<and> map (value_of s3) vs' = map (value_of s) vs' \<and> kname (KEY s3 k') = kname (KEY s k') \<and>
          (\<forall>n \<in> set ns. \<forall>c \<in> set cs'. \<not> ieq (kname (KEY s3 n)) (kname (KEY s3 c)))"
        proof (cases "k' = k")
          case True
          then have e: "cs' = cs" "vs' = vs" using g G by simp_all
          have "\<not> ieq (kname (KEY s3 c)) (kname (KEY s3 x))" if x: "x \<in> set cs" for x
          proof -
            have "x \<noteq> c" using reg_invD(5) [OF inv G] x cG by auto
            then have "kname (KEY s3 x) = kname (KEY s x)" by (rule K3)
            moreover have "kname (KEY s3 c) = name" using ck by (simp add: s3_def nk_def)
            ultimately show ?thesis using nomatch [OF x] ieq_sym by metis
          qed
          then show ?thesis using True e K3 [OF kc] by (intro exI [of _ "[c]"]) (simp add: vo)
        next
          case False
          then show ?thesis using g kc K3 [OF kc] by (intro exI [of _ "[]"]) (simp add: vo)
        qed
      qed
      moreover have "c \<in> dom ?G" by simp
      moreover have "s_root s3 = s_root s" by (simp add: s3_def A(6))
      ultimately show ?thesis using run i3 find by blast
    qed
  qed
qed

section \<open>Paths\<close>

lemma resolve_create_spec:
  assumes "reg_inv s G" "k \<in> dom G" "cr"
  shows "\<exists>s' c G'. resolve_loop cr k p s = Some (s', c) \<and> reg_inv s' G' \<and> grows s G s' G' \<and> s_root s' = s_root s \<and>
    (c \<noteq> 0 \<longrightarrow> c \<in> dom G' \<and> resolve_loop False k p s' = Some (s', c))"
  using assms
proof (induction cr k p s arbitrary: G rule: resolve_loop.induct)
  case (1 create k s)
  then show ?case by (intro exI [of _ s] exI [of _ k] exI [of _ G]) simp
next
  case (2 create k x p s)
  show ?case
  proof (cases "is_sep x")
    case True
    then show ?thesis using 2(1) [OF True 2(3,4,5)] by simp
  next
    case False
    define name where "name = take (MAX_NAME - 1) (takeWhile (\<lambda>c. \<not> is_sep c) (x # p))"
    have len: "length name \<le> 63" by (simp add: name_def MAX_NAME_def)
    obtain s1 c G1 where a: "reg_get_or_create_child k name s = Some (s1, c)" "reg_inv s1 G1" "grows s G s1 G1" "s_root s1 = s_root s"
      "c \<noteq> 0 \<longrightarrow> c \<in> dom G1 \<and> reg_find_child k name s1 = Some c"
      using get_or_create_spec [OF 2(3,4) len] by blast
    have step: "resolve_loop create k (x # p) s = (if c = 0 then Some (s1, 0) else resolve_loop create c (drop (length name) (x # p)) s1)"
      using a(1) 2(5) False by (simp add: Let_def name_def)
    show ?thesis
    proof (cases "c = 0")
      case True
      then show ?thesis using step a by auto
    next
      case nc: False
      have k1: "c \<in> dom G1" using a(5) nc by simp
      obtain s' d G' where b: "resolve_loop create c (drop (length name) (x # p)) s1 = Some (s', d)" "reg_inv s' G'" "grows s1 G1 s' G'"
        "s_root s' = s_root s1" "d \<noteq> 0 \<longrightarrow> d \<in> dom G' \<and> resolve_loop False c (drop (length name) (x # p)) s' = Some (s', d)"
        using 2(2) [OF False name_def _ refl nc a(2) k1 2(5)] a(1) 2(5) by auto
      have "reg_find_child k name s' = Some c"
        by (rule grows_find [OF a(2) b(2,3)]) (use grows_dom [OF a(3) 2(4)] a(5) nc in auto)
      then have "resolve_loop False k (x # p) s' = resolve_loop False c (drop (length name) (x # p)) s'"
        using False nc by (simp add: Let_def name_def)
      then show ?thesis using step nc b a(4) grows_trans [OF a(2,3) b(3)] by auto
    qed
  qed
qed

lemma resolve_open:
  assumes "reg_inv s G" "reg_inv s' G'" "\<And>x. kname (KEY s' x) = kname (KEY s x)"
    "\<And>x cs vs. G x = Some (cs, vs) \<Longrightarrow> \<exists>vs'. G' x = Some (cs, vs')" "k \<in> dom G" "\<not> cr"
  shows "\<exists>c. resolve_loop cr k p s = Some (s, c) \<and> (c \<noteq> 0 \<longrightarrow> c \<in> dom G) \<and> resolve_loop cr k p s' = Some (s', c)"
  using assms
proof (induction cr k p s rule: resolve_loop.induct)
  case (1 create k s)
  then show ?case by simp
next
  case (2 create k x p s)
  note prem = 2(3-8)
  show ?case
  proof (cases "is_sep x")
    case True
    then show ?thesis using 2(1) [OF True prem] by simp
  next
    case False
    define name where "name = take (MAX_NAME - 1) (takeWhile (\<lambda>c. \<not> is_sep c) (x # p))"
    obtain cs vs where G: "G k = Some (cs, vs)" using prem(5) by auto
    obtain vs' where G': "G' k = Some (cs, vs')" using prem(4) [OF G] by blast
    define c where "c = first (\<lambda>c. ieq (kname (KEY s c)) name) cs"
    have f: "reg_find_child k name s = Some c" "reg_find_child k name s' = Some c"
      using find_child_spec(1) [OF prem(1) G] find_child_spec(1) [OF prem(2) G'] by (simp_all add: c_def prem(3))
    have cd: "c \<noteq> 0 \<Longrightarrow> c \<in> dom G" using find_child_spec(2) [OF prem(1) G] unfolding c_def by blast
    have step: "resolve_loop create k (x # p) t = (if c = 0 then Some (t, 0) else resolve_loop create c (drop (length name) (x # p)) t)"
      if "reg_find_child k name t = Some c" for t
      using that prem(6) False by (simp add: Let_def name_def)
    show ?thesis
    proof (cases "c = 0")
      case True
      then show ?thesis using step f by simp
    next
      case nc: False
      show ?thesis using 2(2) [OF False name_def _ refl nc prem(1-4) cd [OF nc] prem(6)] f prem(6) step nc by auto
    qed
  qed
qed

section \<open>Setting a value and reading it back\<close>

lemma put_value_lookup:
  assumes "length name \<le> 63"
  shows "\<exists>n. find (\<lambda>r. ieq (fst r) name) (put_value name t rs) = Some (n, t)"
proof (cases "\<exists>r \<in> set rs. ieq (fst r) name")
  case True
  then have "\<exists>n. find (\<lambda>r. ieq (fst r) name) (upd_first name t rs) = Some (n, t)"
    by (induction name t rs rule: upd_first.induct) auto
  then show ?thesis using True by (simp add: put_value_def)
next
  case False
  then show ?thesis using assms by (auto simp: put_value_def copy_name_def)
qed

lemma find_first: "0 \<notin> set vs \<Longrightarrow> find (\<lambda>r. P (fst r)) (map (value_of s) vs) = Some r \<Longrightarrow>
    first (\<lambda>v. P (vname (VAL s v))) vs \<noteq> 0 \<and> value_of s (first (\<lambda>v. P (vname (VAL s v))) vs) = r"
  by (induction vs) (auto simp: value_of_def split: if_splits)

lemma get_ascii_eq:
  assumes inv: "reg_inv s G" and p: "resolve_loop False (s_root s) path s = Some (s, k)" and root: "s_root s \<noteq> 0" and k: "G k = Some (cs, vs)"
    and f: "find (\<lambda>r. ieq (fst r) name) (map (value_of s) vs) = Some (n, ty, sz, d)"
  shows "registry_get_value_ascii path name mx s =
    (if sz \<noteq> 0 \<and> mx \<noteq> 0 \<and> d = None then None
     else Some (Some (ty, sz, take (unat mx) (case d of None \<Rightarrow> [] | Some l \<Rightarrow> l))))"
proof -
  have k0: "k \<noteq> 0" using reg_invD(6) [OF inv, of k RKey] k by auto
  define v where "v = first (\<lambda>v. ieq (vname (VAL s v)) name) vs"
  have v: "v \<noteq> 0" "value_of s v = (n, ty, sz, d)"
    using find_first [where P = "\<lambda>n. ieq n name", OF vchain_nonzero [OF reg_invD(3) [OF inv k]] f] by (simp_all add: v_def)
  have fv: "reg_find_value k name s = Some v"
    using find_value_chain [OF reg_invD(3) [OF inv k]] k0 by (simp add: reg_find_value_def v_def)
  have V: "vtype (VAL s v) = ty" "vsize (VAL s v) = sz" "bytes_of s v = d" using v(2) by (simp_all add: value_of_def)
  have res: "reg_resolve_path (s_root s) (Some path) False s = Some (s, k)" using p root by (simp add: reg_resolve_path_def)
  have get: "registry_get_value_ascii path name mx s =
      (if min sz mx \<noteq> 0 \<and> vdata (VAL s v) = 0 then None
       else Some (Some (ty, sz, map (\<lambda>i. rmem s (vdata (VAL s v) + i)) [0..<unat (min sz mx)])))"
    using k0 v(1) by (simp add: registry_get_value_ascii_def res fv V Let_def)
  have z: "min sz mx \<noteq> 0 \<longleftrightarrow> sz \<noteq> 0 \<and> mx \<noteq> 0" by (auto simp: min_def)
  have m: "unat (min sz mx) = min (unat sz) (unat mx)" by (simp add: min_def word_le_nat_alt)
  show ?thesis
  proof (cases "sz = 0 \<or> mx = 0")
    case True
    then have "take (unat mx) (case d of None \<Rightarrow> [] | Some l \<Rightarrow> l) = []"
      using V(2,3) by (auto simp: bytes_of_def split: if_splits)
    then show ?thesis using True get z m by auto
  next
    case False
    show ?thesis
    proof (cases "vdata (VAL s v) = 0")
      case True
      then have "d = None" using V(2,3) False by (simp add: bytes_of_def)
      then show ?thesis using True False get z by simp
    next
      case nd: False
      have d: "d = Some (map (\<lambda>i. rmem s (vdata (VAL s v) + i)) [0..<unat sz])" using V(2,3) False nd by (simp add: bytes_of_def)
      have "take (unat mx) [0..<unat sz] = [0..<min (unat sz) (unat mx)]" by (rule nth_equalityI) auto
      then show ?thesis using nd get d by (simp add: m take_map)
    qed
  qed
qed

lemma registry_set_ascii_spec:
  assumes inv: "reg_inv s G" and root: "s_root s \<in> dom G" and nm: "length name \<le> 63"
  obtains s' ok G' k cs vs d n where
    "registry_set_value_ascii path name ty (Some b) sz s = Some (s', ok)" "reg_inv s' G'" "s_root s' = s_root s" "s_root s \<in> dom G'"
    "ok \<Longrightarrow> resolve_loop False (s_root s') path s' = Some (s', k)" "ok \<Longrightarrow> G' k = Some (cs, vs)"
    "ok \<Longrightarrow> find (\<lambda>r. ieq (fst r) name) (map (value_of s') vs) = Some (n, ty, sz, d)"
    "d = None \<or> d = Some (map b [0..<unat sz])"
proof -
  have r0: "s_root s \<noteq> 0" using reg_invD(6) [OF inv, of "s_root s" RKey] root by auto
  obtain s1 k G1 where a: "resolve_loop True (s_root s) path s = Some (s1, k)" "reg_inv s1 G1" "grows s G s1 G1" "s_root s1 = s_root s"
    "k \<noteq> 0 \<longrightarrow> k \<in> dom G1 \<and> resolve_loop False (s_root s) path s1 = Some (s1, k)"
    using resolve_create_spec [OF inv root, of True path] by auto
  have res: "reg_resolve_path (s_root s) (Some path) True s = Some (s1, k)" using a(1) r0 by (simp add: reg_resolve_path_def)
  show thesis
  proof (cases "k = 0")
    case True
    then have "registry_set_value_ascii path name ty (Some b) sz s = Some (s1, False)"
      by (simp add: registry_set_value_ascii_def res)
    then show thesis using a(2,4) grows_dom [OF a(3) root] by (intro that [where s' = s1 and G' = G1 and ok = False and d = None]) auto
  next
    case False
    then obtain cs vs where G1: "G1 k = Some (cs, vs)" using a(5) by auto
    from reg_set_value_spec [OF a(2) G1, of name ty b sz] obtain s' v G' where s':
      "reg_set_value k name ty (Some b) sz s1 = Some (s', v)" "reg_inv s' G'" "KEY s' = (KEY s1)(k := (KEY s1 k)\<lparr>vals := vals (KEY s' k)\<rparr>)"
      "s_root s' = s_root s1" "dom G' = dom G1" "\<forall>x cs vs. G1 x = Some (cs, vs) \<longrightarrow> (\<exists>vs'. G' x = Some (cs, vs'))"
      and sp: "v \<noteq> 0 \<longrightarrow> (\<exists>d vs'. G' k = Some (cs, vs') \<and> (d = None \<or> d = Some (map b [0..<unat sz])) \<and>
        map (value_of s') vs' = put_value name (ty, sz, d) (map (value_of s1) vs))" by blast
    have run: "registry_set_value_ascii path name ty (Some b) sz s = Some (s', v \<noteq> 0)"
      using False by (simp add: registry_set_value_ascii_def res s'(1))
    have KN: "kname (KEY s' x) = kname (KEY s1 x)" for x using s'(3) by (metis (no_types, lifting) REG_KEY.select_convs(1) REG_KEY.surjective REG_KEY.update_convs(5) fun_upd_apply)
    have rd: "s_root s \<in> dom G1" by (rule grows_dom [OF a(3) root])
    have op: "resolve_loop False (s_root s') path s' = Some (s', k)"
      using resolve_open [OF a(2) s'(2) KN _ rd, of False path] s'(6) a(5) False by (auto simp: s'(4) a(4))
    show thesis
    proof (cases "v = 0")
      case True
      then show thesis using run s'(2,4,5) a(4) rd by (intro that [where s' = s' and G' = G' and ok = False and d = None]) auto
    next
      case nv: False
      then obtain d vs' where d: "G' k = Some (cs, vs')" "d = None \<or> d = Some (map b [0..<unat sz])"
        "map (value_of s') vs' = put_value name (ty, sz, d) (map (value_of s1) vs)" using sp by blast
      obtain n where "find (\<lambda>r. ieq (fst r) name) (map (value_of s') vs') = Some (n, ty, sz, d)"
        using put_value_lookup [OF nm] d(3) by metis
      then show thesis using run s'(2,4,5) a(4) rd op d nv
        by (intro that [where s' = s' and G' = G' and ok = True and k = k and cs = cs and vs = vs' and d = d and n = n]) auto
    qed
  qed
qed

section \<open>A small registry\<close>

text \<open>A fresh heap whose first block is the root key, as \<open>registry_init\<close> makes it first.\<close>

definition root_heap :: heap where
  "root_heap = [\<lparr>baddr = 0x2000000, bsize = 96, bfree = False\<rparr>, \<lparr>baddr = 0x2000078, bsize = 0xFFFF70, bfree = True\<rparr>]"

definition reg_demo :: reg_state where
  "reg_demo = \<lparr>r_ob = ob_start\<lparr>ob_heap := root_heap\<rparr>, s_root = 0x2000018,
     KEY = (\<lambda>_. \<lparr>kname = [CHR 0x5C] @ ''Registry'', parent = 0, children = 0, sibling = 0, vals = 0\<rparr>),
     VAL = (\<lambda>_. \<lparr>vname = [], vtype = 0, vsize = 0, vdata = 0, vnext = 0\<rparr>), rmem = (\<lambda>_. 0)\<rparr>"

definition G_demo :: ghost where "G_demo = [0x2000018 \<mapsto> ([], [])]"

lemma root_heap_is_kmalloc: "kmalloc sizeof_REG_KEY heap_init = (root_heap, 0x2000018)"
proof -
  have "(96 :: u64) + 15 = 111" by simp
  then show ?thesis by (simp add: kmalloc_def heap_init_def heap_consts align16_unat root_heap_def sizeof_REG_KEY_def)
qed

lemma root_heap_inv: "heap_inv root_heap"
  by (rule kmalloc_inv [OF heap_init_inv root_heap_is_kmalloc])

lemma reg_demo_inv: "reg_inv reg_demo G_demo"
  unfolding reg_inv_def
proof (intro conjI allI impI)
  show "heap_inv (r_heap reg_demo)" using root_heap_inv by (simp add: r_heap_def reg_demo_def)
next
  fix p r assume b: "block reg_demo G_demo p r"
  then have p: "p = 0x2000018" "r = RKey" by (cases r; auto simp: G_demo_def split: if_splits)+
  show "p \<noteq> 0" "live reg_demo p \<noteq> None"
    by (simp_all add: p live_def r_heap_def reg_demo_def root_heap_def heap_live_def block_hdr_def)
  show "r = r'" if "block reg_demo G_demo p r'" for r'
    using that p by (cases r') (auto simp: G_demo_def split: if_splits)
next
  fix p k v assume "block reg_demo G_demo p (RData k v)"
  then show "\<exists>n. live reg_demo p = Some n \<and> unat (vsize (VAL reg_demo v)) \<le> n"
    by (auto simp: G_demo_def split: if_splits)
qed (auto simp: G_demo_def reg_demo_def split: if_splits)

lemma reg_demo_root [simp]: "s_root reg_demo \<in> dom G_demo"
  by (simp add: reg_demo_def G_demo_def)

section \<open>The properties of the registry\<close>



text \<open>C22: opening after creating: resolving a path with \<open>create\<close> from a key of a well-formed registry
  returns, keeps the registry well formed and every key, name and value that was there, and when it
  gives a key, resolving the same path without \<open>create\<close> gives that key.\<close>
theorem registry_create_open:
  assumes "reg_inv s G" "k \<in> dom G"
  shows "\<exists>s' c G'. reg_resolve_path k (Some path) True s = Some (s', c) \<and> reg_inv s' G' \<and> grows s G s' G' \<and>
    (c \<noteq> 0 \<longrightarrow> c \<in> dom G' \<and> reg_resolve_path k (Some path) False s' = Some (s', c))"
proof -
  have "k \<noteq> 0" using reg_invD(6) [OF assms(1), of k RKey] assms(2) by auto
  then show ?thesis using resolve_create_spec [OF assms, of True path] by (auto simp: reg_resolve_path_def)
qed

theorem registry_create_open_witness:
  "\<exists>s' c G'. reg_resolve_path (s_root reg_demo) (Some ''Machine/Software'') True reg_demo = Some (s', c) \<and> reg_inv s' G' \<and>
    (c \<noteq> 0 \<longrightarrow> reg_resolve_path (s_root reg_demo) (Some ''Machine/Software'') False s' = Some (s', c))"
  using registry_create_open [OF reg_demo_inv reg_demo_root, of "''Machine/Software''"] by blast

text \<open>No live block is as large as the heap.\<close>

lemma live_bound: "heap_inv (r_heap s) \<Longrightarrow> live s p = Some n \<Longrightarrow> n < HEAP_SIZE"
  by (auto simp: live_def heap_inv_def block_hdr_def dest!: heap_live_Some dest: tiles_addr_ge)

lemma big_value_no_bytes:
  assumes inv: "reg_inv s G" and k: "G k = Some (cs, vs)" and v: "v \<in> set vs" "value_of s v = (n, ty, sz, d)" and big: "HEAP_SIZE \<le> unat sz"
  shows "d = None"
proof (rule ccontr)
  assume "d \<noteq> None"
  moreover have sz: "vsize (VAL s v) = sz" "bytes_of s v = d" using v(2) by (simp_all add: value_of_def)
  moreover have "sz \<noteq> 0" using big by (auto simp: HEAP_SIZE_def)
  ultimately have "vdata (VAL s v) \<noteq> 0" by (auto simp: bytes_of_def split: if_splits)
  then have "block s G (vdata (VAL s v)) (RData k v)" using k v(1) by simp
  from reg_invD(7) [OF inv this] show False using live_bound [OF reg_invD(1) [OF inv]] big sz(1) by fastforce
qed

lemma big_value_lib:
  assumes "reg_inv s G" "s_root s \<in> dom G" "length name \<le> 63" "HEAP_SIZE \<le> unat sz" "mx \<noteq> 0"
    "registry_set_value_ascii path name ty (Some b) sz s = Some (s', True)"
  shows "registry_get_value_ascii path name mx s' = None"
proof -
  obtain t ok G' k cs vs d n where R: "registry_set_value_ascii path name ty (Some b) sz s = Some (t, ok)" "reg_inv t G'"
    "s_root t = s_root s" "s_root s \<in> dom G'"
    "ok \<Longrightarrow> resolve_loop False (s_root t) path t = Some (t, k)" "ok \<Longrightarrow> G' k = Some (cs, vs)"
    "ok \<Longrightarrow> find (\<lambda>r. ieq (fst r) name) (map (value_of t) vs) = Some (n, ty, sz, d)"
    by (rule registry_set_ascii_spec [OF assms(1-3), of path ty b sz]) (rule that, blast+)
  have e: "t = s'" ok using R(1) assms(6) by simp_all
  have r0: "s_root s' \<noteq> 0" using reg_invD(6) [OF R(2), of "s_root s'" RKey] R(3,4) e by auto
  have f: "find (\<lambda>r. ieq (fst r) name) (map (value_of s') vs) = Some (n, ty, sz, d)" using R(7) e by simp
  obtain v where "v \<in> set vs" "value_of s' v = (n, ty, sz, d)"
    using f unfolding find_Some_iff by (metis length_map nth_map nth_mem)
  then have "d = None" using big_value_no_bytes [OF R(2)] R(6) e assms(4) by blast
  moreover have "sz \<noteq> 0" using assms(4) by (auto simp: HEAP_SIZE_def)
  ultimately show ?thesis
    using get_ascii_eq [OF R(2) _ _ R(6) R(7), of path mx] R(5) e r0 assms(5) by simp
qed


lemma demo_value_alloc: "kmalloc sizeof_REG_VALUE root_heap =
    ([\<lparr>baddr = 0x2000000, bsize = 96, bfree = False\<rparr>, \<lparr>baddr = 0x2000078, bsize = 96, bfree = False\<rparr>,
      \<lparr>baddr = 0x20000F0, bsize = 0xFFFEF8, bfree = True\<rparr>], 0x2000090)"
proof -
  have "unat (align16 sizeof_REG_VALUE) = 96" by (simp add: sizeof_REG_VALUE_def align16_unat)
  then show ?thesis by (simp add: kmalloc_def root_heap_def block_hdr_def)
qed


lemma key_handle_dead:
  assumes tab: "htab_inv (r_ob s)" and k: "k \<noteq> 0" "Type (HEADER (r_ob s) k) \<noteq> OB_TYPE_REGKEY"
  obtains s' h where "key_handle k s = Some (s', h)" "handle_key h s' = 0"
proof (cases "ob_free_slot (s_handles (r_ob s)) 1")
  case None
  have "handle_key 0 s = 0" by (simp add: handle_key_def ob_handle_to_object_def handle_slot_def)
  then show thesis using None k by (intro that [of s 0]) (simp_all add: key_handle_def ob_create_handle_eq)
next
  case (Some i)
  then have i: "0 < i" "i < MAX_HANDLES" using ob_free_slot_Some [OF Some] by simp_all
  define ob where "ob = bump k 1 1 ((r_ob s)\<lparr>s_handles := (s_handles (r_ob s))[i := k]\<rparr>)"
  have "Type (HEADER ob k) = Type (HEADER (r_ob s) k)" "s_handles ob ! i = k"
    using tab i by (simp_all add: ob_def bump_def htab_inv_def)
  then have "handle_key (ob_hnd i) (s\<lparr>r_ob := ob\<rparr>) = 0"
    using k i by (simp add: handle_key_def ob_handle_to_object_def handle_slot_hnd Let_def OB_TYPE_REGKEY_def OB_TYPE_NONE_def)
  then show thesis using Some k by (intro that [of "s\<lparr>r_ob := ob\<rparr>" "ob_hnd i"]) (simp_all add: key_handle_def ob_create_handle_eq ob_def)
qed



text \<open>C31: \<open>reg_set_value\<close> refines the update of an association list: seen as the lists of named children and of
  records (name, type, size, bytes) of each key, it replaces the first record whose name agrees up to case
  and puts a record with the name cut to 63 characters in front when there is none; no other key changes
  and the registry stays well formed.  The bytes are missing when no block was found for them; the
  call gives 0 and changes nothing when none was found for the value itself.\<close>
theorem registry_set_refines:
  assumes "reg_inv s G" "view s G k = Some (kids, rs)"
  shows "\<exists>s' v G' d. reg_set_value k name ty (Some b) sz s = Some (s', v) \<and> reg_inv s' G' \<and>
    (d = None \<or> d = Some (map b [0..<unat sz])) \<and>
    view s' G' = (if v = 0 then view s G else (view s G)(k \<mapsto> (kids, put_value name (ty, sz, d) rs)))"
proof -
  obtain cs vs where G: "G k = Some (cs, vs)" "kids = map (\<lambda>c. (kname (KEY s c), c)) cs" "rs = map (value_of s) vs"
    using assms(2) by (auto simp: view_def)
  obtain s' v G' where R: "reg_set_value k name ty (Some b) sz s = Some (s', v)" "reg_inv s' G'" "v = 0 \<longrightarrow> view s' G' = view s G"
    and S: "v \<noteq> 0 \<longrightarrow> (\<exists>d vs'. G' k = Some (cs, vs') \<and> (d = None \<or> d = Some (map b [0..<unat sz])) \<and>
      view s' G' = (view s G)(k \<mapsto> (map (\<lambda>c. (kname (KEY s c), c)) cs, put_value name (ty, sz, d) (map (value_of s) vs))) \<and>
      map (value_of s') vs' = put_value name (ty, sz, d) (map (value_of s) vs) \<and>
      v \<in> set vs' \<and> value_of s' v = (vname (VAL s' v), ty, sz, d))"
    using reg_set_value_spec [OF assms(1) G(1), of name ty b sz] by (elim exE conjE) (rule that)
  show ?thesis
  proof (cases "v = 0")
    case True
    then show ?thesis using R by (intro exI [of _ s'] exI [of _ v] exI [of _ G'] exI [of _ None]) simp
  next
    case False
    then obtain d where "d = None \<or> d = Some (map b [0..<unat sz])"
      "view s' G' = (view s G)(k \<mapsto> (kids, put_value name (ty, sz, d) rs))"
      using S unfolding G(2,3) by (elim impE exE conjE) auto
    then show ?thesis using R(1,2) False by (intro exI [of _ s'] exI [of _ v] exI [of _ G'] exI [of _ d]) simp
  qed
qed

theorem registry_set_refines_witness:
  "\<exists>s' v G' d. reg_set_value 0x2000018 ''a'' 4 (Some (\<lambda>_. 7)) 4 reg_demo = Some (s', v) \<and> reg_inv s' G' \<and>
    (d = None \<or> d = Some (map (\<lambda>_. 7) [0..<unat (4 :: u32)])) \<and>
    view s' G' = (if v = 0 then view reg_demo G_demo
                  else (view reg_demo G_demo)(0x2000018 \<mapsto> ([], put_value ''a'' (4, 4, d) [])))"
  by (rule registry_set_refines [OF reg_demo_inv]) (simp add: view_def G_demo_def)

end
