(* ===== verification/Spec2Isabelle.thy ===== *)
theory Spec2Isabelle
  imports Pmm Heap Pool VirtMem Ob Pipe Cid Process Callbacks Sched Dpc Sync ExSync Timer Bytes NtfsBase NtfsRead NtfsWrite NtfsIndex Paging AddrSpace Registry RegistryInv
begin

text \<open>Verification library of MeuOS (header below is extended with each component).\<close>

end
